(* ===== verification/Lumberjack_Prelude.thy ===== *)
theory Lumberjack_Prelude
  imports Main "HOL-Library.Word" "HOL-Library.Monad_Syntax"
begin

text \<open>
  Shared vocabulary of the development.

  \<^item> Machine integers: \<open>u8\<close>, \<open>u16\<close>, \<open>u32\<close> are words of that width; \<open>usize\<close> is \<open>nat\<close>, because
    every \<open>usize\<close> expression of the crate is a sum of a buffer length or a cast \<open>u32\<close> and small
    constants, which cannot overflow the 64-bit \<open>usize\<close> of the supported targets. A cast
    \<open>as u32\<close> of a length truncates and is written \<open>word_of_nat\<close>.
  \<^item> Byte buffers: \<open>Bytes\<close> and \<open>BytesMut\<close> are represented by the byte sequence they hold (the
    slice they dereference to). The cursor operations the crate uses (\<open>put_u8\<close>, \<open>put_u32\<close>,
    \<open>extend_from_slice\<close>, \<open>advance\<close>, \<open>get_u32\<close>, \<open>split_to\<close>, indexing, slicing) act on that
    sequence as documented; where the operation panics on a short buffer the model returns
    \<^term>\<open>None\<close>, so that absence of panics is something to prove.
  \<^item> \<open>Result\<open>T\<close>\<close> is a sum with the error on the left; a computation that may panic is an
    option with \<^term>\<open>None\<close> for the panic.
  \<^item> The locale \<open>simulation\<close>: what a step-by-step simulation of one system by another gives for whole runs.
\<close>

section \<open>Types\<close>

type_synonym u8 = "8 word"
type_synonym u16 = "16 word"
type_synonym u32 = "32 word"
type_synonym usize = nat
type_synonym bytes = "u8 list"
type_synonym array4 = "u8 \<times> u8 \<times> u8 \<times> u8"

named_theorems buffer_defs "definitions of the byte-buffer cursor operations"
named_theorems wire_lemmas "facts on encoded frames"

section \<open>Big-endian integers\<close>

definition to_be_bytes :: "u32 \<Rightarrow> bytes" where
  "to_be_bytes n = [ucast (drop_bit 24 n), ucast (drop_bit 16 n), ucast (drop_bit 8 n), ucast n]"

fun from_be_bytes :: "array4 \<Rightarrow> u32" where
  "from_be_bytes (a, b, c, d) =
     or (push_bit 24 (ucast a)) (or (push_bit 16 (ucast b)) (or (push_bit 8 (ucast c)) (ucast d)))"

fun try_into_array4 :: "bytes \<Rightarrow> array4 option" where
  "try_into_array4 [a, b, c, d] = Some (a, b, c, d)"
| "try_into_array4 _ = None"

text \<open>A byte-string literal.\<close>

definition ascii :: "string \<Rightarrow> bytes" where
  "ascii s = map of_char s"

section \<open>Buffer operations\<close>

definition index :: "'a list \<Rightarrow> usize \<Rightarrow> 'a option" where
  [buffer_defs]: "index xs i = (if i < length xs then Some (xs ! i) else None)"

definition subslice :: "'a list \<Rightarrow> usize \<Rightarrow> usize \<Rightarrow> 'a list option" where
  [buffer_defs]: "subslice xs i j =
     (if i \<le> j \<and> j \<le> length xs then Some (take (j - i) (drop i xs)) else None)"

definition put_u8 :: "u8 \<Rightarrow> bytes \<Rightarrow> bytes" where
  [buffer_defs]: "put_u8 b dst = dst @ [b]"

definition put_u32 :: "u32 \<Rightarrow> bytes \<Rightarrow> bytes" where
  [buffer_defs]: "put_u32 n dst = dst @ to_be_bytes n"

definition extend_from_slice :: "bytes \<Rightarrow> bytes \<Rightarrow> bytes" where
  [buffer_defs]: "extend_from_slice s dst = dst @ s"

definition advance :: "usize \<Rightarrow> bytes \<Rightarrow> bytes option" where
  [buffer_defs]: "advance n src = (if n \<le> length src then Some (drop n src) else None)"

definition split_to :: "usize \<Rightarrow> bytes \<Rightarrow> (bytes \<times> bytes) option" where
  [buffer_defs]: "split_to n src = (if n \<le> length src then Some (take n src, drop n src) else None)"

definition get_u32 :: "bytes \<Rightarrow> (u32 \<times> bytes) option" where
  [buffer_defs]: "get_u32 src = do { a \<leftarrow> try_into_array4 (take 4 src); Some (from_be_bytes a, drop 4 src) }"

section \<open>Lemmas\<close>

lemma length_to_be_bytes [simp]: "length (to_be_bytes n) = 4"
  by (simp add: to_be_bytes_def)

lemma from_be_to_be_word [simp]:
  "from_be_bytes (ucast (drop_bit 24 n), ucast (drop_bit 16 n), ucast (drop_bit 8 n), ucast n) = n"
proof (rule bit_word_eqI)
  fix k
  assume "k < LENGTH(32)"
  then consider "k < 8" | "8 \<le> k" "k < 16" | "16 \<le> k" "k < 24" | "24 \<le> k" "k < 32"
    by fastforce
  then show "bit (from_be_bytes (ucast (drop_bit 24 n), ucast (drop_bit 16 n),
      ucast (drop_bit 8 n), ucast n)) k = bit n k"
    by cases (auto simp: bit_or_iff bit_push_bit_iff bit_ucast_iff bit_drop_bit_eq)
qed

lemma bit_byte_high [simp]: "8 \<le> k \<Longrightarrow> \<not> bit (b :: u8) k"
  using bit_imp_le_length [of b k] by auto

lemma to_be_from_be [simp]: "to_be_bytes (from_be_bytes (a, b, c, d)) = [a, b, c, d]"
  by (auto intro!: bit_word_eqI
      simp: to_be_bytes_def bit_or_iff bit_push_bit_iff bit_ucast_iff bit_drop_bit_eq)

lemma get_u32_Cons [simp]: "get_u32 (a # b # c # d # rest) = Some (from_be_bytes (a, b, c, d), rest)"
  by (simp add: get_u32_def numeral_eq_Suc)

lemma to_be_bytes_Cons:
  "\<exists>a b c d. to_be_bytes n = [a, b, c, d] \<and> from_be_bytes (a, b, c, d) = n"
  using from_be_to_be_word [of n] unfolding to_be_bytes_def by blast

text \<open>A buffer either holds the fixed fields of a frame or is short.\<close>

lemma four_bytes_cases:
  obtains (short) "length xs < 4" | (full) a b c d rest where "xs = a # b # c # d # rest"
proof (cases "length xs < 4")
  case False
  then have "\<exists>a b c d rest. xs = a # b # c # d # rest"
    by (auto simp: not_less numeral_eq_Suc Suc_le_length_iff)
  with full show ?thesis by blast
qed (rule short)

lemma eight_bytes_cases:
  obtains (short) "length xs < 8"
  | (full) a b c d e f g h rest where "xs = a # b # c # d # e # f # g # h # rest"
proof (cases "length xs < 8")
  case False
  then have "\<exists>a b c d e f g h rest. xs = a # b # c # d # e # f # g # h # rest"
    by (auto simp: not_less numeral_eq_Suc Suc_le_length_iff)
  with full show ?thesis by blast
qed (rule short)

section \<open>Simulation\<close>

text \<open>A system simulates another, step by step, with steps that the other does not see.\<close>

locale simulation =
  fixes cstep :: "'c \<Rightarrow> 'c \<Rightarrow> bool" and astep :: "'a \<Rightarrow> 'a \<Rightarrow> bool"
    and inv :: "'c \<Rightarrow> bool" and rel :: "'c \<Rightarrow> 'a \<Rightarrow> bool"
  assumes inv_step: "inv c \<Longrightarrow> cstep c c' \<Longrightarrow> inv c'"
    and simulates: "inv c \<Longrightarrow> rel c a \<Longrightarrow> cstep c c' \<Longrightarrow> \<exists>a'. astep\<^sup>=\<^sup>= a a' \<and> rel c' a'"
begin

lemma simulates_run:
  assumes "cstep\<^sup>*\<^sup>* c c'" and "inv c" and "rel c a"
  shows "inv c' \<and> (\<exists>a'. astep\<^sup>*\<^sup>* a a' \<and> rel c' a')"
  using assms(1)
proof (induction rule: rtranclp_induct)
  case base
  from assms(2,3) show ?case by blast
next
  case (step c1 c2)
  then obtain a1 where a1: "inv c1" "astep\<^sup>*\<^sup>* a a1" "rel c1 a1" by blast
  from simulates [OF a1(1,3) step.hyps(2)] obtain a2 where "astep\<^sup>=\<^sup>= a1 a2" "rel c2 a2" by blast
  with a1(2) have "astep\<^sup>*\<^sup>* a a2" by auto
  with \<open>rel c2 a2\<close> inv_step [OF a1(1) step.hyps(2)] show ?case by blast
qed

end

end
