(* ===== verification/Lumberjack_Error.thy ===== *)
theory Lumberjack_Error
  imports Lumberjack_Prelude
begin

text \<open>
  The crate's error type (\<^verbatim>\<open>src/error.rs\<close>): one constructor per variant, and the text that the
  \<^verbatim>\<open>#[error(...)]\<close> attributes give each of them. An \<open>io::Error\<close> is its kind and its message; of the
  kinds the crate inspects only two (\<^verbatim>\<open>src/client.rs\<close>), the others are numbered. The \<open>String\<close> or foreign
  error carried by a variant is the text it displays.
\<close>

datatype io_error_kind = AddrInUse | AddrNotAvailable | OtherKind nat

datatype io_error = IoError (kind: io_error_kind) (message: string)

datatype error =
    Io io_error
  | InvalidFrame string
  | FrameTooLarge usize usize
  | Compression string
  | Serialization string
  | UnexpectedFrame string
  | SeqOutOfOrder u32 u32
  | WriteTimeout
  | AckTimeout
  | ConnectionClosed
  | InvalidConfig string
  | NoLocalPortAvailable
  | Tls string

type_synonym 'a result = "error + 'a"

text \<open>Decimal text of an unsigned integer, as \<^verbatim>\<open>{}\<close> formats it.\<close>

fun decimal :: "nat \<Rightarrow> string" where
  "decimal n = (if n < 10 then [char_of (48 + n)] else decimal (n div 10) @ [char_of (48 + n mod 10)])"

declare decimal.simps [simp del]

definition digit_value :: "string \<Rightarrow> nat" where
  "digit_value = foldl (\<lambda>v c. 10 * v + (of_char c - 48)) 0"

fun display :: "error \<Rightarrow> string" where
  "display (Io e) = ''io error: '' @ message e"
| "display (InvalidFrame s) = ''invalid frame: '' @ s"
| "display (FrameTooLarge sz mx) = ''frame too large: '' @ decimal sz @ '' > '' @ decimal mx"
| "display (Compression s) = ''compression error: '' @ s"
| "display (Serialization s) = ''serialization error: '' @ s"
| "display (UnexpectedFrame s) = ''unexpected frame: '' @ s"
| "display (SeqOutOfOrder got prev) =
     ''seq out of order: got '' @ decimal (unat got) @ '', expected > '' @ decimal (unat prev)"
| "display WriteTimeout = ''write timeout''"
| "display AckTimeout = ''ack timeout''"
| "display ConnectionClosed = ''connection closed by peer''"
| "display (InvalidConfig s) = ''invalid config: '' @ s"
| "display NoLocalPortAvailable = ''no local port available in configured range''"
| "display (Tls s) = ''tls error: '' @ s"

text \<open>The conversion that \<^verbatim>\<open>#[from]\<close> derives for I/O errors, and the underlying error that \<open>Error::source\<close> reports, as its text.\<close>

definition error_from_io :: "io_error \<Rightarrow> error" where
  "error_from_io e = Io e"

fun error_source :: "error \<Rightarrow> string option" where
  "error_source (Io e) = Some (message e)"
| "error_source (Tls s) = Some s"
| "error_source _ = None"

section \<open>The text of an error determines its numbers\<close>

lemma decimal_digits: "c \<in> set (decimal n) \<Longrightarrow> (48 :: nat) \<le> of_char c \<and> of_char c < (58 :: nat)"
proof (induction n rule: decimal.induct)
  case (1 n)
  then show ?case
    by (cases "n < 10") (auto simp: decimal.simps [of n])
qed

lemma digit_value_snoc: "digit_value (s @ [c]) = 10 * digit_value s + (of_char c - 48)"
  by (simp add: digit_value_def)

lemma digit_value_decimal [simp]: "digit_value (decimal n) = n"
proof (induction n rule: decimal.induct)
  case (1 n)
  show ?case
  proof (cases "n < 10")
    case True
    then show ?thesis by (simp add: decimal.simps [of n] digit_value_def)
  next
    case False
    then have "digit_value (decimal n) = 10 * (n div 10) + n mod 10"
      using "1.IH" by (simp add: decimal.simps [of n] digit_value_snoc)
    then show ?thesis by simp
  qed
qed

lemma decimal_inject [simp]: "decimal m = decimal n \<longleftrightarrow> m = n"
  by (metis digit_value_decimal)

lemma split_at_separator:
  assumes "xs @ c # ys = xs' @ c # ys'" and "c \<notin> set xs" and "c \<notin> set xs'"
  shows "xs = xs' \<and> ys = ys'"
  using assms
proof (induction xs arbitrary: xs')
  case Nil
  then show ?case by (cases xs') auto
next
  case (Cons x xs)
  then show ?case by (cases xs') auto
qed

lemma no_separator_in_decimal: "CHR '' '' \<notin> set (decimal n)" "CHR '','' \<notin> set (decimal n)"
  using decimal_digits [of "CHR '' ''" n] decimal_digits [of "CHR '',''" n] by auto

text \<open>
  The one test of the display text (\<^verbatim>\<open>display_format_includes_context\<close>) checks a single value; the
  general fact is that the numbers of a message can be read back from it.
\<close>

lemma display_FrameTooLarge_inject:
  "display (FrameTooLarge s m) = display (FrameTooLarge s' m') \<longleftrightarrow> s = s' \<and> m = m'"
  using split_at_separator [of "decimal s" "CHR '' ''" "''> '' @ decimal m" "decimal s'" "''> '' @ decimal m'"]
  by (auto simp: no_separator_in_decimal)

lemma display_SeqOutOfOrder_inject:
  "display (SeqOutOfOrder g p) = display (SeqOutOfOrder g' p') \<longleftrightarrow> g = g' \<and> p = p'"
  using split_at_separator [of "decimal (unat g)" "CHR '',''" "'' expected > '' @ decimal (unat p)"
      "decimal (unat g')" "'' expected > '' @ decimal (unat p')"]
  by (auto simp: no_separator_in_decimal unsigned_word_eqI)

end
