(* ===== verification/Zlib_Payload.thy ===== *)
theory Zlib_Payload
  imports Lumberjack_Error
begin

text \<open>
  Compressed payloads: \<^verbatim>\<open>zlib_compress\<close> and \<^verbatim>\<open>zlib_decompress\<close> of \<^verbatim>\<open>src/frame.rs\<close>.

  The compressor itself is the crate \<^verbatim>\<open>flate2\<close>, which is not part of the repository: it is the
  parameter \<open>z\<close> of every definition below, a record of the three calls the code makes.
  \<^item> \<open>zlib_encode level input\<close>: \<open>ZlibEncoder::new(Vec::new(), Compression::new(level))\<close>, one
    \<open>write_all(input)\<close> and \<open>finish()\<close>;
  \<^item> \<open>zlib_decoder input\<close>: \<open>ZlibDecoder::new(input)\<close>, of an unknown state type \<open>'d\<close>;
  \<^item> \<open>zlib_read d n\<close>: \<open>dec.read(&mut chunk)\<close> with a chunk of \<open>n\<close> bytes, an error text or the bytes
    delivered (none at the end of the stream), and the decoder afterwards.
  The cargo feature \<^verbatim>\<open>compression\<close> is what brings the crate in, so the code that depends on it takes a
  \<open>flate2 option\<close>, \<^term>\<open>None\<close> when the feature is off.

  What the code relies on is the locale \<open>flate2_laws\<close>: reading delivers at most the chunk asked
  for, and decoding what was encoded delivers the input. From it follows \<open>payload_codec\<close>, the contract the
  frame layer uses.
\<close>

record 'd flate2 =
  zlib_encode :: "u32 \<Rightarrow> bytes \<Rightarrow> bytes"
  zlib_decoder :: "bytes \<Rightarrow> 'd"
  zlib_read :: "'d \<Rightarrow> usize \<Rightarrow> (string + bytes) \<times> 'd"

section \<open>The two functions of the source\<close>

definition zlib_compress :: "'d flate2 \<Rightarrow> bytes \<Rightarrow> bytes" where
  "zlib_compress z input = zlib_encode z 3 input"

function decompress_loop :: "'d flate2 \<Rightarrow> usize \<Rightarrow> 'd \<Rightarrow> bytes \<Rightarrow> bytes result" where
  "decompress_loop z limit dec out =
     (case zlib_read z dec 8192 of
        (Inl e, _) \<Rightarrow> Inl (Compression e)
      | (Inr chunk, dec') \<Rightarrow>
          (let n = length chunk in
           if n = 0 then Inr out
           else if length out + n > limit then Inl (FrameTooLarge (length out + n) limit)
           else decompress_loop z limit dec' (extend_from_slice chunk out)))"
  by pat_completeness auto
termination
  by (relation "measure (\<lambda>(z, limit, dec, out). limit - length out)")
    (auto simp: extend_from_slice_def neq_Nil_conv)

declare decompress_loop.simps [simp del]

definition zlib_decompress :: "'d flate2 \<Rightarrow> bytes \<Rightarrow> usize \<Rightarrow> bytes result" where
  "zlib_decompress z input limit = decompress_loop z limit (zlib_decoder z input) []"

section \<open>Contracts\<close>

text \<open>\<open>inflates z d x\<close>: reading the decoder \<open>d\<close> chunk by chunk up to the end of its stream delivers \<open>x\<close>.\<close>

inductive inflates :: "'d flate2 \<Rightarrow> 'd \<Rightarrow> bytes \<Rightarrow> bool" for z where
  eof: "zlib_read z d 8192 = (Inr [], d') \<Longrightarrow> inflates z d []"
| chunk: "zlib_read z d 8192 = (Inr bs, d') \<Longrightarrow> bs \<noteq> [] \<Longrightarrow> inflates z d' x \<Longrightarrow>
    inflates z d (bs @ x)"

locale flate2_laws =
  fixes z :: "'d flate2"
  assumes read_length: "zlib_read z d n = (Inr bs, d') \<Longrightarrow> length bs \<le> n"
    and inflate_deflate: "inflates z (zlib_decoder z (zlib_encode z level x)) x"

locale payload_codec =
  fixes compress :: "bytes \<Rightarrow> bytes"
    and decompress :: "bytes \<Rightarrow> usize \<Rightarrow> bytes result"
  assumes decompress_compress: "length x \<le> limit \<Longrightarrow> decompress (compress x) limit = Inr x"
    and decompress_too_large: "limit < length x \<Longrightarrow>
      \<exists>n. decompress (compress x) limit = Inl (FrameTooLarge n limit) \<and> limit < n \<and> n \<le> length x"
    and decompress_bounded: "decompress y limit = Inr x \<Longrightarrow> length x \<le> limit"
    and decompress_size: "decompress y limit = Inl (FrameTooLarge n m) \<Longrightarrow>
      m = limit \<and> limit < n \<and> n \<le> limit + 8192"

section \<open>The decompression loop\<close>

lemma decompress_loop_error:
  "zlib_read z d 8192 = (Inl e, d') \<Longrightarrow> decompress_loop z limit d out = Inl (Compression e)"
  by (simp add: decompress_loop.simps [of z limit d out])

lemma decompress_loop_eof:
  "zlib_read z d 8192 = (Inr [], d') \<Longrightarrow> decompress_loop z limit d out = Inr out"
  by (simp add: decompress_loop.simps [of z limit d out])

lemma decompress_loop_chunk:
  "zlib_read z d 8192 = (Inr bs, d') \<Longrightarrow> bs \<noteq> [] \<Longrightarrow>
   decompress_loop z limit d out =
     (if length out + length bs > limit then Inl (FrameTooLarge (length out + length bs) limit)
      else decompress_loop z limit d' (out @ bs))"
  by (simp add: decompress_loop.simps [of z limit d out] Let_def extend_from_slice_def)

lemmas decompress_loop_steps = decompress_loop_error decompress_loop_eof decompress_loop_chunk

lemma decompress_loop_cases:
  obtains (error) e d' where "zlib_read z d 8192 = (Inl e, d')"
  | (eof) d' where "zlib_read z d 8192 = (Inr [], d')"
  | (chunk) b bs d' where "zlib_read z d 8192 = (Inr (b # bs), d')"
  by (cases "zlib_read z d 8192"; cases "fst (zlib_read z d 8192)";
      cases "projr (fst (zlib_read z d 8192))") auto

text \<open>Induction along the reads of the loop, for facts about its result.\<close>

lemma decompress_loop_bounded:
  "decompress_loop z limit d out = Inr x \<Longrightarrow> length out \<le> limit \<Longrightarrow>
   length x \<le> limit \<and> length out \<le> length x"
proof (induction z limit d out rule: decompress_loop.induct)
  case (1 z limit d out)
  show ?case
  proof (cases z d rule: decompress_loop_cases)
    case (chunk b bs d')
    with 1 show ?thesis
      by (fastforce simp: decompress_loop_steps extend_from_slice_def split: if_splits)
  qed (use 1 in \<open>auto simp: decompress_loop_steps\<close>)
qed

lemma decompress_loop_result:
  "length out \<le> limit \<Longrightarrow>
   (\<exists>x. decompress_loop z limit d out = Inr x \<and> length x \<le> limit) \<or>
   (\<exists>e. decompress_loop z limit d out = Inl (Compression e)) \<or>
   (\<exists>n. decompress_loop z limit d out = Inl (FrameTooLarge n limit) \<and> limit < n)"
proof (induction z limit d out rule: decompress_loop.induct)
  case (1 z limit d out)
  show ?case
  proof (cases z d rule: decompress_loop_cases)
    case (chunk b bs d')
    with 1 show ?thesis by (auto simp: decompress_loop_steps extend_from_slice_def)
  qed (use 1 in \<open>auto simp: decompress_loop_steps\<close>)
qed

lemma decompress_loop_size:
  assumes read: "\<And>d bs d'. zlib_read z d 8192 = (Inr bs, d') \<Longrightarrow> length bs \<le> 8192"
  shows "decompress_loop z limit d out = Inl (FrameTooLarge n m) \<Longrightarrow> length out \<le> limit \<Longrightarrow>
    m = limit \<and> limit < n \<and> n \<le> limit + 8192"
  using read
proof (induction z limit d out rule: decompress_loop.induct)
  case (1 z limit d out)
  show ?case
  proof (cases z d rule: decompress_loop_cases)
    case (chunk b bs d')
    with 1 show ?thesis
      by (fastforce simp: decompress_loop_steps extend_from_slice_def split: if_splits)
  qed (use 1 in \<open>auto simp: decompress_loop_steps\<close>)
qed

text \<open>
  A decoder that inflates to \<open>x\<close> gives \<open>x\<close> when the limit allows it, and otherwise stops at the first
  chunk that passes the limit, without inflating the rest.
\<close>

lemma decompress_loop_inflates:
  assumes "inflates z d x"
  shows "length out + length x \<le> limit \<Longrightarrow> decompress_loop z limit d out = Inr (out @ x)"
    and "length out \<le> limit \<Longrightarrow> limit < length out + length x \<Longrightarrow>
      \<exists>n. decompress_loop z limit d out = Inl (FrameTooLarge n limit) \<and> limit < n \<and> n \<le> length out + length x"
  using assms
proof (induction arbitrary: out)
  case (eof d d')
  { case 1 then show ?case using eof by (simp add: decompress_loop_steps) }
  { case 2 then show ?case by simp }
next
  case (chunk d bs d' x)
  { case 1
    then show ?case using chunk by (simp add: decompress_loop_steps) }
  { case 2
    then show ?case
      using chunk.hyps chunk.IH(2) [of "out @ bs"]
      by (auto simp: decompress_loop_steps add.assoc) }
qed

sublocale flate2_laws \<subseteq> payload: payload_codec "zlib_compress z" "zlib_decompress z"
proof unfold_locales
  fix x :: bytes and limit :: usize
  show "zlib_decompress z (zlib_compress z x) limit = Inr x" if "length x \<le> limit"
    using decompress_loop_inflates(1) [OF inflate_deflate, of "[]" x limit 3] that
    by (simp add: zlib_decompress_def zlib_compress_def)
  show "\<exists>n. zlib_decompress z (zlib_compress z x) limit = Inl (FrameTooLarge n limit) \<and>
      limit < n \<and> n \<le> length x" if "limit < length x"
    using decompress_loop_inflates(2) [OF inflate_deflate, of "[]" limit x 3] that
    by (simp add: zlib_decompress_def zlib_compress_def)
next
  fix x y :: bytes and limit m n :: usize
  show "length x \<le> limit" if "zlib_decompress z y limit = Inr x"
    using decompress_loop_bounded [of z limit "zlib_decoder z y" "[]" x] that
    by (simp add: zlib_decompress_def)
  show "m = limit \<and> limit < n \<and> n \<le> limit + 8192"
    if "zlib_decompress z y limit = Inl (FrameTooLarge n m)"
    using decompress_loop_size [of z limit "zlib_decoder z y" "[]" n m] that read_length
    by (auto simp: zlib_decompress_def)
qed

context flate2_laws
begin

lemma payload_contract: "payload_codec (zlib_compress z) (zlib_decompress z)"
  by unfold_locales

end

section \<open>A concrete instance\<close>

text \<open>
  The laws can hold: the instance used by the witnesses stores the data behind the two-byte zlib header and
  refuses any other header, as a real decoder does.
\<close>

definition stored_flate2 :: "bytes option flate2" where
  "stored_flate2 =
     \<lparr>zlib_encode = (\<lambda>level x. 120 # 1 # x),
      zlib_decoder = (\<lambda>y. case y of a # b # x \<Rightarrow> if a = 120 \<and> b = 1 then Some x else None | _ \<Rightarrow> None),
      zlib_read = (\<lambda>d n. case d of None \<Rightarrow> (Inl ''corrupt deflate stream'', d)
                          | Some x \<Rightarrow> (Inr (take n x), Some (drop n x)))\<rparr>"

lemma inflates_stored: "inflates stored_flate2 (Some x) x"
proof (induction "length x" arbitrary: x rule: less_induct)
  case less
  show ?case
  proof (cases x)
    case Nil
    then show ?thesis by (auto intro!: inflates.eof simp: stored_flate2_def)
  next
    case (Cons b bs)
    then have "inflates stored_flate2 (Some (drop 8192 x)) (drop 8192 x)"
      by (intro less.hyps) simp
    then have "inflates stored_flate2 (Some x) (take 8192 x @ drop 8192 x)"
      by (intro inflates.chunk [where d' = "Some (drop 8192 x)"]) (simp_all add: stored_flate2_def Cons)
    then show ?thesis by simp
  qed
qed

interpretation stored: flate2_laws stored_flate2
proof unfold_locales
  fix d n bs d'
  show "length bs \<le> n" if "zlib_read stored_flate2 d n = (Inr bs, d')"
    using that by (auto simp: stored_flate2_def split: option.splits)
next
  fix level x
  show "inflates stored_flate2 (zlib_decoder stored_flate2 (zlib_encode stored_flate2 level x)) x"
    using inflates_stored [of x] by (simp add: stored_flate2_def)
qed

section \<open>Properties\<close>

text \<open>C24. Decompression is bounded: whatever the payload and the decompressor, a result has at most the allowed
  size, and the loop ends with that result, an error of the decompressor, or the report that the limit was passed.\<close>

theorem zlib_decompress_bounded:
  "(\<exists>x. zlib_decompress z input limit = Inr x \<and> length x \<le> limit) \<or>
   (\<exists>e. zlib_decompress z input limit = Inl (Compression e)) \<or>
   (\<exists>n. zlib_decompress z input limit = Inl (FrameTooLarge n limit) \<and> limit < n)"
  using decompress_loop_result [where z = z and limit = limit and d = "zlib_decoder z input" and out = "[]"]
  by (auto simp: zlib_decompress_def)

text \<open>Round trip and refusal of oversized payloads: with a compressor that keeps its laws, decompressing what
  was compressed gives the data back if it is within the limit, and otherwise reports a size above the limit, reached
  after inflating at most one 8192-byte chunk more than the limit allows.\<close>

theorem zlib_round_trip:
  assumes "flate2_laws z"
  shows "(length x \<le> limit \<longrightarrow> zlib_decompress z (zlib_compress z x) limit = Inr x) \<and>
    (limit < length x \<longrightarrow>
      (\<exists>n. zlib_decompress z (zlib_compress z x) limit = Inl (FrameTooLarge n limit) \<and>
        limit < n \<and> n \<le> length x \<and> n \<le> limit + 8192))"
  using payload_codec.decompress_compress [OF flate2_laws.payload_contract [OF assms]]
    payload_codec.decompress_too_large [OF flate2_laws.payload_contract [OF assms]]
    payload_codec.decompress_size [OF flate2_laws.payload_contract [OF assms]]
  by blast

theorem zlib_round_trip_witness:
  "flate2_laws stored_flate2 \<and>
   zlib_decompress stored_flate2 (zlib_compress stored_flate2 [1, 2, 3]) 3 = Inr [1, 2, 3] \<and>
   (\<exists>n. zlib_decompress stored_flate2 (zlib_compress stored_flate2 [1, 2, 3]) 2 = Inl (FrameTooLarge n 2) \<and>
     2 < n \<and> n \<le> length [1, 2, 3 :: u8] \<and> n \<le> 2 + 8192)"
  using zlib_round_trip [OF stored.flate2_laws_axioms, of "[1, 2, 3]" 3]
    zlib_round_trip [OF stored.flate2_laws_axioms, of "[1, 2, 3]" 2] stored.flate2_laws_axioms
  by simp

end
