(* ===== verification/Frame.thy ===== *)
theory Frame
  imports Zlib_Payload
begin

text \<open>
  The wire format (\<^verbatim>\<open>src/frame.rs\<close>): the four frames, \<open>Frame::encode\<close>, \<open>Frame::decode\<close> and
  \<open>Frame::decode_with_limit\<close>.

  The definitions follow the source arm by arm. \<open>encode\<close> appends to the buffer it is given and may panic (with
  the feature \<^verbatim>\<open>compression\<close> off, on a compressed frame); \<open>decode_with_limit\<close> returns its result together
  with the buffer it leaves behind, also on errors, and is written with the buffer operations that panic on short
  input. The grammar of the format is \<open>parse_frame\<close>, a reference parser by pattern matching; the refinement
  lemma \<open>decode_with_limit_parse\<close> says that the decoder is that parser and never panics, and the facts on
  streams (prefixes, extensions, progress) are proved on the grammar.
\<close>

section \<open>Frames and constants\<close>

definition PROTOCOL_VERSION :: u8 where "PROTOCOL_VERSION = 50"
definition TYPE_WINDOW :: u8 where "TYPE_WINDOW = 87"
definition TYPE_JSON :: u8 where "TYPE_JSON = 74"
definition TYPE_COMPRESSED :: u8 where "TYPE_COMPRESSED = 67"
definition TYPE_ACK :: u8 where "TYPE_ACK = 65"

definition DEFAULT_MAX_FRAME_SIZE :: usize where
  "DEFAULT_MAX_FRAME_SIZE = 16 * 1024 * 1024"

lemmas frame_consts = PROTOCOL_VERSION_def TYPE_WINDOW_def TYPE_JSON_def TYPE_COMPRESSED_def TYPE_ACK_def

datatype frame = Window u32 | Json u32 bytes | Compressed bytes | Ack u32

section \<open>Encoding\<close>

fun encode :: "'d flate2 option \<Rightarrow> frame \<Rightarrow> bytes \<Rightarrow> bytes option" where
  "encode zl (Window n) dst =
     Some (put_u32 n (put_u8 TYPE_WINDOW (put_u8 PROTOCOL_VERSION dst)))"
| "encode zl (Json seq data) dst =
     Some (extend_from_slice data
       (put_u32 (word_of_nat (length data))
         (put_u32 seq (put_u8 TYPE_JSON (put_u8 PROTOCOL_VERSION dst)))))"
| "encode zl (Ack seq) dst =
     Some (put_u32 seq (put_u8 TYPE_ACK (put_u8 PROTOCOL_VERSION dst)))"
| "encode zl (Compressed inner) dst =
     (case zl of
        Some z \<Rightarrow>
          (let compressed = zlib_compress z inner in
           Some (extend_from_slice compressed
             (put_u32 (word_of_nat (length compressed))
               (put_u8 TYPE_COMPRESSED (put_u8 PROTOCOL_VERSION dst)))))
      | None \<Rightarrow> None)"

section \<open>Decoding\<close>

type_synonym decoded = "frame option result \<times> bytes"

definition decode_window :: "bytes \<Rightarrow> decoded option" where
  "decode_window src =
     (if length src < 2 + 4 then Some (Inr None, src)
      else do { src \<leftarrow> advance 2 src;
                (n, src) \<leftarrow> get_u32 src;
                Some (Inr (Some (Window n)), src) })"

definition decode_json :: "bytes \<Rightarrow> usize \<Rightarrow> decoded option" where
  "decode_json src max_frame_size =
     (if length src < 2 + 4 + 4 then Some (Inr None, src)
      else do { field \<leftarrow> subslice src 6 10;
                field \<leftarrow> try_into_array4 field;
                let len = unat (from_be_bytes field);
                if len > max_frame_size then Some (Inl (FrameTooLarge len max_frame_size), src)
                else if length src < 2 + 4 + 4 + len then Some (Inr None, src)
                else do { src \<leftarrow> advance 2 src;
                          (seq, src) \<leftarrow> get_u32 src;
                          (_, src) \<leftarrow> get_u32 src;
                          (data, src) \<leftarrow> split_to len src;
                          Some (Inr (Some (Json seq data)), src) } })"

definition decode_ack :: "bytes \<Rightarrow> decoded option" where
  "decode_ack src =
     (if length src < 2 + 4 then Some (Inr None, src)
      else do { src \<leftarrow> advance 2 src;
                (seq, src) \<leftarrow> get_u32 src;
                Some (Inr (Some (Ack seq)), src) })"

definition decode_compressed :: "'d flate2 option \<Rightarrow> bytes \<Rightarrow> usize \<Rightarrow> decoded option" where
  "decode_compressed zl src max_frame_size =
     (case zl of
        None \<Rightarrow> Some (Inl (InvalidFrame ''compression feature disabled''), src)
      | Some z \<Rightarrow>
          if length src < 2 + 4 then Some (Inr None, src)
          else do { field \<leftarrow> subslice src 2 6;
                    field \<leftarrow> try_into_array4 field;
                    let len = unat (from_be_bytes field);
                    if len > max_frame_size then Some (Inl (FrameTooLarge len max_frame_size), src)
                    else if length src < 2 + 4 + len then Some (Inr None, src)
                    else do { src \<leftarrow> advance (2 + 4) src;
                              (payload, src) \<leftarrow> split_to len src;
                              case zlib_decompress z payload max_frame_size of
                                Inl e \<Rightarrow> Some (Inl e, src)
                              | Inr inflated \<Rightarrow> Some (Inr (Some (Compressed inflated)), src) } })"

definition decode_with_limit :: "'d flate2 option \<Rightarrow> bytes \<Rightarrow> usize \<Rightarrow> decoded option" where
  "decode_with_limit zl src max_frame_size =
     (if length src < 2 then Some (Inr None, src)
      else do { version \<leftarrow> index src 0;
                if version \<noteq> PROTOCOL_VERSION
                then Some (Inl (InvalidFrame ''unsupported protocol version''), src)
                else do { ty \<leftarrow> index src 1;
                          if ty = TYPE_WINDOW then decode_window src
                          else if ty = TYPE_JSON then decode_json src max_frame_size
                          else if ty = TYPE_ACK then decode_ack src
                          else if ty = TYPE_COMPRESSED then decode_compressed zl src max_frame_size
                          else Some (Inl (InvalidFrame ''unknown frame type''), src) } })"

definition decode :: "'d flate2 option \<Rightarrow> bytes \<Rightarrow> decoded option" where
  "decode zl src = decode_with_limit zl src DEFAULT_MAX_FRAME_SIZE"

section \<open>The grammar\<close>

datatype parse = Incomplete | Parsed frame bytes | Malformed error bytes

fun parse_word :: "(u32 \<Rightarrow> frame) \<Rightarrow> bytes \<Rightarrow> parse" where
  "parse_word mk (a # b # c # d # rest) = Parsed (mk (from_be_bytes (a, b, c, d))) rest"
| "parse_word mk _ = Incomplete"

fun parse_json :: "usize \<Rightarrow> bytes \<Rightarrow> bytes \<Rightarrow> parse" where
  "parse_json limit src (s1 # s2 # s3 # s4 # a # b # c # d # rest) =
     (let len = unat (from_be_bytes (a, b, c, d)) in
      if len > limit then Malformed (FrameTooLarge len limit) src
      else if length rest < len then Incomplete
      else Parsed (Json (from_be_bytes (s1, s2, s3, s4)) (take len rest)) (drop len rest))"
| "parse_json limit src _ = Incomplete"

fun parse_compressed :: "'d flate2 \<Rightarrow> usize \<Rightarrow> bytes \<Rightarrow> bytes \<Rightarrow> parse" where
  "parse_compressed z limit src (a # b # c # d # rest) =
     (let len = unat (from_be_bytes (a, b, c, d)) in
      if len > limit then Malformed (FrameTooLarge len limit) src
      else if length rest < len then Incomplete
      else (case zlib_decompress z (take len rest) limit of
              Inl e \<Rightarrow> Malformed e (drop len rest)
            | Inr inflated \<Rightarrow> Parsed (Compressed inflated) (drop len rest)))"
| "parse_compressed z limit src _ = Incomplete"

fun parse_frame :: "'d flate2 option \<Rightarrow> usize \<Rightarrow> bytes \<Rightarrow> parse" where
  "parse_frame zl limit (v # t # body) =
     (let src = v # t # body in
      if v \<noteq> PROTOCOL_VERSION then Malformed (InvalidFrame ''unsupported protocol version'') src
      else if t = TYPE_WINDOW then parse_word Window body
      else if t = TYPE_ACK then parse_word Ack body
      else if t = TYPE_JSON then parse_json limit src body
      else if t = TYPE_COMPRESSED then
        (case zl of
           None \<Rightarrow> Malformed (InvalidFrame ''compression feature disabled'') src
         | Some z \<Rightarrow> parse_compressed z limit src body)
      else Malformed (InvalidFrame ''unknown frame type'') src)"
| "parse_frame zl limit _ = Incomplete"

fun parse_result :: "bytes \<Rightarrow> parse \<Rightarrow> decoded" where
  "parse_result src Incomplete = (Inr None, src)"
| "parse_result src (Parsed f rest) = (Inr (Some f), rest)"
| "parse_result src (Malformed e rest) = (Inl e, rest)"

lemma subslice_length_fields [simp]:
  "subslice (v # t # a # b # c # d # rest) 2 6 = Some [a, b, c, d]"
  "subslice (v # t # s1 # s2 # s3 # s4 # a # b # c # d # rest) 6 10 = Some [a, b, c, d]"
  by (simp_all add: subslice_def numeral_eq_Suc)

lemma parse_word_short [simp]: "length body < 4 \<Longrightarrow> parse_word mk body = Incomplete"
  by (cases "(mk, body)" rule: parse_word.cases) auto

lemma parse_compressed_short [simp]: "length body < 4 \<Longrightarrow> parse_compressed z limit src body = Incomplete"
  by (cases "(z, limit, src, body)" rule: parse_compressed.cases) auto

lemma parse_json_short [simp]: "length body < 8 \<Longrightarrow> parse_json limit src body = Incomplete"
  by (cases "(limit, src, body)" rule: parse_json.cases) auto

lemma decode_window_arm:
  "decode_window (v # t # body) = Some (parse_result (v # t # body) (parse_word Window body))"
  by (cases body rule: four_bytes_cases) (simp_all add: decode_window_def advance_def)

lemma decode_ack_arm:
  "decode_ack (v # t # body) = Some (parse_result (v # t # body) (parse_word Ack body))"
  by (cases body rule: four_bytes_cases) (simp_all add: decode_ack_def advance_def)

lemma decode_json_arm:
  "decode_json (v # t # body) limit =
     Some (parse_result (v # t # body) (parse_json limit (v # t # body) body))"
  by (cases body rule: eight_bytes_cases)
    (simp_all add: decode_json_def advance_def split_to_def Let_def del: from_be_bytes.simps)

lemma decode_compressed_disabled:
  "decode_compressed None src limit = Some (Inl (InvalidFrame ''compression feature disabled''), src)"
  by (simp add: decode_compressed_def)

lemma decode_compressed_arm:
  "decode_compressed (Some z) (v # t # body) limit =
     Some (parse_result (v # t # body) (parse_compressed z limit (v # t # body) body))"
  by (cases body rule: four_bytes_cases)
    (simp_all add: decode_compressed_def advance_def split_to_def Let_def del: from_be_bytes.simps
      split: sum.split)

lemma frame_consts_distinct [simp]:
  "TYPE_WINDOW \<noteq> TYPE_JSON" "TYPE_WINDOW \<noteq> TYPE_ACK" "TYPE_WINDOW \<noteq> TYPE_COMPRESSED"
  "TYPE_JSON \<noteq> TYPE_WINDOW" "TYPE_JSON \<noteq> TYPE_ACK" "TYPE_JSON \<noteq> TYPE_COMPRESSED"
  "TYPE_ACK \<noteq> TYPE_WINDOW" "TYPE_ACK \<noteq> TYPE_JSON" "TYPE_ACK \<noteq> TYPE_COMPRESSED"
  "TYPE_COMPRESSED \<noteq> TYPE_WINDOW" "TYPE_COMPRESSED \<noteq> TYPE_JSON" "TYPE_COMPRESSED \<noteq> TYPE_ACK"
  by (simp_all add: frame_consts)

lemma decode_with_limit_parse:
  "decode_with_limit zl src limit = Some (parse_result src (parse_frame zl limit src))"
proof (cases "(zl, limit, src)" rule: parse_frame.cases)
  case (1 zl' limit' v t body)
  then show ?thesis
    by (auto simp: decode_with_limit_def index_def decode_window_arm decode_ack_arm decode_json_arm
        decode_compressed_arm decode_compressed_disabled Let_def split: option.split)
qed (simp_all add: decode_with_limit_def)

text \<open>The source's own entry point is the decoder at the default limit.\<close>

lemma decode_parse:
  "decode zl src = Some (parse_result src (parse_frame zl DEFAULT_MAX_FRAME_SIZE src))"
  by (simp add: decode_def decode_with_limit_parse)

section \<open>Streams: progress, extension, prefixes\<close>

lemma parse_word_append:
  "parse_word mk body = Parsed f rest \<Longrightarrow> parse_word mk (body @ x) = Parsed f (rest @ x)"
  "parse_word mk body \<noteq> Malformed e rest"
  by (cases "(mk, body)" rule: parse_word.cases; simp)+

lemma parse_json_append:
  "parse_json limit src body = Parsed f rest \<Longrightarrow>
     parse_json limit (src @ x) (body @ x) = Parsed f (rest @ x)"
  "parse_json limit src body = Malformed e rest \<Longrightarrow>
     rest = src \<and> parse_json limit (src @ x) (body @ x) = Malformed e (src @ x)"
  by (cases "(limit, src, body)" rule: parse_json.cases; auto simp: Let_def split: if_splits)+

lemma parse_compressed_append:
  "parse_compressed z limit src body = Parsed f rest \<Longrightarrow>
     parse_compressed z limit (src @ x) (body @ x) = Parsed f (rest @ x)"
  "parse_compressed z limit src body = Malformed e rest \<Longrightarrow>
     parse_compressed z limit (src @ x) (body @ x) = Malformed e (rest @ x)"
  by (cases "(z, limit, src, body)" rule: parse_compressed.cases;
      auto simp: Let_def split: if_splits sum.splits)+

text \<open>
  What the decoder says about a buffer does not change when more bytes arrive: a frame stays that frame, with
  the new bytes left over, and an error stays that error.
\<close>

lemma parse_frame_append:
  "parse_frame zl limit src = Parsed f rest \<Longrightarrow> parse_frame zl limit (src @ x) = Parsed f (rest @ x)"
  "parse_frame zl limit src = Malformed e rest \<Longrightarrow> parse_frame zl limit (src @ x) = Malformed e (rest @ x)"
  by (cases "(zl, limit, src)" rule: parse_frame.cases;
      auto simp: Let_def parse_word_append split: if_splits option.splits
        dest: parse_json_append parse_compressed_append)+

lemma parse_word_consumes: "parse_word mk body = Parsed f rest \<Longrightarrow> \<exists>p. body = p @ rest \<and> 4 \<le> length p"
  by (cases "(mk, body)" rule: parse_word.cases) auto

lemma parse_json_consumes:
  "parse_json limit src body = Parsed f rest \<Longrightarrow> \<exists>p. body = p @ rest \<and> 4 \<le> length p"
proof (cases "(limit, src, body)" rule: parse_json.cases)
  case (1 limit' src' s1 s2 s3 s4 a b c d tl)
  assume "parse_json limit src body = Parsed f rest"
  with 1 have "rest = drop (unat (from_be_bytes (a, b, c, d))) tl"
    by (auto simp: Let_def split: if_splits)
  with 1 show ?thesis
    by (intro exI [of _ "[s1, s2, s3, s4, a, b, c, d] @ take (unat (from_be_bytes (a, b, c, d))) tl"]) simp
qed auto

lemma parse_compressed_consumes:
  assumes "parse_compressed z limit src body = r" and "r = Parsed f rest \<or> r = Malformed e rest \<and> rest \<noteq> src"
  shows "\<exists>p. body = p @ rest \<and> 4 \<le> length p"
proof (cases "(z, limit, src, body)" rule: parse_compressed.cases)
  case (1 z' limit' src' a b c d tl)
  with assms have "rest = drop (unat (from_be_bytes (a, b, c, d))) tl"
    by (auto simp: Let_def split: if_splits sum.splits)
  with 1 show ?thesis
    by (intro exI [of _ "[a, b, c, d] @ take (unat (from_be_bytes (a, b, c, d))) tl"]) simp
qed (use assms in auto)

lemma parse_frame_consumes:
  assumes "parse_frame zl limit src = Parsed f rest"
  shows "\<exists>p. src = p @ rest \<and> 6 \<le> length p"
proof (cases "(zl, limit, src)" rule: parse_frame.cases)
  case (1 zl' limit' v t body)
  with assms have "\<exists>p. body = p @ rest \<and> 4 \<le> length p"
    by (auto simp: Let_def split: if_splits option.splits
        intro: parse_word_consumes parse_json_consumes parse_compressed_consumes)
  with 1 show ?thesis by (auto intro: exI [of _ "v # t # _"])
qed (use assms in auto)

lemma parse_frame_shorter: "parse_frame zl limit src = Parsed f rest \<Longrightarrow> length rest + 6 \<le> length src"
  by (auto dest!: parse_frame_consumes)

section \<open>Encodings\<close>

text \<open>The bytes of a frame, as the protocol description has them: version, type, big-endian fields, payload.\<close>

fun wire :: "'d flate2 option \<Rightarrow> frame \<Rightarrow> bytes" where
  "wire zl (Window n) = [PROTOCOL_VERSION, TYPE_WINDOW] @ to_be_bytes n"
| "wire zl (Json seq data) =
     [PROTOCOL_VERSION, TYPE_JSON] @ to_be_bytes seq @ to_be_bytes (word_of_nat (length data)) @ data"
| "wire zl (Ack seq) = [PROTOCOL_VERSION, TYPE_ACK] @ to_be_bytes seq"
| "wire zl (Compressed inner) =
     (case zl of None \<Rightarrow> []
      | Some z \<Rightarrow> [PROTOCOL_VERSION, TYPE_COMPRESSED]
          @ to_be_bytes (word_of_nat (length (zlib_compress z inner))) @ zlib_compress z inner)"

fun encodable :: "'d flate2 option \<Rightarrow> frame \<Rightarrow> bool" where
  "encodable zl (Compressed _) = (zl \<noteq> None)"
| "encodable zl _ = True"

text \<open>
  A frame fits a limit when its length field does not wrap and the decoder's size checks let it
  through.
\<close>

fun fits :: "'d flate2 option \<Rightarrow> usize \<Rightarrow> frame \<Rightarrow> bool" where
  "fits zl limit (Json seq data) = (length data \<le> limit \<and> length data < 2 ^ 32)"
| "fits zl limit (Compressed inner) =
     (case zl of None \<Rightarrow> False
      | Some z \<Rightarrow> length inner \<le> limit \<and> length (zlib_compress z inner) \<le> limit
                  \<and> length (zlib_compress z inner) < 2 ^ 32)"
| "fits zl limit _ = True"

lemma encode_wire: "encode zl f dst = (if encodable zl f then Some (dst @ wire zl f) else None)"
  by (cases f) (auto simp: buffer_defs Let_def split: option.splits)

lemma fits_encodable: "fits zl limit f \<Longrightarrow> encodable zl f"
  by (cases f) (auto split: option.splits)

lemma parse_word_be [simp]: "parse_word mk (to_be_bytes n @ rest) = Parsed (mk n) rest"
  using to_be_bytes_Cons [of n] by (auto simp del: from_be_bytes.simps)

lemma unat_length_field: "unat (word_of_nat n :: u32) = n mod 2 ^ 32"
  by (simp add: unat_of_nat)

lemma parse_json_be:
  "parse_json limit src (to_be_bytes seq @ to_be_bytes n @ rest) =
     (if unat n > limit then Malformed (FrameTooLarge (unat n) limit) src
      else if length rest < unat n then Incomplete
      else Parsed (Json seq (take (unat n) rest)) (drop (unat n) rest))"
  using to_be_bytes_Cons [of seq] to_be_bytes_Cons [of n]
  by (auto simp: Let_def simp del: from_be_bytes.simps)

lemma parse_compressed_be:
  "parse_compressed z limit src (to_be_bytes n @ rest) =
     (if unat n > limit then Malformed (FrameTooLarge (unat n) limit) src
      else if length rest < unat n then Incomplete
      else (case zlib_decompress z (take (unat n) rest) limit of
              Inl e \<Rightarrow> Malformed e (drop (unat n) rest)
            | Inr inflated \<Rightarrow> Parsed (Compressed inflated) (drop (unat n) rest)))"
  using to_be_bytes_Cons [of n]
  by (auto simp: Let_def simp del: from_be_bytes.simps split: sum.split)

text \<open>
  An event of any size, decoded back: the length field wraps at \<open>2 ^ 32\<close>, so what comes back is the event up
  to its length modulo \<open>2 ^ 32\<close> and the remainder of the event stays in the stream.
\<close>

lemma parse_frame_wire_json:
  "parse_frame zl limit (wire zl (Json seq data) @ rest) =
     (let len = length data mod 2 ^ 32 in
      if len > limit then Malformed (FrameTooLarge len limit) (wire zl (Json seq data) @ rest)
      else Parsed (Json seq (take len data)) (drop len data @ rest))"
  by (simp add: Let_def parse_json_be unat_length_field
      order_trans [OF mod_less_eq_dividend le_add1] not_less)

text \<open>The cargo configurations: no compressor, or one that keeps the laws.\<close>

locale crate_build =
  fixes zl :: "'d flate2 option"
  assumes compressor_laws: "zl = Some z \<Longrightarrow> flate2_laws z"
begin

lemma payload_laws: "zl = Some z \<Longrightarrow> payload_codec (zlib_compress z) (zlib_decompress z)"
  by (rule flate2_laws.payload_contract) (rule compressor_laws)

lemma parse_frame_wire:
  assumes "fits zl limit f"
  shows "parse_frame zl limit (wire zl f @ rest) = Parsed f rest"
proof (cases f)
  case (Json seq data)
  with assms show ?thesis
    using parse_frame_wire_json [of zl limit seq data rest] by (simp add: Let_def)
next
  case (Compressed inner)
  with assms obtain z where z: "zl = Some z" by (auto split: option.splits)
  from payload_codec.decompress_compress [OF payload_laws [OF z], of inner limit] assms Compressed z
  show ?thesis
    by (simp add: parse_compressed_be unat_length_field)
qed simp_all

text \<open>No proper prefix of an encoding is taken for a frame or an error.\<close>

lemma parse_frame_prefix:
  assumes "fits zl limit f" and "wire zl f = p @ x" and "x \<noteq> []"
  shows "parse_frame zl limit p = Incomplete"
proof (cases "parse_frame zl limit p")
  case (Parsed f' rest)
  with parse_frame_append(1) [OF Parsed, of x] parse_frame_wire [OF assms(1), of "[]"] assms(2,3)
  show ?thesis by simp
next
  case (Malformed e rest)
  with parse_frame_append(2) [OF Malformed, of x] parse_frame_wire [OF assms(1), of "[]"] assms(2)
  show ?thesis by simp
qed

end

interpretation plain_build: crate_build "None :: 'd flate2 option"
  by (rule crate_build.intro) simp

interpretation stored_build: crate_build "Some stored_flate2"
  by (rule crate_build.intro) (auto intro: stored.flate2_laws_axioms)

text \<open>
  The other direction: what the decoder accepts is the encoding of what it returns (for a compressed frame, up to
  the choice of the compressed text), and its payloads obey the limit.
\<close>

lemma parse_word_wire: "parse_word mk body = Parsed f rest \<Longrightarrow> \<exists>n. f = mk n \<and> body = to_be_bytes n @ rest"
  by (cases "(mk, body)" rule: parse_word.cases)
    (auto intro!: exI [of _ "from_be_bytes _"] simp del: from_be_bytes.simps)

lemma parse_json_wire:
  assumes "parse_json limit src body = Parsed f rest"
  shows "\<exists>seq data. f = Json seq data \<and> length data \<le> limit \<and> length data < 2 ^ 32 \<and>
    body = to_be_bytes seq @ to_be_bytes (word_of_nat (length data)) @ data @ rest"
proof (cases "(limit, src, body)" rule: parse_json.cases)
  case (1 limit' src' s1 s2 s3 s4 a b c d tl)
  let ?len = "from_be_bytes (a, b, c, d)"
  from 1 assms have eqs: "f = Json (from_be_bytes (s1, s2, s3, s4)) (take (unat ?len) tl)"
      "rest = drop (unat ?len) tl" "unat ?len \<le> limit" "unat ?len \<le> length tl"
    by (auto simp: Let_def split: if_splits simp del: from_be_bytes.simps)
  then have "word_of_nat (length (take (unat ?len) tl)) = ?len"
    by (simp add: min_def)
  with 1 eqs show ?thesis
    using unsigned_less [of ?len, where ?'a = nat]
    by (auto simp: min_def simp del: from_be_bytes.simps)
qed (use assms in auto)

lemma parse_compressed_wire:
  assumes "parse_compressed z limit src body = Parsed f rest"
  shows "\<exists>inner payload. f = Compressed inner \<and> zlib_decompress z payload limit = Inr inner \<and>
    length payload \<le> limit \<and> body = to_be_bytes (word_of_nat (length payload)) @ payload @ rest"
proof (cases "(z, limit, src, body)" rule: parse_compressed.cases)
  case (1 z' limit' src' a b c d tl)
  let ?len = "from_be_bytes (a, b, c, d)"
  from 1 assms obtain inner where eqs: "f = Compressed inner" "rest = drop (unat ?len) tl"
      "zlib_decompress z (take (unat ?len) tl) limit = Inr inner"
      "unat ?len \<le> limit" "unat ?len \<le> length tl"
    by (auto simp: Let_def split: if_splits sum.splits simp del: from_be_bytes.simps)
  then have "word_of_nat (length (take (unat ?len) tl)) = ?len"
    by (simp add: min_def)
  with 1 eqs show ?thesis
    by (intro exI [of _ inner] exI [of _ "take (unat ?len) tl"])
      (simp add: min_def del: from_be_bytes.simps)
qed (use assms in auto)

text \<open>\<open>accepted_as zl limit f p\<close>: the bytes \<open>p\<close> are an encoding of \<open>f\<close> that the limit admits.\<close>

fun accepted_as :: "'d flate2 option \<Rightarrow> usize \<Rightarrow> frame \<Rightarrow> bytes \<Rightarrow> bool" where
  "accepted_as zl limit (Compressed inner) p =
     (\<exists>z payload. zl = Some z \<and> zlib_decompress z payload limit = Inr inner \<and> length payload \<le> limit \<and>
        p = [PROTOCOL_VERSION, TYPE_COMPRESSED] @ to_be_bytes (word_of_nat (length payload)) @ payload)"
| "accepted_as zl limit f p = (fits zl limit f \<and> p = wire zl f)"

lemma parse_frame_accepted:
  assumes "parse_frame zl limit src = Parsed f rest"
  shows "\<exists>p. src = p @ rest \<and> accepted_as zl limit f p"
proof (cases "(zl, limit, src)" rule: parse_frame.cases)
  case (1 zl' limit' v t body)
  then consider "v = PROTOCOL_VERSION" "t = TYPE_WINDOW" "parse_word Window body = Parsed f rest"
    | "v = PROTOCOL_VERSION" "t = TYPE_ACK" "parse_word Ack body = Parsed f rest"
    | "v = PROTOCOL_VERSION" "t = TYPE_JSON" "parse_json limit src body = Parsed f rest"
    | z where "v = PROTOCOL_VERSION" "t = TYPE_COMPRESSED" "zl = Some z"
        "parse_compressed z limit src body = Parsed f rest"
    using assms by (auto simp: Let_def split: if_splits option.splits)
  then show ?thesis
  proof cases
    case 1 with \<open>(zl, limit, src) = _\<close> show ?thesis by (auto dest!: parse_word_wire)
  next
    case 2 with \<open>(zl, limit, src) = _\<close> show ?thesis by (auto dest!: parse_word_wire)
  next
    case 3 with \<open>(zl, limit, src) = _\<close> show ?thesis by (auto dest!: parse_json_wire)
  next
    case (4 z)
    from parse_compressed_wire [OF 4(4)] obtain inner payload where
      "f = Compressed inner" "zlib_decompress z payload limit = Inr inner" "length payload \<le> limit"
      "body = to_be_bytes (word_of_nat (length payload)) @ payload @ rest" by blast
    with 4 \<open>(zl, limit, src) = _\<close> show ?thesis by auto
  qed
qed (use assms in auto)

section \<open>Runs of event frames\<close>

text \<open>The crate built without its \<open>compression\<close> feature.\<close>

abbreviation no_zlib :: "unit flate2 option" where
  "no_zlib \<equiv> None"

text \<open>The events of a batch with their sequence numbers, as frames and as bytes.\<close>

type_synonym event = "u32 \<times> bytes"

definition json_frames :: "event list \<Rightarrow> frame list" where
  "json_frames js = map (\<lambda>(seq, data). Json seq data) js"

definition json_wire :: "event list \<Rightarrow> bytes" where
  "json_wire js = concat (map (\<lambda>(seq, data). wire (None :: unit flate2 option) (Json seq data)) js)"

lemma json_wire_Nil [simp]: "json_wire [] = []"
  by (simp add: json_wire_def)

lemma json_wire_Cons: "json_wire ((seq, data) # js) = wire (zl :: 'd flate2 option) (Json seq data) @ json_wire js"
  by (simp add: json_wire_def)

definition events_fit :: "usize \<Rightarrow> event list \<Rightarrow> bool" where
  "events_fit limit js \<longleftrightarrow> (\<forall>(seq, data) \<in> set js. length data \<le> limit \<and> length data < 2 ^ 32)"

lemma events_fit_simps [simp]:
  "events_fit limit []"
  "events_fit limit ((seq, data) # js) \<longleftrightarrow> length data \<le> limit \<and> length data < 2 ^ 32 \<and> events_fit limit js"
  by (auto simp: events_fit_def)

lemma json_wire_append [simp]: "json_wire (js @ js') = json_wire js @ json_wire js'"
  by (simp add: json_wire_def)

lemma json_frames_append [simp]: "json_frames (js @ js') = json_frames js @ json_frames js'"
  by (simp add: json_frames_def)

lemma wire_json_frames: "concat (map (wire zl) (json_frames js)) = json_wire js"
  by (simp add: json_frames_def json_wire_def comp_def case_prod_unfold)

lemma parse_frame_json_wire:
  "length data \<le> limit \<Longrightarrow> length data < 2 ^ 32 \<Longrightarrow>
   parse_frame zl limit (json_wire ((seq, data) # js) @ rest) = Parsed (Json seq data) (json_wire js @ rest)"
  using parse_frame_wire_json [of zl limit seq data "json_wire js @ rest"]
  by (simp add: json_wire_Cons [of seq data js zl] Let_def del: wire.simps)

section \<open>Properties\<close>

text \<open>C11. The decoder is the grammar: on every buffer and limit it answers what the reference parser says, leaves the
  buffer the parser says, and never panics.\<close>

theorem decode_refines_grammar:
  "decode_with_limit zl src limit = Some (parse_result src (parse_frame zl limit src))"
  by (rule decode_with_limit_parse)

text \<open>C12. Encode, then decode: a frame that fits the limit is appended to the output buffer and read back
  as itself, consuming exactly its own bytes.\<close>

theorem frame_round_trip:
  assumes "crate_build zl" and "fits zl limit f"
  shows "\<exists>buf. encode zl f dst = Some (dst @ buf) \<and>
    decode_with_limit zl (buf @ rest) limit = Some (Inr (Some f), rest)"
  using crate_build.parse_frame_wire [OF assms, of rest] fits_encodable [OF assms(2)]
  by (simp add: encode_wire decode_with_limit_parse)

theorem frame_round_trip_witness:
  "crate_build (Some stored_flate2) \<and> fits (Some stored_flate2) 64 (Compressed [7, 8, 9]) \<and>
   (\<exists>buf. encode (Some stored_flate2) (Compressed [7, 8, 9]) [1] = Some ([1] @ buf) \<and>
     decode_with_limit (Some stored_flate2) (buf @ [50]) 64 = Some (Inr (Some (Compressed [7, 8, 9])), [50]))"
proof -
  have "fits (Some stored_flate2) 64 (Compressed [7, 8, 9])"
    by (simp add: zlib_compress_def stored_flate2_def)
  with frame_round_trip [OF stored_build.crate_build_axioms this, of "[1]" "[50]"]
  show ?thesis using stored_build.crate_build_axioms by simp
qed

text \<open>The length field of an event is 32 bits wide: for an event of any length, decoding its encoding gives the
  event cut to its length modulo \<open>2 ^ 32\<close> and leaves the cut-off part in the stream, or reports that reduced
  length as too large.\<close>

theorem json_length_wraps:
  "\<exists>buf. encode zl (Json seq data) [] = Some buf \<and>
    decode_with_limit zl buf limit =
      (let len = length data mod 2 ^ 32 in
       if len > limit then Some (Inl (FrameTooLarge len limit), buf)
       else Some (Inr (Some (Json seq (take len data))), drop len data))"
  using parse_frame_wire_json [of zl limit seq data "[]"]
  by (simp add: encode_wire decode_with_limit_parse Let_def del: wire.simps)

text \<open>C26. Partial frames: on every proper prefix of the encoding of a frame the decoder asks for more and consumes
  nothing.\<close>

theorem decode_prefix_incomplete:
  assumes "crate_build zl" and "fits zl limit f" and "encode zl f [] = Some (p @ x)" and "x \<noteq> []"
  shows "decode_with_limit zl p limit = Some (Inr None, p)"
  using crate_build.parse_frame_prefix [OF assms(1,2) _ assms(4), of p] fits_encodable [OF assms(2)] assms(3)
  by (simp add: encode_wire decode_with_limit_parse)

theorem decode_prefix_incomplete_witness:
  "crate_build (None :: unit flate2 option) \<and> fits (None :: unit flate2 option) 16 (Json 1 [97, 98, 99]) \<and>
   encode (None :: unit flate2 option) (Json 1 [97, 98, 99]) [] = Some ([50, 74, 0, 0, 0, 1, 0, 0, 0, 3, 97] @ [98, 99]) \<and>
   decode_with_limit (None :: unit flate2 option) [50, 74, 0, 0, 0, 1, 0, 0, 0, 3, 97] 16
     = Some (Inr None, [50, 74, 0, 0, 0, 1, 0, 0, 0, 3, 97])"
proof -
  have build: "crate_build (None :: unit flate2 option)" by (rule plain_build.crate_build_axioms)
  have fit: "fits (None :: unit flate2 option) 16 (Json 1 [97, 98, 99])" by simp
  have enc: "encode (None :: unit flate2 option) (Json 1 [97, 98, 99]) []
      = Some ([50, 74, 0, 0, 0, 1, 0, 0, 0, 3, 97] @ [98, 99])"
    by (simp add: buffer_defs to_be_bytes_def frame_consts)
  show ?thesis using build fit enc decode_prefix_incomplete [OF build fit enc] by simp
qed

text \<open>C27. What the decoder accepts is an encoding of what it returns: the consumed bytes are at least six, the rest is
  untouched, window, event and acknowledgement frames have exactly one accepted spelling, and payloads obey the
  limit.\<close>

theorem decode_accepts_only_encodings:
  assumes "decode_with_limit zl src limit = Some (Inr (Some f), rest)"
  shows "\<exists>p. src = p @ rest \<and> 6 \<le> length p \<and> accepted_as zl limit f p"
proof -
  from assms have parsed: "parse_frame zl limit src = Parsed f rest"
    by (cases "parse_frame zl limit src") (auto simp: decode_with_limit_parse)
  from parse_frame_accepted [OF parsed] parse_frame_shorter [OF parsed] show ?thesis by auto
qed

theorem decode_accepts_only_encodings_witness:
  "decode_with_limit (None :: unit flate2 option) [50, 87, 0, 0, 0, 42, 50] 8 = Some (Inr (Some (Window 42)), [50]) \<and>
   (\<exists>p. [50, 87, 0, 0, 0, 42, 50] = p @ [50] \<and> 6 \<le> length p \<and>
     accepted_as (None :: unit flate2 option) 8 (Window 42) p)"
proof -
  have "decode_with_limit (None :: unit flate2 option) [50, 87, 0, 0, 0, 42, 50] 8
      = Some (Inr (Some (Window 42)), [50])"
    by (simp add: decode_with_limit_parse frame_consts)
  with decode_accepts_only_encodings [OF this] show ?thesis by blast
qed

text \<open>A decision is final: once the decoder has produced a frame or an error, more bytes behind the buffer do not
  change it and are left for the next call.\<close>

theorem decode_decision_final:
  assumes "decode_with_limit zl src limit = Some (r, rest)" and "r \<noteq> Inr None"
  shows "decode_with_limit zl (src @ x) limit = Some (r, rest @ x)"
  using assms parse_frame_append [of zl limit src _ rest x]
  by (cases "parse_frame zl limit src") (auto simp: decode_with_limit_parse)

theorem decode_decision_final_witness:
  "decode_with_limit (None :: unit flate2 option) [50, 88] 8 = Some (Inl (InvalidFrame ''unknown frame type''), [50, 88]) \<and>
   decode_with_limit (None :: unit flate2 option) ([50, 88] @ [1, 2]) 8
     = Some (Inl (InvalidFrame ''unknown frame type''), [50, 88] @ [1, 2])"
proof -
  have "decode_with_limit (None :: unit flate2 option) [50, 88] 8
      = Some (Inl (InvalidFrame ''unknown frame type''), [50, 88])"
    by (simp add: decode_with_limit_parse frame_consts)
  with decode_decision_final [OF this, of "[1, 2]"] show ?thesis by simp
qed

end
