(* ===== verification/Codec.thy ===== *)
theory Codec
  imports Frame
begin

text \<open>
  The codec (\<^verbatim>\<open>src/codec.rs\<close>): \<open>LumberjackCodec\<close> with its constructors, \<open>Decoder::decode\<close> and
  \<open>Encoder::encode\<close>, and what a byte stream means to it.

  \<open>tokio_util::codec::Framed\<close>, which drives the codec, is not part of the repository. What the crate
  relies on is its documented use of a decoder: it appends what it reads to one buffer, calls \<open>decode\<close> on
  that buffer, yields a frame or an error, reads on after \<open>Ok(None)\<close>, and at the end of the input yields nothing
  if the buffer is empty and an error (the parameter \<open>trunc\<close>) if it is not. \<open>framed_read\<close> states exactly
  that, leaving open how the bytes are split into reads and when a read happens. The locale \<open>decoder\<close> is the
  contract under which the result does not depend on either; \<open>framing\<close> adds an encoder. Both are interpreted on
  the codec of the source.
\<close>

section \<open>The codec\<close>

record codec =
  max_frame_size :: usize

definition codec_default :: codec where
  "codec_default = \<lparr>max_frame_size = DEFAULT_MAX_FRAME_SIZE\<rparr>"

definition codec_new :: codec where
  "codec_new = codec_default"

definition with_max_frame_size :: "usize \<Rightarrow> codec" where
  "with_max_frame_size n = \<lparr>max_frame_size = n\<rparr>"

definition codec_decode :: "'d flate2 option \<Rightarrow> codec \<Rightarrow> bytes \<Rightarrow> decoded option" where
  "codec_decode zl self src = decode_with_limit zl src (max_frame_size self)"

definition codec_encode :: "'d flate2 option \<Rightarrow> codec \<Rightarrow> frame \<Rightarrow> bytes \<Rightarrow> (unit result \<times> bytes) option" where
  "codec_encode zl self item dst = do { dst \<leftarrow> encode zl item dst; Some (Inr (), dst) }"

text \<open>A sink fed with several frames encodes them one after the other into its buffer.\<close>

fun encode_all :: "'d flate2 option \<Rightarrow> codec \<Rightarrow> frame list \<Rightarrow> bytes \<Rightarrow> bytes option" where
  "encode_all zl c [] dst = Some dst"
| "encode_all zl c (f # fs) dst = do { (_, dst) \<leftarrow> codec_encode zl c f dst; encode_all zl c fs dst }"

lemma codec_decode_parse:
  "codec_decode zl c src = Some (parse_result src (parse_frame zl (max_frame_size c) src))"
  by (simp add: codec_decode_def decode_with_limit_parse)

lemma codec_encode_wire:
  "codec_encode zl c f dst = (if encodable zl f then Some (Inr (), dst @ wire zl f) else None)"
  by (simp add: codec_encode_def encode_wire)

lemma encode_all_wire:
  "\<forall>f \<in> set fs. encodable zl f \<Longrightarrow> encode_all zl c fs dst = Some (dst @ concat (map (wire zl) fs))"
  by (induction fs arbitrary: dst) (simp_all add: codec_encode_wire)

section \<open>Reading a stream\<close>

inductive framed_read ::
    "(bytes \<Rightarrow> ('f option result \<times> bytes) option) \<Rightarrow> error \<Rightarrow> bytes \<Rightarrow> bytes list \<Rightarrow> 'f result list \<Rightarrow> bool"
  for dec trunc where
  fill: "framed_read dec trunc (buf @ c) cs items \<Longrightarrow> framed_read dec trunc buf (c # cs) items"
| frame: "dec buf = Some (Inr (Some f), buf') \<Longrightarrow> framed_read dec trunc buf' cs items \<Longrightarrow>
    framed_read dec trunc buf cs (Inr f # items)"
| fail: "dec buf = Some (Inl e, buf') \<Longrightarrow> framed_read dec trunc buf cs [Inl e]"
| eof: "dec [] = Some (Inr None, buf') \<Longrightarrow> framed_read dec trunc [] [] []"
| truncated: "dec buf = Some (Inr None, buf') \<Longrightarrow> buf \<noteq> [] \<Longrightarrow> framed_read dec trunc buf [] [Inl trunc]"

inductive_simps framed_read_whole_iff: "framed_read dec trunc buf [] items"

text \<open>With no reads outstanding the next item is the decoder's answer.\<close>

lemma framed_read_frame_iff:
  "dec src = Some (Inr (Some f), src') \<Longrightarrow>
   framed_read dec trunc src [] items \<longleftrightarrow> (\<exists>tl. items = Inr f # tl \<and> framed_read dec trunc src' [] tl)"
  by (subst framed_read_whole_iff) auto

lemma framed_read_none_iff:
  "dec src = Some (Inr None, src') \<Longrightarrow>
   framed_read dec trunc src [] items \<longleftrightarrow> items = (if src = [] then [] else [Inl trunc])"
  by (subst framed_read_whole_iff) auto

lemma framed_read_error_iff:
  "dec src = Some (Inl e, src') \<Longrightarrow> framed_read dec trunc src [] items \<longleftrightarrow> items = [Inl e]"
  by (subst framed_read_whole_iff) auto

lemmas framed_read_iffs = framed_read_frame_iff framed_read_none_iff framed_read_error_iff

locale decoder =
  fixes dec :: "bytes \<Rightarrow> ('f option result \<times> bytes) option"
  assumes no_panic: "\<exists>r src'. dec src = Some (r, src')"
    and none_keeps: "dec src = Some (Inr None, src') \<Longrightarrow> src' = src"
    and frame_append: "dec src = Some (Inr (Some f), src') \<Longrightarrow> dec (src @ x) = Some (Inr (Some f), src' @ x)"
    and error_append: "dec src = Some (Inl e, src') \<Longrightarrow> dec (src @ x) = Some (Inl e, src' @ x)"
    and frame_shrinks: "dec src = Some (Inr (Some f), src') \<Longrightarrow> length src' < length src"
begin

lemma decode_cases:
  obtains (frame) f src' where "dec src = Some (Inr (Some f), src')"
  | (none) "dec src = Some (Inr None, src)"
  | (error) e src' where "dec src = Some (Inl e, src')"
proof -
  obtain r src' where dec: "dec src = Some (r, src')" using no_panic by blast
  show thesis
  proof (cases r)
    case (Inl e)
    with dec show thesis by (simp add: error)
  next
    case (Inr fo)
    with dec none_keeps show thesis by (cases fo) (auto intro: frame none)
  qed
qed

text \<open>However the input is cut into reads, the items are those of the whole input in one buffer.\<close>

lemma framed_read_concat:
  "framed_read dec trunc buf cs items \<Longrightarrow> framed_read dec trunc (buf @ concat cs) [] items"
proof (induction rule: framed_read.induct)
  case (frame buf f buf' cs items)
  then show ?case by (auto intro: framed_read.frame frame_append)
next
  case (fail buf e buf' cs)
  then show ?case by (auto intro: framed_read.fail error_append)
qed (auto intro: framed_read.intros)

lemma framed_read_whole_unique:
  "framed_read dec trunc src [] items \<Longrightarrow> framed_read dec trunc src [] items' \<Longrightarrow> items' = items"
proof (induction "length src" arbitrary: src items items' rule: less_induct)
  case less
  show ?case
  proof (cases src rule: decode_cases)
    case (frame f src')
    with less.prems obtain tl tl' where
      "items = Inr f # tl" "items' = Inr f # tl'"
      "framed_read dec trunc src' [] tl" "framed_read dec trunc src' [] tl'"
      by (auto simp: framed_read_iffs)
    with less.hyps [of src' tl tl'] frame_shrinks [OF frame] show ?thesis by simp
  qed (use less.prems in \<open>auto simp: framed_read_iffs\<close>)
qed

lemma framed_read_chunking:
  assumes "framed_read dec trunc buf cs items" and "framed_read dec trunc buf' cs' items'"
    and "buf @ concat cs = buf' @ concat cs'"
  shows "items = items'"
  using framed_read_concat [OF assms(1)] framed_read_concat [OF assms(2)] assms(3)
    framed_read_whole_unique by metis

lemma framed_read_exists_whole: "\<exists>items. framed_read dec trunc src [] items"
proof (induction "length src" arbitrary: src rule: less_induct)
  case less
  show ?case
  proof (cases src rule: decode_cases)
    case (frame f src')
    with less.hyps [of src'] frame_shrinks [OF frame] show ?thesis
      by (auto intro: framed_read.frame)
  next
    case none
    then show ?thesis by (cases "src = []") (auto intro: framed_read.intros)
  qed (auto intro: framed_read.fail)
qed

lemma framed_read_exists: "\<exists>items. framed_read dec trunc buf cs items"
proof (induction cs arbitrary: buf)
  case Nil
  show ?case by (rule framed_read_exists_whole)
next
  case (Cons c cs)
  from Cons [of "buf @ c"] show ?case by (auto intro: framed_read.fill)
qed

end

locale framing = decoder dec for dec :: "bytes \<Rightarrow> ('f option result \<times> bytes) option" +
  fixes enc :: "'f \<Rightarrow> bytes" and ok :: "'f \<Rightarrow> bool"
  assumes dec_enc: "ok f \<Longrightarrow> dec (enc f @ rest) = Some (Inr (Some f), rest)"
begin

lemma framed_read_encoded_prefix:
  "framed_read dec trunc rest [] items \<Longrightarrow> \<forall>f \<in> set fs. ok f \<Longrightarrow>
   framed_read dec trunc (concat (map enc fs) @ rest) [] (map Inr fs @ items)"
proof (induction fs)
  case (Cons f fs)
  then have "dec (concat (map enc (f # fs)) @ rest) = Some (Inr (Some f), concat (map enc fs) @ rest)"
    by (simp add: dec_enc)
  then show ?case using Cons by (auto intro: framed_read.frame)
qed simp

lemma framed_read_encoded:
  assumes "framed_read dec trunc buf cs items" and "\<forall>f \<in> set fs. ok f"
    and "buf @ concat cs = concat (map enc fs) @ rest"
  shows "\<exists>items'. items = map Inr fs @ items' \<and> framed_read dec trunc rest [] items'"
proof -
  obtain items' where rest: "framed_read dec trunc rest [] items'"
    using framed_read_exists_whole by blast
  have "items = map Inr fs @ items'"
    using framed_read_chunking [OF assms(1) framed_read_encoded_prefix [OF rest assms(2)]] assms(3)
    by simp
  with rest show ?thesis by blast
qed

lemma framed_read_encoded_all:
  assumes "framed_read dec trunc buf cs items" and "\<forall>f \<in> set fs. ok f"
    and "buf @ concat cs = concat (map enc fs)" and "dec [] = Some (Inr None, [])"
  shows "items = map Inr fs"
proof -
  from framed_read_encoded [OF assms(1,2), of "[]"] assms(3)
  obtain items' where items: "items = map Inr fs @ items'" "framed_read dec trunc [] [] items'"
    by auto
  from items(2) assms(4) have "items' = []"
    by (simp add: framed_read_iffs)
  with items(1) show ?thesis by simp
qed

end

interpretation codec: decoder "codec_decode zl c" for zl c
proof unfold_locales
  fix src src' x f e
  show "\<exists>r src'. codec_decode zl c src = Some (r, src')"
    by (cases "parse_frame zl (max_frame_size c) src") (auto simp: codec_decode_parse)
  show "src' = src" if "codec_decode zl c src = Some (Inr None, src')"
    using that by (cases "parse_frame zl (max_frame_size c) src") (auto simp: codec_decode_parse)
  show "codec_decode zl c (src @ x) = Some (Inr (Some f), src' @ x)"
    if "codec_decode zl c src = Some (Inr (Some f), src')"
    using that parse_frame_append(1) [of zl "max_frame_size c" src f src' x]
    by (cases "parse_frame zl (max_frame_size c) src") (auto simp: codec_decode_parse)
  show "codec_decode zl c (src @ x) = Some (Inl e, src' @ x)"
    if "codec_decode zl c src = Some (Inl e, src')"
    using that parse_frame_append(2) [of zl "max_frame_size c" src e src' x]
    by (cases "parse_frame zl (max_frame_size c) src") (auto simp: codec_decode_parse)
  show "length src' < length src" if "codec_decode zl c src = Some (Inr (Some f), src')"
    using that parse_frame_shorter [of zl "max_frame_size c" src f src']
    by (cases "parse_frame zl (max_frame_size c) src") (auto simp: codec_decode_parse)
qed

sublocale crate_build \<subseteq> codec_framing: framing "codec_decode zl c" "wire zl" "fits zl (max_frame_size c)" for c
  by unfold_locales (simp add: codec_decode_parse parse_frame_wire)

context crate_build
begin

lemma codec_contract: "framing (codec_decode zl c) (wire zl) (fits zl (max_frame_size c))"
  by (rule codec_framing.framing_axioms)

end

section \<open>Properties\<close>

text \<open>C25. Reading is independent of how the network cuts the stream: for a given sequence of bytes there is one list
  of frames and errors, and it is what every way of splitting the bytes into a buffered part and reads delivers.\<close>

theorem framed_items_chunking:
  "\<exists>items. \<forall>buf cs. buf @ concat cs = src \<longrightarrow>
     (\<forall>items'. framed_read (codec_decode zl c) trunc buf cs items' \<longleftrightarrow> items' = items)"
proof -
  obtain items where items: "framed_read (codec_decode zl c) trunc src [] items"
    using codec.framed_read_exists_whole by blast
  have "items' = items" if "buf @ concat cs = src" "framed_read (codec_decode zl c) trunc buf cs items'"
    for buf cs items'
    using codec.framed_read_chunking [OF that(2) items] that(1) by simp
  then show ?thesis using codec.framed_read_exists by metis
qed

theorem framed_items_chunking_witness:
  "\<exists>items. framed_read (codec_decode (None :: unit flate2 option) codec_new) AckTimeout [50] [[87, 0], [0, 0, 9]] items \<and>
    framed_read (codec_decode (None :: unit flate2 option) codec_new) AckTimeout [50, 87, 0, 0, 0, 9] [] items"
proof -
  from framed_items_chunking [of "[50, 87, 0, 0, 0, 9]" "None :: unit flate2 option" codec_new AckTimeout]
  obtain items where
    "\<And>buf cs items'. buf @ concat cs = [50, 87, 0, 0, 0, 9] \<Longrightarrow>
      framed_read (codec_decode (None :: unit flate2 option) codec_new) AckTimeout buf cs items' \<longleftrightarrow> items' = items"
    by blast
  from this [of "[50]" "[[87, 0], [0, 0, 9]]" items] this [of "[50, 87, 0, 0, 0, 9]" "[]" items]
  show ?thesis by auto
qed

text \<open>C13. A whole conversation in one direction: frames that fit are written one after the other by the codec's encoder,
  cut into reads in any way, and read back by the codec's decoder as exactly those frames, with a clean end.\<close>

theorem framed_conversation:
  assumes "crate_build zl" and "\<forall>f \<in> set fs. fits zl (max_frame_size c) f"
    and "encode_all zl c fs [] = Some (concat cs)"
    and "framed_read (codec_decode zl c) trunc [] cs items"
  shows "items = map Inr fs"
proof -
  have "\<forall>f \<in> set fs. encodable zl f" using assms(2) fits_encodable by blast
  then have "concat cs = concat (map (wire zl) fs)"
    using assms(3) by (simp add: encode_all_wire)
  then show ?thesis
    using framing.framed_read_encoded_all [OF crate_build.codec_contract [OF assms(1)] assms(4,2)]
    by (simp add: codec_decode_parse)
qed

theorem framed_conversation_witness:
  "crate_build (None :: unit flate2 option) \<and>
   encode_all (None :: unit flate2 option) codec_new [Window 1, Ack 2] []
     = Some (concat [[50, 87, 0, 0], [0, 1, 50, 65, 0], [0, 0, 2]]) \<and>
   (\<exists>items. framed_read (codec_decode (None :: unit flate2 option) codec_new) AckTimeout []
       [[50, 87, 0, 0], [0, 1, 50, 65, 0], [0, 0, 2]] items \<and> items = map Inr [Window 1, Ack 2])"
proof -
  let ?zl = "None :: unit flate2 option"
  let ?cs = "[[50, 87, 0, 0], [0, 1, 50, 65, 0], [0, 0, 2]] :: bytes list"
  have build: "crate_build ?zl" by (rule plain_build.crate_build_axioms)
  have enc: "encode_all ?zl codec_new [Window 1, Ack 2] [] = Some (concat ?cs)"
    by (simp add: codec_encode_def buffer_defs to_be_bytes_def frame_consts)
  obtain items where read: "framed_read (codec_decode ?zl codec_new) AckTimeout [] ?cs items"
    using codec.framed_read_exists by blast
  have "items = map Inr [Window 1, Ack 2]"
    by (rule framed_conversation [OF build _ enc read]) simp
  with build enc read show ?thesis by blast
qed

end
