(* ===== verification/Batch.thy ===== *)
theory Batch
  imports Lumberjack_Error
begin

text \<open>
  A received batch (\<open>Batch\<close> in \<^verbatim>\<open>src/server.rs\<close>) and the one-shot channel that carries its
  acknowledgement.

  A oneshot channel of \<^verbatim>\<open>tokio\<close> is one cell with four states; channels are numbered, \<open>oneshots\<close> gives the state
  of each, and a sender is the number of its channel. The operations of \<open>Batch\<close> that take \<open>self\<close> by value return
  the channels after the value has gone out of scope, that is after its \<open>Drop::drop\<close> has run.
\<close>

datatype oneshot = Pending | Sent u32 | SenderGone | ReceiverGone

type_synonym oneshots = "nat \<Rightarrow> oneshot"

definition oneshot_send :: "nat \<Rightarrow> u32 \<Rightarrow> oneshots \<Rightarrow> oneshots" where
  "oneshot_send tx v ch = (if ch tx = Pending then ch(tx := Sent v) else ch)"

record batch =
  events :: "bytes list"
  last_seq :: u32
  ack :: "nat option"

definition batch_new :: "bytes list \<Rightarrow> u32 \<Rightarrow> nat \<Rightarrow> batch" where
  "batch_new evs seq tx = \<lparr>events = evs, last_seq = seq, ack = Some tx\<rparr>"

definition batch_drop :: "batch \<Rightarrow> oneshots \<Rightarrow> batch \<times> oneshots" where
  "batch_drop self ch =
     (case ack self of
        Some tx \<Rightarrow> (self\<lparr>ack := None\<rparr>, oneshot_send tx (last_seq self) ch)
      | None \<Rightarrow> (self, ch))"

definition batch_ack :: "batch \<Rightarrow> oneshots \<Rightarrow> oneshots" where
  "batch_ack self ch =
     (let (self, ch) =
        (case ack self of
           Some tx \<Rightarrow> (self\<lparr>ack := None\<rparr>, oneshot_send tx (last_seq self) ch)
         | None \<Rightarrow> (self, ch))
      in snd (batch_drop self ch))"

definition batch_into_events :: "batch \<Rightarrow> oneshots \<Rightarrow> bytes list \<times> oneshots" where
  "batch_into_events self ch = (events self, snd (batch_drop (self\<lparr>events := []\<rparr>) ch))"

definition batch_events :: "batch \<Rightarrow> bytes list" where
  "batch_events self = events self"

definition batch_len :: "batch \<Rightarrow> usize" where
  "batch_len self = length (events self)"

definition batch_is_empty :: "batch \<Rightarrow> bool" where
  "batch_is_empty self = (events self = [])"

section \<open>One acknowledgement, however the batch ends\<close>

text \<open>
  The contract the connection relies on: a way to give a batch up resolves its channel to the batch's last sequence
  number, touches no other channel, and changes nothing when the receiver has gone.
\<close>

locale batch_release =
  fixes release :: "batch \<Rightarrow> oneshots \<Rightarrow> oneshots"
  assumes resolves: "ack b = Some tx \<Longrightarrow> ch tx = Pending \<Longrightarrow> release b ch = ch(tx := Sent (last_seq b))"
    and resolved_keeps: "ack b = Some tx \<Longrightarrow> ch tx \<noteq> Pending \<Longrightarrow> release b ch = ch"
    and no_sender_keeps: "ack b = None \<Longrightarrow> release b ch = ch"
begin

lemma release_other: "ack b \<noteq> Some tx \<Longrightarrow> release b ch tx = ch tx"
  by (cases "ack b"; cases "ch (the (ack b)) = Pending") (auto simp: resolves resolved_keeps no_sender_keeps)

lemma release_idem: "release b (release b ch) = release b ch"
  by (cases "ack b"; cases "ch (the (ack b)) = Pending") (auto simp: resolves resolved_keeps no_sender_keeps)

lemma release_never_sender_gone: "release b ch tx = SenderGone \<Longrightarrow> ch tx = SenderGone"
  by (cases "ack b = Some tx"; cases "ch tx = Pending") (auto simp: resolves resolved_keeps release_other)

end

interpretation drop_release: batch_release "\<lambda>b ch. snd (batch_drop b ch)"
  by unfold_locales (auto simp: batch_drop_def oneshot_send_def)

interpretation ack_release: batch_release batch_ack
  by unfold_locales (auto simp: batch_ack_def batch_drop_def oneshot_send_def)

interpretation into_events_release: batch_release "\<lambda>b ch. snd (batch_into_events b ch)"
  by unfold_locales (auto simp: batch_into_events_def batch_drop_def oneshot_send_def)

lemma releases_agree:
  "batch_ack b ch = snd (batch_drop b ch)"
  "snd (batch_into_events b ch) = snd (batch_drop b ch)"
  by (auto simp: batch_ack_def batch_into_events_def batch_drop_def split: option.split)


section \<open>Properties\<close>

text \<open>A batch is acknowledged once, however the application gives it up: \<open>ack\<close>, \<open>into_events\<close> and a plain drop all send
  the last sequence number to the connection that waits for it and touch no other channel; \<open>into_events\<close> hands out
  the payloads as they came; a second attempt changes nothing.\<close>

theorem batch_acknowledged_once:
  assumes "ch tx = Pending"
  shows "batch_ack (batch_new evs seq tx) ch = ch(tx := Sent seq) \<and>
    snd (batch_drop (batch_new evs seq tx) ch) = ch(tx := Sent seq) \<and>
    batch_into_events (batch_new evs seq tx) ch = (evs, ch(tx := Sent seq)) \<and>
    batch_drop (fst (batch_drop (batch_new evs seq tx) ch)) ch' = (fst (batch_drop (batch_new evs seq tx) ch), ch')"
proof -
  let ?b = "batch_new evs seq tx"
  have b: "ack ?b = Some tx" "last_seq ?b = seq" by (simp_all add: batch_new_def)
  have "snd (batch_into_events ?b ch) = ch(tx := Sent seq)" "fst (batch_into_events ?b ch) = evs"
    using into_events_release.resolves [OF b(1), of ch] assms b(2) by (simp_all add: batch_into_events_def batch_new_def)
  then have "batch_into_events ?b ch = (evs, ch(tx := Sent seq))" by (simp add: prod_eq_iff)
  with ack_release.resolves [OF b(1), of ch] drop_release.resolves [OF b(1), of ch] assms b(2) show ?thesis
    by (simp add: batch_drop_def batch_new_def)
qed

theorem batch_acknowledged_once_witness:
  "batch_into_events (batch_new [[123, 125]] 1 0) (\<lambda>_. Pending) = ([[123, 125]], (\<lambda>_. Pending)(0 := Sent 1))"
  using batch_acknowledged_once [of "\<lambda>_. Pending" 0 "[[123, 125]]" 1] by simp

end
