(* ===== verification/Connection.thy ===== *)
theory Connection
  imports Codec Batch
begin

text \<open>
  One connection of the server: \<open>run_connection\<close> of \<^verbatim>\<open>src/server.rs\<close>.

  The body of the window loop is \<open>collect_frame\<close> on the local variables of the function (the record
  \<open>collecting\<close>), with the inner loop over a compressed payload as \<open>unpack_compressed\<close>. The function is
  asynchronous; it can only be interrupted at its \<open>await\<close>s, so the task is a state machine with one state per
  \<open>await\<close> (\<open>conn_state\<close>) and one event per way an \<open>await\<close> can resolve (\<open>conn_event\<close>); \<open>conn_step\<close> runs the code
  between two of them. The frames that arrive and the outcome of a write belong to the environment and come in
  with the events. The argument \<open>tx\<close> of \<open>conn_step\<close> is the channel that \<open>oneshot::channel()\<close> returns when the
  step creates one. \<open>None\<close> is an event the task is not waiting for.
\<close>

section \<open>Collecting a batch\<close>

record connection_config =
  conn_max_frame_size :: usize
  conn_keepalive :: "nat option"

record collecting =
  c_window :: u32
  c_events :: "bytes list"
  c_received :: u32
  c_last_seq :: u32
  c_prev_seq :: u32

text \<open>
  \<open>Vec::with_capacity(n)\<close> panics when the capacity exceeds \<open>isize::MAX\<close> bytes. An element is a \<open>Bytes\<close>, four machine words
  (so the \<^verbatim>\<open>bytes\<close> crate documents it); \<open>word_bytes\<close> is the size of a machine word. The model is that of a 64-bit target, as
  for \<open>usize\<close> elsewhere. An allocator that cannot serve the request aborts the process: that is no panic, and the run of the
  whole program ends there.
\<close>

definition WORD_BYTES :: nat where
  "WORD_BYTES = 8"

definition vec_with_capacity :: "nat \<Rightarrow> usize \<Rightarrow> bytes list option" where
  "vec_with_capacity word_bytes n =
     (if n * (4 * word_bytes) \<le> 2 ^ (8 * word_bytes - 1) - 1 then Some [] else None)"

lemma small_capacity [simp]: "n < 2 ^ 32 \<Longrightarrow> vec_with_capacity WORD_BYTES n = Some []"
  by (simp add: vec_with_capacity_def WORD_BYTES_def)

lemma window_capacity [simp]: "vec_with_capacity WORD_BYTES (unat (n :: u32)) = Some []"
proof (rule small_capacity)
  have "unat n < 2 ^ LENGTH(32)" by (rule unsigned_less)
  then show "unat n < 2 ^ 32" by simp
qed

definition start_window :: "u32 \<Rightarrow> bytes list \<Rightarrow> collecting" where
  "start_window n evs = \<lparr>c_window = n, c_events = evs, c_received = 0, c_last_seq = 0, c_prev_seq = 0\<rparr>"

definition push_json :: "u32 \<Rightarrow> bytes \<Rightarrow> collecting \<Rightarrow> collecting result" where
  "push_json seq data st =
     (if seq \<le> c_prev_seq st then Inl (SeqOutOfOrder seq (c_prev_seq st))
      else Inr (st\<lparr>c_prev_seq := seq, c_last_seq := seq, c_received := c_received st + 1,
                   c_events := c_events st @ [data]\<rparr>))"

text \<open>The check and the push once more, for the frames inside a compressed payload: the code repeats them there.\<close>

definition push_inner_json :: "u32 \<Rightarrow> bytes \<Rightarrow> collecting \<Rightarrow> collecting result" where
  "push_inner_json seq data st =
     (if seq \<le> c_prev_seq st then Inl (SeqOutOfOrder seq (c_prev_seq st))
      else Inr (st\<lparr>c_prev_seq := seq, c_last_seq := seq, c_received := c_received st + 1,
                   c_events := c_events st @ [data]\<rparr>))"

function unpack_compressed ::
    "'d flate2 option \<Rightarrow> usize \<Rightarrow> bytes \<Rightarrow> collecting \<Rightarrow> collecting result option" where
  "unpack_compressed zl limit buf st =
     (if buf \<noteq> [] \<and> c_received st < c_window st then
        (case decode_with_limit zl buf limit of
           None \<Rightarrow> None
         | Some (Inl e, _) \<Rightarrow> Some (Inl e)
         | Some (Inr (Some f), buf') \<Rightarrow>
             (case f of
                Json seq data \<Rightarrow>
                  (case push_inner_json seq data st of
                     Inl e \<Rightarrow> Some (Inl e)
                   | Inr st' \<Rightarrow> unpack_compressed zl limit buf' st')
              | _ \<Rightarrow> Some (Inl (UnexpectedFrame ''compressed payload must contain only J frames'')))
         | Some (Inr None, _) \<Rightarrow> Some (Inl (InvalidFrame ''compressed payload truncated'')))
      else Some (Inr st))"
  by pat_completeness auto
termination
proof (relation "measure (\<lambda>(zl, limit, buf, st). length buf)", goal_cases)
  case (2 zl limit buf st)
  then show ?case
    using codec.frame_shrinks [of zl "with_max_frame_size limit" buf]
    by (auto simp: codec_decode_def with_max_frame_size_def)
qed simp

declare unpack_compressed.simps [simp del]

fun collect_frame ::
    "'d flate2 option \<Rightarrow> usize \<Rightarrow> frame \<Rightarrow> collecting \<Rightarrow> collecting result option" where
  "collect_frame zl limit (Json seq data) st = Some (push_json seq data st)"
| "collect_frame zl limit (Compressed inner) st = unpack_compressed zl limit inner st"
| "collect_frame zl limit (Window _) st = Some (Inl (UnexpectedFrame ''expected J or C inside window''))"
| "collect_frame zl limit (Ack _) st = Some (Inl (UnexpectedFrame ''expected J or C inside window''))"

section \<open>The task\<close>

datatype conn_state =
    AwaitWindow
  | Collecting collecting
  | Dispatching batch nat
  | AwaitAck nat u32
  | SendingKeepalive nat u32
  | SendingAck u32
  | Returned "unit result"
  | Panicked

datatype conn_event =
    NextItem "frame result option"
  | BatchSent bool
  | AckReceived "u32 option"
  | KeepaliveElapsed
  | FrameSent "unit result"

text \<open>The head of \<open>while received < window\<close>, and what follows the loop up to the next \<open>await\<close>.\<close>

definition window_loop :: "nat \<Rightarrow> collecting \<Rightarrow> conn_state" where
  "window_loop tx st =
     (if c_received st < c_window st then Collecting st
      else Dispatching (batch_new (c_events st) (c_last_seq st) tx) tx)"

fun conn_step ::
    "'d flate2 option \<Rightarrow> connection_config \<Rightarrow> nat \<Rightarrow> conn_state \<Rightarrow> conn_event \<Rightarrow> conn_state option" where
  "conn_step zl cfg tx AwaitWindow (NextItem item) =
     Some (case item of
             Some (Inr (Window n)) \<Rightarrow>
               (case vec_with_capacity WORD_BYTES (unat n) of
                  None \<Rightarrow> Panicked
                | Some evs \<Rightarrow> window_loop tx (start_window n evs))
           | Some (Inr _) \<Rightarrow> Returned (Inl (UnexpectedFrame ''expected Window at batch start''))
           | Some (Inl e) \<Rightarrow> Returned (Inl e)
           | None \<Rightarrow> Returned (Inr ()))"
| "conn_step zl cfg tx (Collecting st) (NextItem item) =
     Some (case item of
             Some (Inr f) \<Rightarrow>
               (case collect_frame zl (conn_max_frame_size cfg) f st of
                  None \<Rightarrow> Panicked
                | Some (Inl e) \<Rightarrow> Returned (Inl e)
                | Some (Inr st') \<Rightarrow> window_loop tx st')
           | Some (Inl e) \<Rightarrow> Returned (Inl e)
           | None \<Rightarrow> Returned (Inl ConnectionClosed))"
| "conn_step zl cfg tx (Dispatching b rx) (BatchSent ok) =
     Some (if ok then AwaitAck rx (last_seq b) else Returned (Inr ()))"
| "conn_step zl cfg tx (AwaitAck rx seq) (AckReceived r) =
     Some (case r of Some acked \<Rightarrow> SendingAck acked | None \<Rightarrow> SendingAck seq)"
| "conn_step zl cfg tx (AwaitAck rx seq) KeepaliveElapsed =
     (if conn_keepalive cfg = None then None else Some (SendingKeepalive rx seq))"
| "conn_step zl cfg tx (SendingKeepalive rx seq) (FrameSent r) =
     Some (case r of Inr _ \<Rightarrow> AwaitAck rx seq | Inl e \<Rightarrow> Returned (Inl e))"
| "conn_step zl cfg tx (SendingAck acked) (FrameSent r) =
     Some (case r of Inr _ \<Rightarrow> AwaitWindow | Inl e \<Rightarrow> Returned (Inl e))"
| "conn_step zl cfg tx _ _ = None"

text \<open>The frame a task is handing to \<open>framed.send\<close> in a state.\<close>

fun writing :: "conn_state \<Rightarrow> frame option" where
  "writing (SendingKeepalive rx seq) = Some (Ack 0)"
| "writing (SendingAck acked) = Some (Ack acked)"
| "writing _ = None"

section \<open>What a window collects\<close>

fun push_all :: "event list \<Rightarrow> collecting \<Rightarrow> collecting result" where
  "push_all [] st = Inr st"
| "push_all ((seq, data) # js) st =
     (case push_json seq data st of Inl e \<Rightarrow> Inl e | Inr st' \<Rightarrow> push_all js st')"

lemma push_all_append:
  "push_all (js @ js') st = (case push_all js st of Inl e \<Rightarrow> Inl e | Inr st' \<Rightarrow> push_all js' st')"
  by (induction js st rule: push_all.induct) (auto split: sum.split)

text \<open>The two copies of the check agree; from here on there is one.\<close>

lemma push_inner_json_eq: "push_inner_json = push_json"
  by (simp add: fun_eq_iff push_inner_json_def push_json_def)

lemma unpack_compressed_parse:
  "unpack_compressed zl limit buf st =
     (if buf \<noteq> [] \<and> c_received st < c_window st then
        (case parse_frame zl limit buf of
           Malformed e _ \<Rightarrow> Some (Inl e)
         | Parsed f buf' \<Rightarrow>
             (case f of
                Json seq data \<Rightarrow>
                  (case push_json seq data st of
                     Inl e \<Rightarrow> Some (Inl e)
                   | Inr st' \<Rightarrow> unpack_compressed zl limit buf' st')
              | _ \<Rightarrow> Some (Inl (UnexpectedFrame ''compressed payload must contain only J frames'')))
         | Incomplete \<Rightarrow> Some (Inl (InvalidFrame ''compressed payload truncated'')))
      else Some (Inr st))"
  by (subst unpack_compressed.simps) (simp add: decode_with_limit_parse push_inner_json_eq split: parse.split frame.split)

lemma unpack_compressed_induct [case_names stop step]:
  assumes "\<And>buf st. buf = [] \<or> \<not> c_received st < c_window st \<Longrightarrow> P buf st"
    and "\<And>buf st. \<lbrakk>buf \<noteq> []; c_received st < c_window st;
      \<And>seq data buf' st'. parse_frame zl limit buf = Parsed (Json seq data) buf' \<Longrightarrow>
        push_json seq data st = Inr st' \<Longrightarrow> P buf' st'\<rbrakk> \<Longrightarrow> P buf st"
  shows "P buf st"
proof (induction "length buf" arbitrary: buf st rule: less_induct)
  case (less buf st)
  show ?case
  proof (cases "buf = [] \<or> \<not> c_received st < c_window st")
    case False
    show ?thesis
    proof (rule assms(2) [of buf st])
      from False show "buf \<noteq> []" by simp
      from False show "c_received st < c_window st" by simp
    next
      fix seq data buf' st'
      assume "parse_frame zl limit buf = Parsed (Json seq data) buf'" and "push_json seq data st = Inr st'"
      then have "length buf' < length buf" by (auto dest: parse_frame_shorter)
      then show "P buf' st'" by (rule less)
    qed
  qed (rule assms(1))
qed

lemma unpack_compressed_no_panic: "\<exists>r. unpack_compressed zl limit buf st = Some r"
proof (induction buf st rule: unpack_compressed_induct [where zl = zl and limit = limit])
  case (step buf st)
  then show ?case
    by (subst unpack_compressed_parse)
      (auto split: parse.split frame.split sum.split)
qed (subst unpack_compressed_parse, auto)

lemma collect_frame_no_panic: "\<exists>r. collect_frame zl limit f st = Some r"
  by (cases f) (auto simp: unpack_compressed_no_panic)

text \<open>
  Soundness of the inner loop: what it adds to the batch is a run of event frames at the front of the payload, and it
  stops before the end of the payload only when the window is full.
\<close>

lemma unpack_compressed_sound:
  "unpack_compressed zl limit buf st = Some (Inr st') \<Longrightarrow>
   \<exists>js rest. buf = json_wire js @ rest \<and> push_all js st = Inr st' \<and>
     (rest = [] \<or> \<not> c_received st' < c_window st')"
proof (induction buf st rule: unpack_compressed_induct [where zl = zl and limit = limit])
  case (stop buf st)
  then show ?case
    by (subst (asm) unpack_compressed_parse) (auto intro!: exI [of _ "[]"] exI [of _ buf])
next
  case (step buf st)
  from step.prems step.hyps obtain seq data buf' st1 where
    parse: "parse_frame zl limit buf = Parsed (Json seq data) buf'" and
    push: "push_json seq data st = Inr st1" and
    rec: "unpack_compressed zl limit buf' st1 = Some (Inr st')"
    by (subst (asm) unpack_compressed_parse) (auto split: parse.splits frame.splits sum.splits)
  from step.IH [OF parse push rec] obtain js rest where
    "buf' = json_wire js @ rest" "push_all js st1 = Inr st'" "rest = [] \<or> \<not> c_received st' < c_window st'"
    by blast
  with parse_frame_accepted [OF parse] push show ?case
    by (intro exI [of _ "(seq, data) # js"] exI [of _ rest]) (auto simp: json_wire_Cons [of seq data js zl])
qed

text \<open>The count of received events is the number of events kept, and never passes the window.\<close>

definition counted :: "collecting \<Rightarrow> bool" where
  "counted st \<longleftrightarrow> length (c_events st) = unat (c_received st) \<and> c_received st \<le> c_window st"

lemma start_window_sel [simp]:
  "c_window (start_window n []) = n" "c_events (start_window n []) = []" "c_received (start_window n []) = 0"
  "c_last_seq (start_window n []) = 0" "c_prev_seq (start_window n []) = 0"
  by (simp_all add: start_window_def)

lemma counted_start [simp]: "counted (start_window n [])"
  by (simp add: counted_def)

lemma unat_Suc_below: "(a :: u32) < b \<Longrightarrow> unat (a + 1) = unat a + 1"
  by unat_arith

lemma push_json_counted:
  "push_json seq data st = Inr st' \<Longrightarrow> counted st \<Longrightarrow> c_received st < c_window st \<Longrightarrow>
   counted st' \<and> c_window st' = c_window st"
  by (auto simp: push_json_def counted_def unat_Suc_below inc_le split: if_splits)

lemma unpack_compressed_counted:
  "unpack_compressed zl limit buf st = Some (Inr st') \<Longrightarrow> counted st \<Longrightarrow>
   counted st' \<and> c_window st' = c_window st"
proof (induction buf st rule: unpack_compressed_induct [where zl = zl and limit = limit])
  case (stop buf st)
  then show ?case by (subst (asm) unpack_compressed_parse) auto
next
  case (step buf st)
  from step.prems step.hyps obtain seq data buf' st1 where
    "parse_frame zl limit buf = Parsed (Json seq data) buf'"
    "push_json seq data st = Inr st1" "unpack_compressed zl limit buf' st1 = Some (Inr st')"
    by (subst (asm) unpack_compressed_parse) (auto split: parse.splits frame.splits sum.splits)
  with step.IH push_json_counted [of seq data st st1] step.hyps step.prems show ?case by auto
qed

lemma collect_frame_counted:
  "collect_frame zl limit f st = Some (Inr st') \<Longrightarrow> counted st \<Longrightarrow> c_received st < c_window st \<Longrightarrow>
   counted st' \<and> c_window st' = c_window st"
  by (cases f) (auto dest: push_json_counted unpack_compressed_counted)

text \<open>A run of events is accepted exactly when its sequence numbers strictly increase.\<close>

definition pushed :: "event list \<Rightarrow> collecting \<Rightarrow> collecting" where
  "pushed js st = st\<lparr>c_prev_seq := last (c_prev_seq st # map fst js),
     c_last_seq := last (c_last_seq st # map fst js),
     c_received := c_received st + word_of_nat (length js), c_events := c_events st @ map snd js\<rparr>"

lemma pushed_sel [simp]:
  "c_window (pushed js st) = c_window st" "c_events (pushed js st) = c_events st @ map snd js"
  "c_received (pushed js st) = c_received st + word_of_nat (length js)"
  "c_last_seq (pushed js st) = last (c_last_seq st # map fst js)"
  "c_prev_seq (pushed js st) = last (c_prev_seq st # map fst js)"
  by (simp_all add: pushed_def)

lemma push_all_iff:
  "push_all js st = Inr st' \<longleftrightarrow> sorted_wrt (<) (c_prev_seq st # map fst js) \<and> st' = pushed js st"
proof (induction js st rule: push_all.induct)
  case (1 st)
  show ?case by (auto simp: pushed_def)
next
  case (2 seq data js st)
  show ?case
  proof (cases "seq \<le> c_prev_seq st")
    case False
    then show ?thesis
      using "2.IH" by (auto simp: push_json_def pushed_def sorted_wrt2 add_ac)
  qed (auto simp: push_json_def)
qed

lemma push_all_error:
  "push_all js st = Inl e \<Longrightarrow> \<exists>seq prev. e = SeqOutOfOrder seq prev \<and> seq \<le> prev"
  by (induction js st rule: push_all.induct) (auto simp: push_json_def split: if_splits)

lemma increasing_last: "sorted_wrt (<) ((a :: u32) # xs) \<Longrightarrow> unat a + length xs \<le> unat (last (a # xs))"
proof (induction xs arbitrary: a)
  case (Cons x xs)
  then have "unat a < unat x" by (simp add: sorted_wrt2 word_less_nat_alt)
  moreover from Cons have "unat x + length xs \<le> unat (last (x # xs))" by (simp add: sorted_wrt2)
  ultimately show ?case by simp
qed simp

text \<open>Completeness of the inner loop: a payload of event frames is pushed event by event, up to a bad one if there is one.\<close>

lemma unpack_compressed_wire:
  assumes "events_fit limit js" and "counted st"
    and "length (c_events st) + length js \<le> unat (c_window st)"
    and "rest = [] \<or> length (c_events st) + length js = unat (c_window st) \<or> (\<exists>e. push_all js st = Inl e)"
  shows "unpack_compressed zl limit (json_wire js @ rest) st = Some (push_all js st)"
  using assms
proof (induction js arbitrary: st)
  case Nil
  then have "rest = [] \<or> \<not> c_received st < c_window st"
    by (auto simp: counted_def word_less_nat_alt)
  then show ?case by (subst unpack_compressed_parse) auto
next
  case (Cons j js)
  obtain seq data where j: "j = (seq, data)" by (cases j)
  from Cons.prems j have parse: "parse_frame zl limit (json_wire (j # js) @ rest) = Parsed (Json seq data) (json_wire js @ rest)"
    using parse_frame_wire_json [of zl limit seq data "json_wire js @ rest"]
    by (simp add: events_fit_def json_wire_Cons [of seq data js zl] Let_def del: wire.simps)
  from Cons.prems have lt: "c_received st < c_window st"
    by (auto simp: counted_def word_less_nat_alt)
  have "json_wire (j # js) @ rest \<noteq> []" by (simp add: j json_wire_def)
  then have eq: "unpack_compressed zl limit (json_wire (j # js) @ rest) st =
      (case push_json seq data st of Inl e \<Rightarrow> Some (Inl e)
       | Inr st' \<Rightarrow> unpack_compressed zl limit (json_wire js @ rest) st')"
    using lt parse by (subst unpack_compressed_parse) simp
  show ?case
  proof (cases "push_json seq data st")
    case (Inr st')
    with Cons.prems lt have "counted st'" "c_window st' = c_window st"
      by (auto dest: push_json_counted)
    moreover from Inr have "length (c_events st') = Suc (length (c_events st))"
      by (auto simp: push_json_def split: if_splits)
    ultimately show ?thesis
      using Cons.IH [of st'] Cons.prems Inr eq j by (auto simp: events_fit_def)
  qed (use eq j in simp)
qed

section \<open>Runs of the task over arriving frames\<close>

fun conn_run ::
    "'d flate2 option \<Rightarrow> connection_config \<Rightarrow> conn_state \<Rightarrow> (nat \<times> conn_event) list \<Rightarrow> conn_state option" where
  "conn_run zl cfg s [] = Some s"
| "conn_run zl cfg s ((tx, e) # es) = do { s' \<leftarrow> conn_step zl cfg tx s e; conn_run zl cfg s' es }"

definition arriving :: "nat \<Rightarrow> frame list \<Rightarrow> (nat \<times> conn_event) list" where
  "arriving tx fs = map (\<lambda>f. (tx, NextItem (Some (Inr f)))) fs"

lemma arriving_simps [simp]:
  "arriving tx [] = []"
  "arriving tx (f # fs) = (tx, NextItem (Some (Inr f))) # arriving tx fs"
  by (simp_all add: arriving_def)

lemma conn_run_append:
  "conn_run zl cfg s (es @ es') = Option.bind (conn_run zl cfg s es) (\<lambda>s'. conn_run zl cfg s' es')"
proof (induction zl cfg s es rule: conn_run.induct)
  case (2 zl cfg s tx e es)
  then show ?case by (cases "conn_step zl cfg tx s e") auto
qed simp

text \<open>\<open>carries fs js\<close>: the frames \<open>fs\<close> carry the events \<open>js\<close>; only the last payload may hold more than was taken.\<close>

inductive carries :: "frame list \<Rightarrow> event list \<Rightarrow> bool" where
  carries_none: "carries [] []"
| carries_json: "carries fs js \<Longrightarrow> carries (Json seq data # fs) ((seq, data) # js)"
| carries_compressed: "inner = json_wire js @ rest \<Longrightarrow> rest = [] \<or> fs = [] \<Longrightarrow> carries fs js' \<Longrightarrow>
    carries (Compressed inner # fs) (js @ js')"

definition dispatch_of :: "nat \<Rightarrow> event list \<Rightarrow> conn_state" where
  "dispatch_of tx js = Dispatching (batch_new (map snd js) (last (0 # map fst js)) tx) tx"

lemma terminal_run:
  "conn_run zl cfg (Dispatching b rx) (arriving tx fs) = Some s \<longleftrightarrow> fs = [] \<and> s = Dispatching b rx"
  "conn_run zl cfg (Returned r) (arriving tx fs) = Some s \<longleftrightarrow> fs = [] \<and> s = Returned r"
  "conn_run zl cfg Panicked (arriving tx fs) = Some s \<longleftrightarrow> fs = [] \<and> s = Panicked"
  by (cases fs; auto)+

lemma window_loop_full:
  "counted st \<Longrightarrow> \<not> c_received st < c_window st \<Longrightarrow> length (c_events st) = unat (c_window st)"
  by (auto simp: counted_def not_less)

lemma collecting_run_sound:
  assumes "conn_run zl cfg (window_loop tx st) (arriving tx fs) = Some (Dispatching b rx)" and "counted st"
  shows "\<exists>js. carries fs js \<and> push_all js st = Inr (pushed js st) \<and>
    length (c_events st) + length js = unat (c_window st) \<and>
    b = batch_new (c_events (pushed js st)) (c_last_seq (pushed js st)) tx \<and> rx = tx"
  using assms
proof (induction fs arbitrary: st)
  case Nil
  then have "\<not> c_received st < c_window st"
    by (auto simp: window_loop_def split: if_splits)
  with Nil show ?case
    by (intro exI [of _ "[]"]) (auto simp: window_loop_def pushed_def carries_none dest: window_loop_full)
next
  case (Cons f fs)
  from Cons.prems(1) have lt: "c_received st < c_window st"
    by (auto simp: window_loop_def split: if_splits)
  with Cons.prems(1) obtain st' where st': "collect_frame zl (conn_max_frame_size cfg) f st = Some (Inr st')"
    and run: "conn_run zl cfg (window_loop tx st') (arriving tx fs) = Some (Dispatching b rx)"
    by (auto simp: window_loop_def terminal_run split: option.splits sum.splits if_splits)
  from collect_frame_counted [OF st' Cons.prems(2) lt]
  have c: "counted st'" "c_window st' = c_window st" by auto
  from Cons.IH [OF run c(1)] obtain js where js: "carries fs js" "push_all js st' = Inr (pushed js st')"
    "length (c_events st') + length js = unat (c_window st')"
    "b = batch_new (c_events (pushed js st')) (c_last_seq (pushed js st')) tx" "rx = tx" by blast
  have "\<exists>js'. carries (f # fs) (js' @ js) \<and> push_all js' st = Inr st'"
  proof (cases f)
    case (Json seq data)
    with st' js(1) show ?thesis by (intro exI [of _ "[(seq, data)]"]) (auto intro: carries_json)
  next
    case (Compressed inner)
    with st' have "unpack_compressed zl (conn_max_frame_size cfg) inner st = Some (Inr st')" by simp
    from unpack_compressed_sound [OF this] obtain js' rest where
      *: "inner = json_wire js' @ rest" "push_all js' st = Inr st'"
        "rest = [] \<or> \<not> c_received st' < c_window st'"
      by blast
    then have "rest = [] \<or> fs = []"
      using run by (cases fs) (auto simp: window_loop_def)
    with * js(1) Compressed show ?thesis by (auto intro: carries_compressed)
  qed (use st' in auto)
  then obtain js' where js': "carries (f # fs) (js' @ js)" "push_all js' st = Inr st'" by blast
  then have "push_all (js' @ js) st = Inr (pushed js st')" using js(2) by (simp add: push_all_append)
  moreover from this have "pushed js st' = pushed (js' @ js) st" by (simp add: push_all_iff)
  moreover from js'(2) have "length (c_events st') = length (c_events st) + length js'"
    by (simp add: push_all_iff pushed_def)
  ultimately show ?case using js' js c by (intro exI [of _ "js' @ js"]) simp
qed

text \<open>The two shapes in which the client sends a window: event by event, or as one compressed payload.\<close>

lemma arriving_append: "arriving tx (fs @ fs') = arriving tx fs @ arriving tx fs'"
  by (simp add: arriving_def)

lemma unat_of_nat_le_below: "k < unat (n :: u32) \<Longrightarrow> word_of_nat k < n"
  by (simp add: word_less_nat_alt unat_of_nat less_le_trans [OF _ unsigned_less [THEN less_imp_le], THEN mod_less])

lemma json_run:
  "counted st \<Longrightarrow> push_all js st = Inr st' \<Longrightarrow> length (c_events st) + length js \<le> unat (c_window st) \<Longrightarrow>
   conn_run zl cfg (window_loop tx st) (arriving tx (json_frames js)) = Some (window_loop tx st')"
proof (induction js arbitrary: st)
  case Nil
  then show ?case by (simp add: json_frames_def)
next
  case (Cons j js)
  obtain seq data where j: "j = (seq, data)" by (cases j)
  from Cons.prems have lt: "c_received st < c_window st"
    by (auto simp: counted_def word_less_nat_alt)
  from Cons.prems j obtain st1 where st1: "push_json seq data st = Inr st1" "push_all js st1 = Inr st'"
    by (auto split: sum.splits)
  with Cons.prems lt have "counted st1" "c_window st1 = c_window st"
    by (auto dest: push_json_counted)
  moreover from st1 have "length (c_events st1) = Suc (length (c_events st))"
    by (auto simp: push_json_def split: if_splits)
  ultimately show ?case
    using Cons.IH [of st1] Cons.prems st1 lt j by (simp add: json_frames_def window_loop_def [of tx st])
qed

lemma window_loop_pushed:
  "length js = unat n \<Longrightarrow> window_loop tx (pushed js (start_window n [])) = dispatch_of tx js"
  by (simp add: window_loop_def dispatch_of_def)

lemma push_all_start:
  "sorted_wrt (<) (0 # map fst js) \<Longrightarrow> push_all js (start_window n []) = Inr (pushed js (start_window n []))"
  by (simp add: push_all_iff)

lemma window_run_json:
  assumes "sorted_wrt (<) (0 # map fst js)" and "length js = unat n"
  shows "conn_run zl cfg AwaitWindow (arriving tx (Window n # json_frames js)) = Some (dispatch_of tx js)"
  using json_run [OF counted_start push_all_start [OF assms(1)], of n zl cfg tx] assms(2)
  by (simp add: window_loop_pushed)

lemma window_run_compressed_surplus:
  assumes "sorted_wrt (<) (0 # map fst js)" and "length js = unat n" and "js \<noteq> []"
    and "events_fit (conn_max_frame_size cfg) js"
  shows "conn_run zl cfg AwaitWindow (arriving tx [Window n, Compressed (json_wire js @ surplus)]) =
    Some (dispatch_of tx js)"
proof -
  have "unpack_compressed zl (conn_max_frame_size cfg) (json_wire js @ surplus) (start_window n []) =
      Some (Inr (pushed js (start_window n [])))"
    using unpack_compressed_wire [of "conn_max_frame_size cfg" js "start_window n []" surplus zl]
      push_all_start [OF assms(1), of n] assms(2,4)
    by simp
  moreover have "0 < n"
    using assms(2,3) by (auto simp: word_gt_0)
  ultimately show ?thesis
    using assms(2) by (simp add: window_loop_def [of tx "start_window n []"] window_loop_pushed)
qed

lemmas window_run_compressed = window_run_compressed_surplus [where surplus = "[]", unfolded append_Nil2]

text \<open>A window cut off by the next one.\<close>

lemma window_partial:
  assumes "sorted_wrt (<) (0 # map fst js)" and "length js < unat n"
  shows "conn_run zl cfg AwaitWindow (arriving tx (Window n # json_frames js)) =
    Some (Collecting (pushed js (start_window n [])))"
proof -
  have "(word_of_nat (length js) :: u32) < n" using assms(2) by (rule unat_of_nat_le_below)
  then show ?thesis
    using json_run [OF counted_start push_all_start [OF assms(1)], of n zl cfg tx] assms(2)
    by (simp add: window_loop_def [of tx "pushed _ _"])
qed

lemma pushed_counted:
  assumes "sorted_wrt (<) (0 # map fst js)" and "length js < unat n"
  shows "counted (pushed js (start_window n []))"
proof -
  have "unat n < 2 ^ LENGTH(32)" by (rule unsigned_less)
  with assms(2) less_imp_le [OF unat_of_nat_le_below [OF assms(2)]] show ?thesis by (simp add: counted_def unat_of_nat)
qed

lemma push_all_later:
  assumes "sorted_wrt (<) (0 # map fst (js @ js'))" and "seq \<le> last (0 # map fst (js @ js'))"
  shows "push_all (js' @ [(seq, data)]) (pushed js (start_window n [])) = Inl (SeqOutOfOrder seq (last (0 # map fst (js @ js'))))"
proof -
  from assms(1) have "push_all js (start_window n []) = Inr (pushed js (start_window n []))"
    by (intro push_all_start) (auto simp: sorted_wrt_append)
  moreover have "push_all (js @ js') (start_window n []) = Inr (pushed (js @ js') (start_window n []))"
    by (rule push_all_start [OF assms(1)])
  ultimately have "push_all js' (pushed js (start_window n [])) = Inr (pushed (js @ js') (start_window n []))"
    by (simp add: push_all_append)
  with assms(2) show ?thesis by (simp add: push_all_append push_json_def)
qed

lemma json_out_of_order:
  assumes "sorted_wrt (<) (0 # map fst js)" and "length js < unat n" and "seq \<le> last (0 # map fst js)"
  shows "conn_run zl cfg AwaitWindow (arriving tx (Window n # json_frames js @ [Json seq data])) =
    Some (Returned (Inl (SeqOutOfOrder seq (last (0 # map fst js)))))"
  using window_partial [OF assms(1,2), of zl cfg tx] assms(3)
  by (simp add: arriving_append conn_run_append push_json_def)

lemma window_in_window:
  assumes "sorted_wrt (<) (0 # map fst js)" and "length js < unat n"
  shows "conn_run zl cfg AwaitWindow (arriving tx (Window n # json_frames js @ [Window m])) =
    Some (Returned (Inl (UnexpectedFrame ''expected J or C inside window'')))"
  using window_partial [OF assms, of zl cfg tx]
  by (simp add: arriving_append conn_run_append)

lemma window_run_sound:
  assumes "conn_run zl cfg AwaitWindow (arriving tx (Window n # fs)) = Some (Dispatching b rx)"
  shows "\<exists>js. carries fs js \<and> length js = unat n \<and> sorted_wrt (<) (0 # map fst js) \<and>
    Dispatching b rx = dispatch_of tx js"
proof -
  from assms have "conn_run zl cfg (window_loop tx (start_window n [])) (arriving tx fs) = Some (Dispatching b rx)"
    by simp
  from collecting_run_sound [OF this counted_start] obtain js where "carries fs js"
    "push_all js (start_window n []) = Inr (pushed js (start_window n []))" "length js = unat n" "rx = tx"
    "b = batch_new (map snd js) (last (0 # map fst js)) tx"
    by auto
  then show ?thesis
    by (intro exI [of _ js]) (simp add: push_all_iff dispatch_of_def)
qed

lemma dispatch_of_covers:
  assumes "sorted_wrt (<) (0 # map fst js)" and "dispatch_of tx js = Dispatching b rx"
  shows "length (events b) \<le> unat (last_seq b)"
  using increasing_last [OF assms(1)] assms(2) by (auto simp: dispatch_of_def batch_new_def)

section \<open>Well-formed states\<close>

text \<open>
  The type of the task's states: while it collects, what it has counted is what it has kept, the last sequence number
  is at least as large as the count, and the window is not full; a batch it dispatches is acknowledged by a number that
  covers its events.
\<close>

definition collecting_ok :: "collecting \<Rightarrow> bool" where
  "collecting_ok st \<longleftrightarrow> counted st \<and> c_last_seq st = c_prev_seq st \<and> c_received st \<le> c_prev_seq st"

definition batch_ok :: "batch \<Rightarrow> bool" where
  "batch_ok b \<longleftrightarrow> length (events b) \<le> unat (last_seq b)"

fun conn_ok :: "conn_state \<Rightarrow> bool" where
  "conn_ok (Collecting st) = (collecting_ok st \<and> c_received st < c_window st)"
| "conn_ok (Dispatching b rx) = batch_ok b"
| "conn_ok _ = True"

lemma collecting_ok_start: "collecting_ok (start_window n [])"
  by (simp add: collecting_ok_def)

lemma push_json_ok:
  assumes "push_json seq data st = Inr st'" and "collecting_ok st" and "c_received st < c_window st"
  shows "collecting_ok st'"
proof -
  from assms(1) have st': "c_prev_seq st < seq" "c_prev_seq st' = seq" "c_last_seq st' = seq"
      "c_received st' = c_received st + 1"
    by (auto simp: push_json_def split: if_splits)
  from assms(2) st'(1) have "c_received st < seq" by (auto simp: collecting_ok_def)
  then have "c_received st + 1 \<le> seq" by (rule inc_le)
  with push_json_counted [OF assms(1)] assms(2,3) st' show ?thesis by (simp add: collecting_ok_def)
qed

lemma unpack_compressed_ok:
  "unpack_compressed zl limit buf st = Some (Inr st') \<Longrightarrow> collecting_ok st \<Longrightarrow> collecting_ok st'"
proof (induction buf st rule: unpack_compressed_induct [where zl = zl and limit = limit])
  case (stop buf st)
  then show ?case by (subst (asm) unpack_compressed_parse) auto
next
  case (step buf st)
  from step.prems(1) step.hyps obtain seq data buf' st1 where
    "parse_frame zl limit buf = Parsed (Json seq data) buf'"
    "push_json seq data st = Inr st1" "unpack_compressed zl limit buf' st1 = Some (Inr st')"
    by (subst (asm) unpack_compressed_parse) (auto split: parse.splits frame.splits sum.splits)
  with step.IH push_json_ok [of seq data st st1] step.hyps step.prems show ?case by auto
qed

lemma window_loop_ok: "collecting_ok st \<Longrightarrow> conn_ok (window_loop tx st)"
  by (auto simp: window_loop_def collecting_ok_def batch_ok_def batch_new_def counted_def word_le_nat_alt)

lemma conn_step_ok: "conn_step zl cfg tx s e = Some s' \<Longrightarrow> conn_ok s \<Longrightarrow> conn_ok s'"
proof (induction zl cfg tx s e rule: conn_step.induct)
  case (2 zl cfg tx st item)
  have "collecting_ok st'" if "collect_frame zl (conn_max_frame_size cfg) f st = Some (Inr st')" for f st'
    using that 2(2) by (cases f) (auto dest: push_json_ok unpack_compressed_ok)
  with 2(1) show ?case
    by (auto intro: window_loop_ok split: option.splits sum.splits)
qed (auto simp: window_loop_ok collecting_ok_start split: option.splits sum.splits frame.splits if_splits)

section \<open>The task never panics and each event has one outcome\<close>

lemma conn_step_no_panic: "conn_step zl cfg tx s e = Some s' \<Longrightarrow> s' \<noteq> Panicked"
proof (induction zl cfg tx s e rule: conn_step.induct)
  case (2 zl cfg tx st item)
  obtain r where "\<And>f. item = Some (Inr f) \<Longrightarrow> collect_frame zl (conn_max_frame_size cfg) f st = Some r"
    using collect_frame_no_panic by (metis Inr_inject option.inject)
  with 2 show ?case
    by (auto simp: window_loop_def split: option.splits sum.splits if_splits)
qed (auto simp: window_loop_def split: option.splits sum.splits frame.splits if_splits)

lemma conn_run_no_panic: "conn_run zl cfg s es = Some s' \<Longrightarrow> s \<noteq> Panicked \<Longrightarrow> s' \<noteq> Panicked"
  by (induction zl cfg s es rule: conn_run.induct) (auto simp: bind_eq_Some_conv dest: conn_step_no_panic)


section \<open>Properties\<close>

text \<open>C9. A dispatched batch is its window: when a task dispatches after a window of \<open>n\<close>, the batch has exactly \<open>n\<close>
  events, the payloads of the event frames received, plain or compressed, in the order of the wire; their sequence numbers
  strictly increase from above 0; the batch is acknowledged by the last of them, which is at least \<open>n\<close>, and has the task's
  own channel.\<close>

theorem dispatched_batch_is_window:
  assumes "conn_run zl cfg AwaitWindow (arriving tx (Window n # fs)) = Some (Dispatching b rx)"
  shows "\<exists>js. carries fs js \<and> events b = map snd js \<and> length (events b) = unat n \<and>
    sorted_wrt (<) (0 # map fst js) \<and> last_seq b = last (0 # map fst js) \<and> n \<le> last_seq b \<and>
    ack b = Some tx \<and> rx = tx"
proof -
  from window_run_sound [OF assms] obtain js where js: "carries fs js" "length js = unat n"
      "sorted_wrt (<) (0 # map fst js)" "Dispatching b rx = dispatch_of tx js" by blast
  from dispatch_of_covers [OF js(3) js(4) [symmetric]] js show ?thesis
    by (intro exI [of _ js]) (auto simp: dispatch_of_def batch_new_def word_le_nat_alt)
qed

theorem dispatched_batch_is_window_witness:
  "\<exists>js. carries [Json 3 [123, 125]] js \<and> events (batch_new [[123, 125]] 3 7) = map snd js \<and>
    length (events (batch_new [[123, 125]] 3 7)) = unat (1 :: u32) \<and>
    sorted_wrt (<) (0 # map fst js) \<and> last_seq (batch_new [[123, 125]] 3 7) = last (0 # map fst js) \<and>
    1 \<le> last_seq (batch_new [[123, 125]] 3 7) \<and> ack (batch_new [[123, 125]] 3 7) = Some 7 \<and> (7 :: nat) = 7"
  by (rule dispatched_batch_is_window [of no_zlib "\<lparr>conn_max_frame_size = 64, conn_keepalive = None\<rparr>"])
    (simp add: window_loop_def start_window_def push_json_def batch_new_def)

text \<open>C17. Compression is transparent: a window of events whose sequence numbers increase gives the same batch whether the
  events arrive as frames of their own or as one compressed frame.\<close>

theorem compressed_window_equals_plain:
  assumes "sorted_wrt (<) (0 # map fst js)" and "length js = unat n" and "js \<noteq> []"
    and "events_fit (conn_max_frame_size cfg) js"
  shows "conn_run zl cfg AwaitWindow (arriving tx [Window n, Compressed (json_wire js)]) =
      conn_run zl cfg AwaitWindow (arriving tx (Window n # json_frames js)) \<and>
    conn_run zl cfg AwaitWindow (arriving tx (Window n # json_frames js)) =
      Some (Dispatching (batch_new (map snd js) (last (map fst js)) tx) tx)"
  using window_run_compressed [OF assms, of zl tx] window_run_json [OF assms(1,2), of zl cfg tx] assms(3)
  by (simp add: dispatch_of_def)

theorem compressed_window_equals_plain_witness:
  "conn_run no_zlib \<lparr>conn_max_frame_size = 64, conn_keepalive = None\<rparr> AwaitWindow
      (arriving 7 [Window 2, Compressed (json_wire [(1, [123, 125]), (5, [91, 93])])]) =
    conn_run no_zlib \<lparr>conn_max_frame_size = 64, conn_keepalive = None\<rparr> AwaitWindow
      (arriving 7 (Window 2 # json_frames [(1, [123, 125]), (5, [91, 93])])) \<and>
   conn_run no_zlib \<lparr>conn_max_frame_size = 64, conn_keepalive = None\<rparr> AwaitWindow
      (arriving 7 (Window 2 # json_frames [(1, [123, 125]), (5, [91, 93])])) =
    Some (Dispatching (batch_new (map snd [(1 :: u32, [123, 125]), (5, [91, 93])])
      (last (map fst [(1, [123, 125] :: bytes), (5, [91, 93])])) 7) 7)"
  by (rule compressed_window_equals_plain) (simp_all add: word_less_nat_alt)

text \<open>C39. Surplus events are dropped: what a compressed payload holds after the last event of the window, be it events or
  bytes that are no frame at all, reaches neither the batch nor any later one, and the task reports nothing.\<close>

theorem compressed_surplus_dropped:
  assumes "sorted_wrt (<) (0 # map fst js)" and "length js = unat n" and "js \<noteq> []"
    and "events_fit (conn_max_frame_size cfg) js"
  shows "conn_run zl cfg AwaitWindow (arriving tx [Window n, Compressed (json_wire js @ surplus)]) =
    conn_run zl cfg AwaitWindow (arriving tx [Window n, Compressed (json_wire js)])"
  using window_run_compressed_surplus [OF assms, of zl tx surplus] window_run_compressed [OF assms, of zl tx] by simp

theorem compressed_surplus_dropped_witness:
  "conn_run no_zlib \<lparr>conn_max_frame_size = 64, conn_keepalive = None\<rparr> AwaitWindow
      (arriving 7 [Window 1, Compressed (json_wire [(1, [123, 125])] @ json_wire [(2, [91, 93])])]) =
    conn_run no_zlib \<lparr>conn_max_frame_size = 64, conn_keepalive = None\<rparr> AwaitWindow
      (arriving 7 [Window 1, Compressed (json_wire [(1, [123, 125])])])"
  by (rule compressed_surplus_dropped) simp_all

text \<open>C28. A repeated or decreasing sequence number ends the connection with the two numbers in the error, whatever the
  window still expects: in a frame of its own, and inside a compressed payload, where it is checked against the events before
  it in the payload and, at the beginning of the payload, against those of the frames before; what follows it in the payload
  makes no difference.\<close>

theorem out_of_order_rejected:
  assumes "sorted_wrt (<) (0 # map fst (js @ js'))" and "length (js @ js') < unat n"
    and "seq \<le> last (0 # map fst (js @ js'))"
  shows "conn_run zl cfg AwaitWindow (arriving tx (Window n # json_frames (js @ js') @ [Json seq data])) =
      Some (Returned (Inl (SeqOutOfOrder seq (last (0 # map fst (js @ js')))))) \<and>
    (events_fit (conn_max_frame_size cfg) (js' @ [(seq, data)]) \<longrightarrow>
     conn_run zl cfg AwaitWindow
       (arriving tx (Window n # json_frames js @ [Compressed (json_wire (js' @ [(seq, data)]) @ surplus)])) =
      Some (Returned (Inl (SeqOutOfOrder seq (last (0 # map fst (js @ js')))))))"
proof (intro conjI impI)
  show "conn_run zl cfg AwaitWindow (arriving tx (Window n # json_frames (js @ js') @ [Json seq data])) =
      Some (Returned (Inl (SeqOutOfOrder seq (last (0 # map fst (js @ js'))))))"
    by (rule json_out_of_order [OF assms])
  assume fit: "events_fit (conn_max_frame_size cfg) (js' @ [(seq, data)])"
  let ?st = "pushed js (start_window n [])"
  have js: "sorted_wrt (<) (0 # map fst js)" "length js < unat n" using assms(1,2) by (auto simp: sorted_wrt_append)
  have "push_all (js' @ [(seq, data)]) ?st = Inl (SeqOutOfOrder seq (last (0 # map fst (js @ js'))))"
    using push_all_later [OF assms(1,3)] by simp
  with unpack_compressed_wire [OF fit, of ?st surplus zl] pushed_counted [OF js] assms(2)
  have "unpack_compressed zl (conn_max_frame_size cfg) (json_wire (js' @ [(seq, data)]) @ surplus) ?st =
      Some (Inl (SeqOutOfOrder seq (last (0 # map fst (js @ js')))))" by auto
  with window_partial [OF js, of zl cfg tx]
  show "conn_run zl cfg AwaitWindow
       (arriving tx (Window n # json_frames js @ [Compressed (json_wire (js' @ [(seq, data)]) @ surplus)])) =
      Some (Returned (Inl (SeqOutOfOrder seq (last (0 # map fst (js @ js'))))))"
    by (simp add: arriving_append conn_run_append)
qed

theorem out_of_order_rejected_witness:
  "conn_run no_zlib \<lparr>conn_max_frame_size = 64, conn_keepalive = None\<rparr> AwaitWindow
      (arriving 7 (Window 3 # json_frames ([(1, [123, 125])] @ [(4, [91, 93])]) @ [Json 4 [91, 93]])) =
    Some (Returned (Inl (SeqOutOfOrder 4 4))) \<and>
   conn_run no_zlib \<lparr>conn_max_frame_size = 64, conn_keepalive = None\<rparr> AwaitWindow
      (arriving 7 (Window 3 # json_frames [(1, [123, 125])] @ [Compressed (json_wire ([(4, [91, 93])] @ [(4, [91, 93])]) @ [0])])) =
    Some (Returned (Inl (SeqOutOfOrder 4 4)))"
  using out_of_order_rejected [of "[(1, [123, 125])]" "[(4, [91, 93])]" 3 4 no_zlib
      "\<lparr>conn_max_frame_size = 64, conn_keepalive = None\<rparr>" 7 "[91, 93]" "[0]"]
  by (simp add: events_fit_def word_less_nat_alt del: conn_run.simps arriving_simps)

text \<open>C29. On a 64-bit target the task does not panic, on any input and any outcome of its writes, the vector it
  allocates for the announced window included: no window of the wire reaches the capacity at which \<open>Vec::with_capacity\<close>
  panics. On a 32-bit target that vector panics for every window from \<open>2^27\<close> on. (An allocation that fails for want of memory
  aborts the process; that is not a panic, and no step of the task follows it.)\<close>

theorem connection_never_panics:
  "conn_run zl cfg AwaitWindow es \<noteq> Some Panicked \<and>
   (vec_with_capacity 4 (unat (n :: u32)) = None \<longleftrightarrow> 2 ^ 27 \<le> n)"
proof
  show "conn_run zl cfg AwaitWindow es \<noteq> Some Panicked"
    using conn_run_no_panic [of zl cfg AwaitWindow es Panicked] by auto
  show "vec_with_capacity 4 (unat n) = None \<longleftrightarrow> 2 ^ 27 \<le> n"
    by (auto simp: vec_with_capacity_def word_le_nat_alt)
qed

end
