(* ===== verification/Port_Range.thy ===== *)
theory Port_Range
  imports Lumberjack_Error
begin

text \<open>
  The restricted source port of the client: \<open>connect_with_port_range\<close> of \<^verbatim>\<open>src/client.rs\<close>.

  The operating system and \<^verbatim>\<open>tokio\<close>'s sockets are a parameter, the record \<open>sockets\<close> of the calls the function
  makes; every call takes and returns the state \<open>'w\<close> of the outside world, so that it may answer differently
  each time. The arithmetic on ports is on 16- and 32-bit words, as in the source. One iteration of the loop is
  \<open>try_port\<close>; the loop over \<open>0..count\<close> is \<open>port_loop\<close> on the list of its indices.
\<close>

datatype socket_addr = SockV4 "u8 list" u16 | SockV6 "u16 list" u16

record ('w, 'sock, 's) sockets =
  tcp_socket_new_v4 :: "'w \<Rightarrow> (io_error + 'sock) \<times> 'w"
  tcp_socket_new_v6 :: "'w \<Rightarrow> (io_error + 'sock) \<times> 'w"
  socket_bind :: "'sock \<Rightarrow> socket_addr \<Rightarrow> 'w \<Rightarrow> (io_error + 'sock) \<times> 'w"
  socket_connect :: "'sock \<Rightarrow> socket_addr \<Rightarrow> 'w \<Rightarrow> (io_error + 's) \<times> 'w"
  gen_range :: "u32 \<Rightarrow> 'w \<Rightarrow> u32 \<times> 'w"

fun new_socket :: "('w, 'sock, 's) sockets \<Rightarrow> socket_addr \<Rightarrow> 'w \<Rightarrow> (io_error + 'sock) \<times> 'w" where
  "new_socket net (SockV4 _ _) w = tcp_socket_new_v4 net w"
| "new_socket net (SockV6 _ _) w = tcp_socket_new_v6 net w"

fun bind_addr :: "socket_addr \<Rightarrow> u16 \<Rightarrow> socket_addr" where
  "bind_addr (SockV4 _ _) port = SockV4 [0, 0, 0, 0] port"
| "bind_addr (SockV6 _ _) port = SockV6 [0, 0, 0, 0, 0, 0, 0, 0] port"

text \<open>\<open>Continue\<close>: the iteration went on to the next port; \<open>Stop\<close>: it returned from the function.\<close>

datatype ('w, 's) attempt = Continue 'w | Stop "'s result" 'w

definition try_port :: "('w, 'sock, 's) sockets \<Rightarrow> socket_addr \<Rightarrow> u16 \<Rightarrow> 'w \<Rightarrow> ('w, 's) attempt" where
  "try_port net target port w =
     (case new_socket net target w of
        (Inl e, w) \<Rightarrow> Stop (Inl (Io e)) w
      | (Inr socket, w) \<Rightarrow>
          (case socket_bind net socket (bind_addr target port) w of
             (Inl _, w) \<Rightarrow> Continue w
           | (Inr socket, w) \<Rightarrow>
               (case socket_connect net socket target w of
                  (Inr stream, w) \<Rightarrow> Stop (Inr stream) w
                | (Inl e, w) \<Rightarrow>
                    if kind e = AddrInUse \<or> kind e = AddrNotAvailable then Continue w
                    else Stop (Inl (Io e)) w)))"

definition candidate_port :: "u16 \<Rightarrow> u32 \<Rightarrow> u32 \<Rightarrow> u32 \<Rightarrow> u16" where
  "candidate_port start count offset i = start + ucast ((offset + i) mod count)"

fun port_loop ::
    "('w, 'sock, 's) sockets \<Rightarrow> socket_addr \<Rightarrow> u16 \<Rightarrow> u32 \<Rightarrow> u32 \<Rightarrow> u32 list \<Rightarrow> 'w \<Rightarrow> 's result \<times> 'w" where
  "port_loop net target start count offset [] w = (Inl NoLocalPortAvailable, w)"
| "port_loop net target start count offset (i # ixs) w =
     (case try_port net target (candidate_port start count offset i) w of
        Continue w \<Rightarrow> port_loop net target start count offset ixs w
      | Stop r w \<Rightarrow> (r, w))"

definition connect_with_port_range ::
    "('w, 'sock, 's) sockets \<Rightarrow> socket_addr \<Rightarrow> u16 \<Rightarrow> u16 \<Rightarrow> 'w \<Rightarrow> 's result \<times> 'w" where
  "connect_with_port_range net target start endp w =
     (let count = (ucast (endp - start) :: u32) + 1;
          (offset, w) = gen_range net count w
      in port_loop net target start count offset (map word_of_nat [0..<unat count]) w)"

section \<open>Lemmas\<close>

text \<open>The specification of the scan: try the ports of a list in order until one attempt returns.\<close>

fun scan_ports :: "('w, 'sock, 's) sockets \<Rightarrow> socket_addr \<Rightarrow> u16 list \<Rightarrow> 'w \<Rightarrow> 's result \<times> 'w" where
  "scan_ports net target [] w = (Inl NoLocalPortAvailable, w)"
| "scan_ports net target (p # ps) w =
     (case try_port net target p w of
        Continue w \<Rightarrow> scan_ports net target ps w
      | Stop r w \<Rightarrow> (r, w))"

lemma port_loop_scan:
  "port_loop net target start count offset ixs w =
     scan_ports net target (map (candidate_port start count offset) ixs) w"
  by (induction ixs arbitrary: w) (auto split: attempt.split)

lemma u16_below: "unat (p :: u16) < 65536"
  using unsigned_less [of p, where ?'a = nat] by simp

lemma unat_port_count:
  assumes "start \<le> (endp :: u16)"
  shows "unat ((ucast (endp - start) :: u32) + 1) = unat endp - unat start + 1"
proof -
  have bound: "unat endp - unat start < 65536" using u16_below [of endp] by simp
  then have "unat (ucast (endp - start) :: u32) = unat endp - unat start"
    using assms by (simp add: unsigned_ucast_eq unat_sub take_bit_nat_eq_self_iff)
  with bound show ?thesis by (simp add: unat_word_ariths)
qed

text \<open>No wrap-around: the candidates of a scan run upwards from a point of the range and wrap at its end.\<close>

lemma unat_candidate_port:
  assumes range: "start \<le> (endp :: u16)" and count: "count = (ucast (endp - start) :: u32) + 1"
    and offset: "offset < count" and i: "i < unat count"
  shows "unat (candidate_port start count offset (word_of_nat i)) =
    unat start + (unat offset + i) mod (unat endp - unat start + 1)"
proof -
  let ?n = "unat endp - unat start + 1"
  let ?k = "(unat offset + i) mod ?n"
  have n: "unat count = ?n" using unat_port_count [OF range] count by simp
  have e: "unat endp < 65536" by (rule u16_below)
  have o: "unat offset < ?n" using offset n by (simp add: word_less_nat_alt)
  have "unat (offset + word_of_nat i) = unat offset + i"
    using o i n e by (simp add: unat_word_ariths unat_of_nat)
  then have m: "unat ((offset + word_of_nat i) mod count) = ?k"
    by (simp add: unat_mod n)
  have lt: "?k < ?n" by (rule mod_less_divisor) simp
  with e have "?k < 65536" by linarith
  then have "unat (ucast ((offset + word_of_nat i) mod count) :: u16) = ?k"
    by (simp add: unsigned_ucast_eq m take_bit_nat_eq_self_iff del: Suc_eq_plus1 add_Suc_right)
  moreover have "unat start \<le> unat endp" using range by (simp add: word_le_nat_alt)
  then have "unat start + ?k < 65536" using lt e by linarith
  ultimately show ?thesis
    by (simp add: candidate_port_def unat_word_ariths)
qed

text \<open>Rotating a range visits each of its points once.\<close>

lemma mod_add_left_cancel:
  assumes "(k + i) mod n = (k + j) mod (n :: nat)" and "0 < n"
  shows "i mod n = j mod n"
proof -
  have "(k * (n - 1) + (k + x)) mod n = x mod n" for x
  proof -
    have "k * (n - 1) + (k + x) = x + n * k" using assms(2) by (cases n) (simp_all add: algebra_simps)
    then show ?thesis by (simp only: mod_mult_self2)
  qed
  moreover have "(k * (n - 1) + (k + i)) mod n = (k * (n - 1) + (k + j)) mod n"
    using assms(1) by (metis mod_add_right_eq)
  ultimately show ?thesis by simp
qed

lemma rotation_inj: "inj_on (\<lambda>i. s + (k + i) mod n) {..<n :: nat}"
proof (rule inj_onI)
  fix i j
  assume "i \<in> {..<n}" and "j \<in> {..<n}" and "s + (k + i) mod n = s + (k + j) mod n"
  then show "i = j" using mod_add_left_cancel [of k i n j] by simp
qed

lemma rotation_image: "(\<lambda>i. (k + i) mod n) ` {..<n :: nat} = {..<n}"
  using rotation_inj [of 0 k n] by (intro card_subset_eq) (auto simp: card_image)

definition scan_order :: "u16 \<Rightarrow> u32 \<Rightarrow> u32 \<Rightarrow> u16 list" where
  "scan_order start count offset = map (\<lambda>i. candidate_port start count offset (word_of_nat i)) [0..<unat count]"

lemma connect_with_port_range_scan:
  "connect_with_port_range net target start endp w =
     (let count = (ucast (endp - start) :: u32) + 1; (offset, w) = gen_range net count w
      in scan_ports net target (scan_order start count offset) w)"
  by (simp add: connect_with_port_range_def scan_order_def port_loop_scan comp_def Let_def split: prod.split)

lemma unat_image_range: "unat ` {a..b :: u16} = {unat a..unat b}"
proof (intro equalityI subsetI)
  fix m
  assume m: "m \<in> {unat a..unat b}"
  then have "m < 65536" using u16_below [of b] by simp
  then have "unat (word_of_nat m :: u16) = m" by (simp add: unat_of_nat)
  with m show "m \<in> unat ` {a..b}"
    by (intro image_eqI [of _ _ "word_of_nat m"]) (simp_all add: word_le_nat_alt)
qed (auto simp: word_le_nat_alt)

lemma scan_order_permutes:
  assumes range: "start \<le> (endp :: u16)" and count: "count = (ucast (endp - start) :: u32) + 1"
    and offset: "offset < count"
  shows "distinct (scan_order start count offset) \<and> set (scan_order start count offset) = {start..endp}"
proof -
  let ?n = "unat endp - unat start + 1"
  let ?f = "\<lambda>i. (unat offset + i) mod ?n"
  let ?order = "scan_order start count offset"
  have n: "unat count = ?n" using unat_port_count [OF range] count by simp
  have "unat (candidate_port start count offset (word_of_nat i)) = unat start + ?f i" if "i < ?n" for i
    using unat_candidate_port [OF range count offset, of i] that n by simp
  then have vals: "map unat ?order = map (\<lambda>i. unat start + ?f i) [0..<?n]"
    unfolding scan_order_def n map_map by (intro map_cong) auto
  have "inj_on (\<lambda>i. unat start + ?f i) {..<?n}"
    by (rule rotation_inj)
  then have "distinct (map unat ?order)"
    unfolding vals by (simp add: distinct_map atLeast0LessThan del: upt_Suc)
  then have "distinct ?order" by (simp add: distinct_map)
  moreover have "unat ` set ?order = unat ` {start..endp}"
  proof -
    have "unat ` set ?order = (\<lambda>i. unat start + ?f i) ` {..<?n}"
      using arg_cong [OF vals, of set] by (simp add: atLeast0LessThan del: upt_Suc)
    also have "\<dots> = (\<lambda>k. unat start + k) ` ?f ` {..<?n}" by (simp only: image_image)
    also have "\<dots> = (\<lambda>k. unat start + k) ` {0..<?n}" by (simp only: rotation_image atLeast0LessThan)
    also have "\<dots> = {unat start..unat endp}"
      using range by (simp only: image_add_atLeastLessThan) (auto simp: word_le_nat_alt)
    finally show ?thesis by (simp only: unat_image_range)
  qed
  then have "set ?order = {start..endp}" by (simp add: inj_image_eq_iff)
  ultimately show ?thesis by blast
qed

lemma scan_ports_outcome:
  assumes "scan_ports net target ps w = (r, w')"
  shows "(\<exists>p \<in> set ps. \<exists>w0. try_port net target p w0 = Stop r w') \<or>
    (r = Inl NoLocalPortAvailable \<and> (\<forall>p \<in> set ps. \<exists>w0 w1. try_port net target p w0 = Continue w1))"
  using assms
proof (induction ps arbitrary: w)
  case (Cons p ps)
  show ?case
  proof (cases "try_port net target p w")
    case (Continue w1)
    with Cons.prems have "scan_ports net target ps w1 = (r, w')" by simp
    from Cons.IH [OF this] Continue show ?thesis by auto
  next
    case (Stop r' w1)
    with Cons.prems show ?thesis by auto
  qed
qed auto

lemma try_port_stream:
  "try_port net target p w0 = Stop (Inr stream) w' \<Longrightarrow>
   \<exists>sock w1 w2 sock'. new_socket net target w0 = (Inr sock, w1) \<and>
     socket_bind net sock (bind_addr target p) w1 = (Inr sock', w2) \<and>
     socket_connect net sock' target w2 = (Inr stream, w')"
  by (auto simp: try_port_def split: prod.splits sum.splits if_splits)

lemma try_port_not_exhausted: "try_port net target p w0 \<noteq> Stop (Inl NoLocalPortAvailable) w'"
  by (auto simp: try_port_def split: prod.splits sum.splits)

text \<open>The one law the function needs of its surroundings: a random number drawn from \<open>0..count\<close> is below \<open>count\<close>.\<close>

locale port_sockets =
  fixes net :: "('w, 'sock, 's) sockets"
  assumes gen_range_below: "0 < count \<Longrightarrow> gen_range net count w = (offset, w') \<Longrightarrow> offset < count"
begin

lemma connect_scans_range:
  assumes "start \<le> endp"
  shows "\<exists>ps w0. distinct ps \<and> set ps = {start..endp} \<and>
    connect_with_port_range net target start endp w = scan_ports net target ps w0"
proof -
  let ?count = "(ucast (endp - start) :: u32) + 1"
  obtain offset w0 where draw: "gen_range net ?count w = (offset, w0)" by fastforce
  have "0 < ?count" using unat_port_count [OF assms] by (simp add: word_less_nat_alt)
  from gen_range_below [OF this draw] have "offset < ?count" .
  with scan_order_permutes [OF assms refl] draw show ?thesis
    by (auto simp: connect_with_port_range_scan Let_def)
qed

end

section \<open>A concrete instance\<close>

text \<open>A host on which the ports of a list are taken; its state records the ports asked for.\<close>

definition busy_host :: "u16 list \<Rightarrow> (u16 list, u16, u16) sockets" where
  "busy_host busy =
     \<lparr>tcp_socket_new_v4 = (\<lambda>w. (Inr 0, w)), tcp_socket_new_v6 = (\<lambda>w. (Inr 0, w)),
      socket_bind = (\<lambda>_ a w. case a of
          SockV4 _ p \<Rightarrow> (if p \<in> set busy then Inl (IoError AddrInUse ''in use'') else Inr p, w @ [p])
        | SockV6 _ p \<Rightarrow> (if p \<in> set busy then Inl (IoError AddrInUse ''in use'') else Inr p, w @ [p])),
      socket_connect = (\<lambda>sock _ w. (Inr sock, w)),
      gen_range = (\<lambda>count w. (count - 1, w))\<rparr>"

interpretation busy_host: port_sockets "busy_host busy" for busy
proof unfold_locales
  fix count offset :: u32 and w w'
  assume "0 < count" and "gen_range (busy_host busy) count w = (offset, w')"
  then show "offset < count" by (simp add: busy_host_def) unat_arith
qed

section \<open>Properties\<close>

text \<open>C22. The scan of the port range: whatever the random starting point, every port of the range is tried at most
  once, none outside the range is tried, and no 16- or 32-bit operation on the way wraps around.\<close>

theorem port_scan_permutes_range:
  assumes "start \<le> (endp :: u16)" and "offset < (ucast (endp - start) :: u32) + 1"
  shows "distinct (map (candidate_port start ((ucast (endp - start) :: u32) + 1) offset)
      (map word_of_nat [0..<unat ((ucast (endp - start) :: u32) + 1)])) \<and>
    set (map (candidate_port start ((ucast (endp - start) :: u32) + 1) offset)
      (map word_of_nat [0..<unat ((ucast (endp - start) :: u32) + 1)])) = {start..endp}"
  using scan_order_permutes [OF assms(1) refl assms(2)] by (simp only: scan_order_def map_map comp_def)

theorem port_scan_permutes_range_witness:
  "(65530 :: u16) \<le> 65535 \<and> (4 :: u32) < (ucast ((65535 :: u16) - 65530) :: u32) + 1 \<and>
   set (map (candidate_port 65530 ((ucast ((65535 :: u16) - 65530) :: u32) + 1) 4)
     (map word_of_nat [0..<unat ((ucast ((65535 :: u16) - 65530) :: u32) + 1)])) = {65530..65535}"
proof -
  have "(65530 :: u16) \<le> 65535" and "(4 :: u32) < (ucast ((65535 :: u16) - 65530) :: u32) + 1"
    by simp_all
  then show ?thesis using port_scan_permutes_range [of 65530 65535 4] by blast
qed

text \<open>C23. The outcome of the scan: a stream that is returned was bound to a port of the range and connected; an error
  other than exhaustion came from an attempt on a port of the range; and \<open>NoLocalPortAvailable\<close> is returned only after
  an attempt on every port of the range has failed.\<close>

theorem port_range_outcome:
  assumes "port_sockets net" and "start \<le> endp"
    and "connect_with_port_range net target start endp w = (r, w')"
  shows "(case r of
      Inr stream \<Rightarrow> \<exists>p \<in> {start..endp}. \<exists>sock sock' w1 w2.
        socket_bind net sock (bind_addr target p) w1 = (Inr sock', w2) \<and>
        socket_connect net sock' target w2 = (Inr stream, w')
    | Inl NoLocalPortAvailable \<Rightarrow> \<forall>p \<in> {start..endp}. \<exists>w0 w1. try_port net target p w0 = Continue w1
    | Inl e \<Rightarrow> \<exists>p \<in> {start..endp}. \<exists>w0. try_port net target p w0 = Stop (Inl e) w')"
proof -
  from port_sockets.connect_scans_range [OF assms(1,2)] obtain ps w0 where
    "set ps = {start..endp}" "connect_with_port_range net target start endp w = scan_ports net target ps w0"
    by blast
  with scan_ports_outcome [of net target ps w0 r w'] assms(3)
  have "(\<exists>p \<in> {start..endp}. \<exists>w0. try_port net target p w0 = Stop r w') \<or>
    (r = Inl NoLocalPortAvailable \<and> (\<forall>p \<in> {start..endp}. \<exists>w0 w1. try_port net target p w0 = Continue w1))"
    by simp
  then show ?thesis
  proof
    assume "\<exists>p \<in> {start..endp}. \<exists>w0. try_port net target p w0 = Stop r w'"
    then obtain p w0 where p: "p \<in> {start..endp}" "try_port net target p w0 = Stop r w'" by blast
    show ?thesis
    proof (cases r)
      case (Inl e)
      with p try_port_not_exhausted [of net target p w0 w'] show ?thesis by (auto split: error.split)
    next
      case (Inr stream)
      with p(2) have "try_port net target p w0 = Stop (Inr stream) w'" by simp
      from try_port_stream [OF this] p(1) show ?thesis unfolding Inr sum.case by blast
    qed
  qed auto
qed

theorem port_range_outcome_witness:
  "port_sockets (busy_host [45300]) \<and> (45300 :: u16) \<le> 45301 \<and>
   connect_with_port_range (busy_host [45300]) (SockV4 [127, 0, 0, 1] 5044) 45300 45301 [] = (Inr 45301, [45301]) \<and>
   (\<exists>p \<in> {45300..45301}. \<exists>sock sock' w1 w2.
      socket_bind (busy_host [45300]) sock (bind_addr (SockV4 [127, 0, 0, 1] 5044) p) w1 = (Inr sock', w2) \<and>
      socket_connect (busy_host [45300]) sock' (SockV4 [127, 0, 0, 1] 5044) w2 = (Inr 45301, [45301]))"
proof -
  have run: "connect_with_port_range (busy_host [45300]) (SockV4 [127, 0, 0, 1] 5044) 45300 45301 []
      = (Inr 45301, [45301])"
    by (simp add: connect_with_port_range_def busy_host_def candidate_port_def try_port_def upt_rec)
  from port_range_outcome [OF busy_host.port_sockets_axioms _ run] run busy_host.port_sockets_axioms
  show ?thesis by simp
qed

end
