(* ===== verification/Server.thy ===== *)
theory Server
  imports Connection Port_Range "HOL-Library.Multiset"
begin

text \<open>
  The server (\<^verbatim>\<open>src/server.rs\<close>): \<open>ServerBuilder\<close> with its setters and \<open>bind\<close>, the accept loop, the connection
  tasks it spawns with their \<open>ActiveGuard\<close>, and the \<open>Server\<close> handle with \<open>recv\<close>, \<open>active_connections\<close> and \<open>Drop\<close>.

  The parts run concurrently and share a bounded channel of batches, the one-shot channels of the acknowledgements,
  a shutdown signal and an atomic counter. \<open>sys\<close> is that shared state with the state of every live task; one step
  of the system (\<open>server_step\<close>) runs one part from one \<open>await\<close> to the next, in any interleaving. The guards of the
  steps are what \<^verbatim>\<open>tokio\<close> documents of its channels: a send completes when there is room and fails when the receiver
  has gone, a receive yields \<open>None\<close> when every sender has gone. When there is room is for the channel to say: the rule is a
  parameter, the field \<open>admits\<close> that \<open>mpsc::channel\<close> gives at \<open>bind\<close>; nothing but the theorem on a full channel uses the
  rule that \<^verbatim>\<open>tokio\<close> documents (\<open>room_below\<close>). A \<open>select!\<close> may take a later branch although an
  earlier one has become ready since it was polled, so \<open>biased\<close> excludes no step here.
\<close>

section \<open>Builder\<close>

record 'acceptor server_builder =
  sb_keepalive :: "nat option"
  sb_channel_capacity :: usize
  sb_max_frame_size :: usize
  sb_tls :: "'acceptor option"

definition server_builder_default :: "'acceptor server_builder" where
  "server_builder_default =
     \<lparr>sb_keepalive = Some (15 * 1000000000), sb_channel_capacity = 128,
      sb_max_frame_size = DEFAULT_MAX_FRAME_SIZE, sb_tls = None\<rparr>"

definition keepalive :: "nat \<Rightarrow> 'acceptor server_builder \<Rightarrow> 'acceptor server_builder" where
  "keepalive interval self = self\<lparr>sb_keepalive := Some interval\<rparr>"

definition no_keepalive :: "'acceptor server_builder \<Rightarrow> 'acceptor server_builder" where
  "no_keepalive self = self\<lparr>sb_keepalive := None\<rparr>"

definition channel_capacity :: "usize \<Rightarrow> 'acceptor server_builder \<Rightarrow> 'acceptor server_builder" where
  "channel_capacity n self = self\<lparr>sb_channel_capacity := n\<rparr>"

definition server_max_frame_size :: "usize \<Rightarrow> 'acceptor server_builder \<Rightarrow> 'acceptor server_builder" where
  "server_max_frame_size n self = self\<lparr>sb_max_frame_size := n\<rparr>"

definition server_tls :: "'acceptor \<Rightarrow> 'acceptor server_builder \<Rightarrow> 'acceptor server_builder" where
  "server_tls acceptor self = self\<lparr>sb_tls := Some acceptor\<rparr>"

section \<open>The shared state\<close>

datatype task = Handshaking | Serving conn_state

record sys =
  accepting :: bool
  shutdown :: bool
  receiving :: bool
  tasks :: "nat \<Rightarrow> task option"
  next_task :: nat
  active :: "64 word"
  senders :: nat
  admits :: "nat \<Rightarrow> bool"
  queue :: "batch list"
  held :: "batch list"
  chans :: oneshots
  next_chan :: nat

text \<open>The system once \<open>bind\<close> has spawned the accept loop; the loop owns the first sender of the batch channel.\<close>

definition serving :: "(nat \<Rightarrow> bool) \<Rightarrow> sys" where
  "serving adm =
     \<lparr>accepting = True, shutdown = False, receiving = True, tasks = Map.empty, next_task = 0, active = 0,
      senders = 1, admits = adm, queue = [], held = [], chans = (\<lambda>_. Pending), next_chan = 0\<rparr>"

text \<open>
  What \<open>bind\<close> uses of \<^verbatim>\<open>tokio\<close>: the listening socket, its address, and \<open>mpsc::channel\<close>, which panics (\<open>None\<close>) on a
  capacity it does not support and otherwise gives a channel with its rule of admission: whether it takes one more batch
  when it holds a given number of them. The rule that \<^verbatim>\<open>tokio\<close> documents is \<open>room_below\<close>.
\<close>

record ('w, 'a, 'l) listening =
  tcp_bind :: "'a \<Rightarrow> 'w \<Rightarrow> (io_error + 'l) \<times> 'w"
  listener_addr :: "'l \<Rightarrow> 'w \<Rightarrow> (io_error + socket_addr) \<times> 'w"
  mpsc_channel :: "usize \<Rightarrow> (nat \<Rightarrow> bool) option"

definition room_below :: "usize \<Rightarrow> nat \<Rightarrow> bool" where
  "room_below cap n \<longleftrightarrow> n < cap"

record 'acceptor server =
  srv_local_addr :: socket_addr
  srv_cfg :: connection_config
  srv_tls :: "'acceptor option"

text \<open>\<open>None\<close> is a panic.\<close>

definition builder_bind ::
    "('w, 'a, 'l) listening \<Rightarrow> 'acceptor server_builder \<Rightarrow> 'a \<Rightarrow> 'w \<Rightarrow>
     (('acceptor server \<times> sys) result \<times> 'w) option" where
  "builder_bind net self addr w =
     (case tcp_bind net addr w of
        (Inl e, w) \<Rightarrow> Some (Inl (Io e), w)
      | (Inr listener, w) \<Rightarrow>
          (case listener_addr net listener w of
             (Inl e, w) \<Rightarrow> Some (Inl (Io e), w)
           | (Inr local, w) \<Rightarrow>
               (case mpsc_channel net (sb_channel_capacity self) of
                  None \<Rightarrow> None
                | Some adm \<Rightarrow>
                    Some (Inr (\<lparr>srv_local_addr = local,
                                srv_cfg = \<lparr>conn_max_frame_size = sb_max_frame_size self,
                                           conn_keepalive = sb_keepalive self\<rparr>,
                                srv_tls = sb_tls self\<rparr>, serving adm), w))))"

definition server_builder_new :: "'acceptor server_builder" where
  "server_builder_new = server_builder_default"

definition server_bind ::
    "('w, 'a, 'l) listening \<Rightarrow> 'a \<Rightarrow> 'w \<Rightarrow> (('acceptor server \<times> sys) result \<times> 'w) option" where
  "server_bind net addr w = builder_bind net server_builder_default addr w"

definition local_addr :: "'acceptor server \<Rightarrow> socket_addr" where
  "local_addr self = srv_local_addr self"

definition active_connections :: "sys \<Rightarrow> 64 word" where
  "active_connections s = active s"

section \<open>The accept loop and the tasks\<close>

definition guard_new :: "64 word \<Rightarrow> 64 word" where
  "guard_new counter = counter + 1"

definition guard_drop :: "64 word \<Rightarrow> 64 word" where
  "guard_drop counter = counter - 1"

text \<open>What a poll of the accept loop's \<open>select!\<close> yields.\<close>

datatype accept_event = ShutdownSeen | Accepted "(io_error, unit) sum"

text \<open>Leaving the loop drops its sender of the batch channel.\<close>

definition leave_accept_loop :: "sys \<Rightarrow> sys" where
  "leave_accept_loop s = s\<lparr>accepting := False, senders := senders s - 1\<rparr>"

fun accept_step :: "bool \<Rightarrow> accept_event \<Rightarrow> sys \<Rightarrow> sys option" where
  "accept_step tls ShutdownSeen s = (if accepting s \<and> shutdown s then Some (leave_accept_loop s) else None)"
| "accept_step tls (Accepted (Inr _)) s =
     (if accepting s
      then Some (s\<lparr>senders := senders s + 1, active := guard_new (active s),
                   tasks := (tasks s)(next_task s \<mapsto> (if tls then Handshaking else Serving AwaitWindow)),
                   next_task := next_task s + 1\<rparr>)
      else None)"
| "accept_step tls (Accepted (Inl _)) s = (if accepting s then Some (leave_accept_loop s) else None)"

text \<open>The end of a task: its receiver (if it has one), its sender and its guard are dropped.\<close>

fun receiver :: "conn_state \<Rightarrow> nat option" where
  "receiver (Dispatching b rx) = Some rx"
| "receiver (AwaitAck rx seq) = Some rx"
| "receiver (SendingKeepalive rx seq) = Some rx"
| "receiver _ = None"

definition drop_receiver :: "nat option \<Rightarrow> oneshots \<Rightarrow> oneshots" where
  "drop_receiver rx ch =
     (case rx of
        Some rx \<Rightarrow> if ch rx = Pending then ch(rx := ReceiverGone) else ch
      | None \<Rightarrow> ch)"

definition end_task :: "nat \<Rightarrow> nat option \<Rightarrow> sys \<Rightarrow> sys" where
  "end_task i rx s =
     s\<lparr>tasks := (tasks s)(i := None), senders := senders s - 1, active := guard_drop (active s),
       chans := drop_receiver rx (chans s)\<rparr>"

text \<open>What an event of a connection needs of the channels and does to them.\<close>

fun channel_effect :: "conn_state \<Rightarrow> conn_event \<Rightarrow> sys \<Rightarrow> sys option" where
  "channel_effect (Dispatching b rx) (BatchSent ok) s =
     (if ok then
        (if receiving s \<and> admits s (length (queue s)) then Some (s\<lparr>queue := queue s @ [b]\<rparr>) else None)
      else (if receiving s then None else Some (s\<lparr>chans := snd (batch_drop b (chans s))\<rparr>)))"
| "channel_effect (AwaitAck rx seq) (AckReceived r) s =
     (case chans s rx of
        Sent v \<Rightarrow> if r = Some v then Some s else None
      | SenderGone \<Rightarrow> if r = None then Some s else None
      | _ \<Rightarrow> None)"
| "channel_effect _ _ s = Some s"

text \<open>The task after a step of \<open>run_connection\<close>: a state that dispatches has just created its channel.\<close>

definition settle :: "nat \<Rightarrow> conn_state \<Rightarrow> conn_state \<Rightarrow> sys \<Rightarrow> sys" where
  "settle i old new s =
     (case new of
        Returned r \<Rightarrow> end_task i (receiver old) s
      | Panicked \<Rightarrow> end_task i (receiver old) s
      | Dispatching b rx \<Rightarrow>
          s\<lparr>tasks := (tasks s)(i \<mapsto> Serving new), chans := (chans s)(rx := Pending), next_chan := next_chan s + 1\<rparr>
      | _ \<Rightarrow> s\<lparr>tasks := (tasks s)(i \<mapsto> Serving new)\<rparr>)"

datatype task_event = Handshaken "(io_error, unit) sum" | Conn conn_event

fun task_step ::
    "'d flate2 option \<Rightarrow> connection_config \<Rightarrow> nat \<Rightarrow> task_event \<Rightarrow> sys \<Rightarrow> sys option" where
  "task_step zl cfg i (Handshaken r) s =
     (case tasks s i of
        Some Handshaking \<Rightarrow>
          Some (case r of
                  Inr _ \<Rightarrow> s\<lparr>tasks := (tasks s)(i \<mapsto> Serving AwaitWindow)\<rparr>
                | Inl e \<Rightarrow> end_task i None s)
      | _ \<Rightarrow> None)"
| "task_step zl cfg i (Conn ev) s =
     (case tasks s i of
        Some (Serving old) \<Rightarrow>
          do { new \<leftarrow> conn_step zl cfg (next_chan s) old ev;
               s \<leftarrow> channel_effect old ev s;
               Some (settle i old new s) }
      | _ \<Rightarrow> None)"

section \<open>The handle\<close>

text \<open>\<open>None\<close>: the receive is still waiting.\<close>

definition server_recv :: "sys \<Rightarrow> (batch option \<times> sys) option" where
  "server_recv s =
     (case queue s of
        b # q \<Rightarrow> Some (Some b, s\<lparr>queue := q\<rparr>)
      | [] \<Rightarrow> if senders s = 0 then Some (None, s) else None)"

text \<open>Dropping the handle signals the shutdown and drops the receiver, which drops the batches still queued.\<close>

definition server_drop :: "sys \<Rightarrow> sys" where
  "server_drop s =
     s\<lparr>shutdown := True, receiving := False, queue := [],
       chans := fold (\<lambda>b ch. snd (batch_drop b ch)) (queue s) (chans s)\<rparr>"

section \<open>The system\<close>

text \<open>The ways in which the application gives a batch up.\<close>

datatype release = ByAck | ByDrop | ByIntoEvents

fun release_batch :: "release \<Rightarrow> batch \<Rightarrow> oneshots \<Rightarrow> oneshots" where
  "release_batch ByAck b ch = batch_ack b ch"
| "release_batch ByDrop b ch = snd (batch_drop b ch)"
| "release_batch ByIntoEvents b ch = snd (batch_into_events b ch)"

datatype sys_event =
    Accept accept_event
  | Task nat task_event
  | Recv
  | Release release nat
  | DropServer

fun server_step ::
    "'d flate2 option \<Rightarrow> connection_config \<Rightarrow> bool \<Rightarrow> sys_event \<Rightarrow> sys \<Rightarrow> sys option" where
  "server_step zl cfg tls (Accept ev) s = accept_step tls ev s"
| "server_step zl cfg tls (Task i ev) s = task_step zl cfg i ev s"
| "server_step zl cfg tls Recv s =
     (if receiving s
      then case server_recv s of
             None \<Rightarrow> None
           | Some (None, s) \<Rightarrow> Some s
           | Some (Some b, s) \<Rightarrow> Some (s\<lparr>held := held s @ [b]\<rparr>)
      else None)"
| "server_step zl cfg tls (Release how k) s =
     (if k < length (held s)
      then Some (s\<lparr>held := take k (held s) @ drop (Suc k) (held s),
                   chans := release_batch how (held s ! k) (chans s)\<rparr>)
      else None)"
| "server_step zl cfg tls DropServer s = (if receiving s then Some (server_drop s) else None)"

fun server_run ::
    "'d flate2 option \<Rightarrow> connection_config \<Rightarrow> bool \<Rightarrow> sys_event list \<Rightarrow> sys \<Rightarrow> sys option" where
  "server_run zl cfg tls [] s = Some s"
| "server_run zl cfg tls (ev # evs) s = do { s \<leftarrow> server_step zl cfg tls ev s; server_run zl cfg tls evs s }"

inductive reachable :: "'d flate2 option \<Rightarrow> connection_config \<Rightarrow> bool \<Rightarrow> (nat \<Rightarrow> bool) \<Rightarrow> sys \<Rightarrow> bool"
  for zl cfg tls adm where
  bound: "reachable zl cfg tls adm (serving adm)"
| step: "reachable zl cfg tls adm s \<Longrightarrow> server_step zl cfg tls ev s = Some s' \<Longrightarrow> reachable zl cfg tls adm s'"


section \<open>Ownership of acknowledgements\<close>

text \<open>
  \<open>linked bs ch nc ts\<close>: the batches \<open>bs\<close> that are queued or held by the application, the one-shot channels, the number
  of channels created and the live tasks fit together. Each batch has a channel of its own that has not been
  answered; each task that waits for an acknowledgement waits on a channel that either carries the last sequence
  number of its batch or whose batch is still among \<open>bs\<close>; no two tasks wait on the same channel.
\<close>

definition await_ok :: "batch list \<Rightarrow> oneshots \<Rightarrow> nat \<Rightarrow> nat \<Rightarrow> u32 \<Rightarrow> bool" where
  "await_ok bs ch nc rx seq \<longleftrightarrow> rx < nc \<and>
     (ch rx = Sent seq \<or> ch rx = Pending \<and> (\<exists>b \<in> set bs. ack b = Some rx \<and> last_seq b = seq))"

fun task_ok :: "batch list \<Rightarrow> oneshots \<Rightarrow> nat \<Rightarrow> conn_state \<Rightarrow> bool" where
  "task_ok bs ch nc (Dispatching b rx) =
     (rx < nc \<and> ack b = Some rx \<and> ch rx = Pending \<and> (\<forall>b' \<in> set bs. ack b' \<noteq> Some rx))"
| "task_ok bs ch nc (AwaitAck rx seq) = await_ok bs ch nc rx seq"
| "task_ok bs ch nc (SendingKeepalive rx seq) = await_ok bs ch nc rx seq"
| "task_ok bs ch nc (Returned r) = False"
| "task_ok bs ch nc Panicked = False"
| "task_ok bs ch nc _ = True"

definition waits :: "(nat \<Rightarrow> task option) \<Rightarrow> nat \<Rightarrow> nat \<Rightarrow> bool" where
  "waits ts i rx \<longleftrightarrow> (\<exists>t. ts i = Some (Serving t) \<and> receiver t = Some rx)"

definition linked :: "batch list \<Rightarrow> oneshots \<Rightarrow> nat \<Rightarrow> (nat \<Rightarrow> task option) \<Rightarrow> bool" where
  "linked bs ch nc ts \<longleftrightarrow>
     distinct (map ack bs) \<and>
     (\<forall>b \<in> set bs. \<exists>tx < nc. ack b = Some tx \<and> (ch tx = Pending \<or> ch tx = ReceiverGone)) \<and>
     (\<forall>i t. ts i = Some (Serving t) \<longrightarrow> task_ok bs ch nc t) \<and>
     (\<forall>i j rx. waits ts i rx \<longrightarrow> waits ts j rx \<longrightarrow> i = j)"

lemma linkedI:
  assumes "distinct (map ack bs)"
    and "\<And>b. b \<in> set bs \<Longrightarrow> \<exists>tx < nc. ack b = Some tx \<and> (ch tx = Pending \<or> ch tx = ReceiverGone)"
    and "\<And>i t. ts i = Some (Serving t) \<Longrightarrow> task_ok bs ch nc t"
    and "\<And>i j rx. waits ts i rx \<Longrightarrow> waits ts j rx \<Longrightarrow> i = j"
  shows "linked bs ch nc ts"
  using assms by (simp add: linked_def)

lemma linkedD:
  assumes "linked bs ch nc ts"
  shows "distinct (map ack bs)"
    and "b \<in> set bs \<Longrightarrow> \<exists>tx < nc. ack b = Some tx \<and> (ch tx = Pending \<or> ch tx = ReceiverGone)"
    and "ts i = Some (Serving t) \<Longrightarrow> task_ok bs ch nc t"
    and "waits ts i rx \<Longrightarrow> waits ts j rx \<Longrightarrow> i = j"
  using assms unfolding linked_def by blast+

lemma waits_update:
  "waits (ts(i := x)) j rx \<longleftrightarrow>
     (if j = i then \<exists>t. x = Some (Serving t) \<and> receiver t = Some rx else waits ts j rx)"
  by (simp add: waits_def)

lemma task_ok_cong:
  assumes "task_ok bs ch nc t" and "set bs = set bs'" and "nc \<le> nc'"
    and "\<And>rx. receiver t = Some rx \<Longrightarrow> ch' rx = ch rx"
  shows "task_ok bs' ch' nc' t"
  using assms by (cases t) (auto simp: await_ok_def)

lemma linked_perm:
  assumes "linked bs ch nc ts" and "mset bs' = mset bs"
  shows "linked bs' ch nc ts"
proof (rule linkedI)
  from assms(2) have set: "set bs' = set bs" by (rule mset_eq_setD)
  from assms(2) have "mset (map ack bs') = mset (map ack bs)" by simp
  then show "distinct (map ack bs')" using linkedD(1) [OF assms(1)] by (metis mset_eq_imp_distinct_iff)
  show "task_ok bs' ch nc t" if "ts i = Some (Serving t)" for i t
    by (rule task_ok_cong [OF linkedD(3) [OF assms(1) that]]) (simp_all add: set)
  show "\<exists>tx < nc. ack b = Some tx \<and> (ch tx = Pending \<or> ch tx = ReceiverGone)" if "b \<in> set bs'" for b
    using linkedD(2) [OF assms(1)] that set by simp
qed (use linkedD(4) [OF assms(1)] in blast)

text \<open>A task moves to a state without a receiver, or ends.\<close>

lemma linked_quiet:
  assumes "linked bs ch nc ts" and "\<And>t. x = Some (Serving t) \<Longrightarrow> receiver t = None \<and> task_ok bs ch nc t"
  shows "linked bs ch nc (ts(i := x))"
proof (rule linkedI)
  show "task_ok bs ch nc t" if "(ts(i := x)) j = Some (Serving t)" for j t
    using that assms(2) linkedD(3) [OF assms(1)] by (auto split: if_splits)
  show "j = k" if "waits (ts(i := x)) j rx" "waits (ts(i := x)) k rx" for j k rx
    using that assms(2) linkedD(4) [OF assms(1)] by (auto simp: waits_update split: if_splits)
qed (use linkedD(1,2) [OF assms(1)] in auto)

text \<open>A task keeps its receiver.\<close>

lemma linked_keep:
  assumes "linked bs ch nc ts" and "ts i = Some (Serving t)" and "receiver t' = receiver t" and "task_ok bs ch nc t'"
  shows "linked bs ch nc (ts(i \<mapsto> Serving t'))"
proof (rule linkedI)
  have "waits (ts(i \<mapsto> Serving t')) = waits ts"
    using assms(2,3) by (auto simp: waits_def fun_eq_iff)
  then show "j = k" if "waits (ts(i \<mapsto> Serving t')) j rx" "waits (ts(i \<mapsto> Serving t')) k rx" for j k rx
    using that linkedD(4) [OF assms(1)] by metis
  show "task_ok bs ch nc u" if "(ts(i \<mapsto> Serving t')) j = Some (Serving u)" for j u
    using that assms(4) linkedD(3) [OF assms(1)] by (auto split: if_splits)
qed (use linkedD(1,2) [OF assms(1)] in auto)

text \<open>A channel that belongs to no waiting task but \<open>i\<close> may be closed once \<open>i\<close> is gone.\<close>

lemma linked_end:
  assumes "linked bs ch nc ts" and "ts i = Some (Serving t)"
  shows "linked bs (drop_receiver (receiver t) ch) nc (ts(i := None))"
proof (rule linkedI)
  show "\<exists>tx < nc. ack b = Some tx \<and>
      (drop_receiver (receiver t) ch tx = Pending \<or> drop_receiver (receiver t) ch tx = ReceiverGone)"
    if b: "b \<in> set bs" for b
  proof -
    obtain tx where "tx < nc" "ack b = Some tx" "ch tx = Pending \<or> ch tx = ReceiverGone"
      using linkedD(2) [OF assms(1) b] by blast
    then show ?thesis by (intro exI [of _ tx]) (auto simp: drop_receiver_def split: option.split)
  qed
  show "task_ok bs (drop_receiver (receiver t) ch) nc u" if "(ts(i := None)) j = Some (Serving u)" for j u
  proof -
    from that have j: "j \<noteq> i" "ts j = Some (Serving u)" by (auto split: if_splits)
    have "drop_receiver (receiver t) ch rx = ch rx" if "receiver u = Some rx" for rx
    proof -
      have "receiver t \<noteq> Some rx"
        using linkedD(4) [OF assms(1), of i rx j] j assms(2) that by (auto simp: waits_def)
      then show ?thesis by (auto simp: drop_receiver_def split: option.split)
    qed
    then show ?thesis by (intro task_ok_cong [OF linkedD(3) [OF assms(1) j(2)]]) auto
  qed
  show "j = k" if "waits (ts(i := None)) j rx" "waits (ts(i := None)) k rx" for j k rx
    using that linkedD(4) [OF assms(1)] by (auto simp: waits_update split: if_splits)
qed (use linkedD(1) [OF assms(1)] in auto)


text \<open>A task creates a channel and a batch for it.\<close>

lemma linked_new:
  assumes "linked bs ch nc ts"
  shows "linked bs (ch(nc := Pending)) (nc + 1) (ts(i \<mapsto> Serving (Dispatching (batch_new es seq nc) nc)))"
proof (rule linkedI)
  have fresh: "ack b \<noteq> Some nc" if "b \<in> set bs" for b
    using linkedD(2) [OF assms that] by auto
  show "\<exists>tx < nc + 1. ack b = Some tx \<and> ((ch(nc := Pending)) tx = Pending \<or> (ch(nc := Pending)) tx = ReceiverGone)"
    if "b \<in> set bs" for b
    using linkedD(2) [OF assms that] by fastforce
  have old: "rx < nc" if "ts j = Some (Serving u)" "receiver u = Some rx" for j u rx
    using linkedD(3) [OF assms that(1)] that(2) by (cases u) (auto simp: await_ok_def)
  show "task_ok bs (ch(nc := Pending)) (nc + 1) u"
    if "(ts(i \<mapsto> Serving (Dispatching (batch_new es seq nc) nc))) j = Some (Serving u)" for j u
  proof (cases "j = i")
    case True
    with that fresh show ?thesis by (auto simp: batch_new_def)
  next
    case False
    with that have u: "ts j = Some (Serving u)" by simp
    from old [OF u] show ?thesis by (intro task_ok_cong [OF linkedD(3) [OF assms u]]) auto
  qed
  have "\<not> waits ts j nc" for j using old by (auto simp: waits_def)
  then show "j = k"
    if "waits (ts(i \<mapsto> Serving (Dispatching (batch_new es seq nc) nc))) j rx"
      "waits (ts(i \<mapsto> Serving (Dispatching (batch_new es seq nc) nc))) k rx" for j k rx
    using that linkedD(4) [OF assms] by (auto simp: waits_update split: if_splits)
qed (use linkedD(1) [OF assms] in auto)

text \<open>A task hands its batch over.\<close>

lemma linked_handover:
  assumes "linked bs ch nc ts" and "ts i = Some (Serving (Dispatching b rx))"
  shows "linked (bs @ [b]) ch nc (ts(i \<mapsto> Serving (AwaitAck rx (last_seq b))))"
proof (rule linkedI)
  from linkedD(3) [OF assms] have b: "rx < nc" "ack b = Some rx" "ch rx = Pending" "\<forall>b' \<in> set bs. ack b' \<noteq> Some rx"
    by simp_all
  then show "distinct (map ack (bs @ [b]))" using linkedD(1) [OF assms(1)] by auto
  show "\<exists>tx < nc. ack b' = Some tx \<and> (ch tx = Pending \<or> ch tx = ReceiverGone)" if "b' \<in> set (bs @ [b])" for b'
    using linkedD(2) [OF assms(1), of b'] that b by auto
  have same: "waits (ts(i \<mapsto> Serving (AwaitAck rx (last_seq b)))) = waits ts"
    using assms(2) by (auto simp: waits_def fun_eq_iff)
  then show "j = k" if "waits (ts(i \<mapsto> Serving (AwaitAck rx (last_seq b)))) j rx'"
      "waits (ts(i \<mapsto> Serving (AwaitAck rx (last_seq b)))) k rx'" for j k rx'
    using that linkedD(4) [OF assms(1)] by metis
  show "task_ok (bs @ [b]) ch nc u" if "(ts(i \<mapsto> Serving (AwaitAck rx (last_seq b)))) j = Some (Serving u)" for j u
  proof (cases "j = i")
    case True
    with that b show ?thesis by (auto simp: await_ok_def)
  next
    case False
    with that have u: "ts j = Some (Serving u)" by simp
    have "receiver u \<noteq> Some rx"
      using linkedD(4) [OF assms(1), of i rx j] False u assms(2) by (auto simp: waits_def)
    with linkedD(3) [OF assms(1) u] b(2) show ?thesis by (cases u) (auto simp: await_ok_def)
  qed
qed

text \<open>A batch is given up, in whatever way meets the contract: its task finds its own last sequence number.\<close>

context batch_release
begin

lemma linked_release:
  assumes "linked (bs @ b # bs') ch nc ts"
  shows "linked (bs @ bs') (release b ch) nc ts"
proof (rule linkedI)
  obtain tx where tx: "tx < nc" "ack b = Some tx" "ch tx = Pending \<or> ch tx = ReceiverGone"
    using linkedD(2) [OF assms, of b] by auto
  from linkedD(1) [OF assms] tx(2) have other: "\<forall>b' \<in> set (bs @ bs'). ack b' \<noteq> Some tx" by force
  show "\<exists>tx < nc. ack b' = Some tx \<and> (release b ch tx = Pending \<or> release b ch tx = ReceiverGone)"
    if b': "b' \<in> set (bs @ bs')" for b'
  proof -
    obtain tx' where "tx' < nc" "ack b' = Some tx'" "ch tx' = Pending \<or> ch tx' = ReceiverGone"
      using linkedD(2) [OF assms, of b'] b' by auto
    moreover from this other b' tx(2) have "release b ch tx' = ch tx'" by (intro release_other) auto
    ultimately show ?thesis by auto
  qed
  show "task_ok (bs @ bs') (release b ch) nc u" if "ts j = Some (Serving u)" for j u
  proof (cases "receiver u = Some tx")
    case True
    with linkedD(3) [OF assms that] tx(2,3) resolves [OF tx(2)] linkedD(1) [OF assms] other show ?thesis
      by (cases u) (auto simp: await_ok_def)
  next
    case False
    then have keep: "release b ch rx = ch rx" if "receiver u = Some rx" for rx
      using that tx(2) by (intro release_other) auto
    from linkedD(3) [OF assms that] tx(2) keep False show ?thesis
      by (cases u) (auto simp: await_ok_def)
  qed
qed (use linkedD(1,4) [OF assms] in auto)

end

lemma linked_drop_all:
  "linked (bs @ bs') ch nc ts \<Longrightarrow> linked bs' (fold (\<lambda>b ch. snd (batch_drop b ch)) bs ch) nc ts"
proof (induction bs arbitrary: ch)
  case (Cons b bs)
  from drop_release.linked_release [of "[]" b "bs @ bs'"] Cons show ?case by simp
qed simp


section \<open>The invariant\<close>

text \<open>The counters count: live tasks, senders of the batch channel; and a channel without a receiver is empty.\<close>

definition gauged :: "sys \<Rightarrow> bool" where
  "gauged s \<longleftrightarrow>
     finite (dom (tasks s)) \<and> (\<forall>i \<in> dom (tasks s). i < next_task s) \<and>
     active s = word_of_nat (card (dom (tasks s))) \<and>
     senders s = (if accepting s then 1 else 0) + card (dom (tasks s)) \<and>
     (receiving s \<or> queue s = [])"

definition sys_inv :: "sys \<Rightarrow> bool" where
  "sys_inv s \<longleftrightarrow> gauged s \<and> linked (queue s @ held s) (chans s) (next_chan s) (tasks s)"

lemma gauged_move:
  assumes "gauged s" and "tasks s i = Some t"
  shows "gauged (s\<lparr>tasks := (tasks s)(i \<mapsto> t'), chans := ch, next_chan := nc\<rparr>)"
    and "receiving s \<or> q = [] \<Longrightarrow>
      gauged (s\<lparr>tasks := (tasks s)(i \<mapsto> t'), queue := q\<rparr>)"
    and "gauged (s\<lparr>tasks := (tasks s)(i \<mapsto> t')\<rparr>)"
  using assms by (auto simp: gauged_def insert_absorb domI)

lemma gauged_end:
  assumes "gauged s" and "tasks s i = Some t"
  shows "gauged (end_task i rx s)"
proof -
  from assms have i: "i \<in> dom (tasks s)" "finite (dom (tasks s))" by (auto simp: gauged_def)
  then obtain n where n: "card (dom (tasks s)) = Suc n" by (metis card_Suc_Diff1)
  with i have "card (dom (tasks s) - {i}) = n" by simp
  with assms n show ?thesis by (auto simp: gauged_def end_task_def guard_drop_def)
qed

lemma accept_step_inv:
  assumes "accept_step tls ev s = Some s'" and "sys_inv s"
  shows "sys_inv s'"
proof (cases "(tls, ev, s)" rule: accept_step.cases)
  case (2 tls1 u s1)
  let ?t = "if tls then Handshaking else Serving AwaitWindow"
  from 2 assms(1) have s': "s' = s\<lparr>senders := senders s + 1, active := guard_new (active s),
      tasks := (tasks s)(next_task s \<mapsto> ?t), next_task := next_task s + 1\<rparr>" and "accepting s"
    by (auto split: if_splits)
  from assms(2) have g: "gauged s" and l: "linked (queue s @ held s) (chans s) (next_chan s) (tasks s)"
    by (simp_all add: sys_inv_def)
  from g have "next_task s \<notin> dom (tasks s)" by (auto simp: gauged_def)
  with g have "card (dom ((tasks s)(next_task s \<mapsto> ?t))) = Suc (card (dom (tasks s)))"
    by (simp add: gauged_def)
  with g have "gauged s'" unfolding gauged_def s'
    by (auto simp: guard_new_def less_Suc_eq simp del: dom_fun_upd)
  moreover have "linked (queue s @ held s) (chans s) (next_chan s) ((tasks s)(next_task s \<mapsto> ?t))"
    by (rule linked_quiet [OF l]) (simp split: if_splits)
  ultimately show ?thesis by (simp add: sys_inv_def s')
qed (use assms in \<open>auto simp: sys_inv_def gauged_def leave_accept_loop_def split: if_splits\<close>)


lemma conn_step_next:
  assumes "conn_step zl cfg tx old (NextItem item) = Some new"
  obtains (collecting) st where "receiver old = None" "new = Collecting st"
  | (dispatching) es seq where "receiver old = None" "new = Dispatching (batch_new es seq tx) tx"
  | (returned) r where "new = Returned r"
  using assms conn_step_no_panic [OF assms]
  by (cases old)
    (auto simp: window_loop_def split: option.splits sum.splits frame.splits if_splits)

lemma channel_effect_next [simp]: "channel_effect old (NextItem item) s = Some s"
  by (cases old) auto

lemma settle_simps [simp]:
  "settle i old (Returned r) s = end_task i (receiver old) s"
  "settle i old (Collecting st) s = s\<lparr>tasks := (tasks s)(i \<mapsto> Serving (Collecting st))\<rparr>"
  "settle i old AwaitWindow s = s\<lparr>tasks := (tasks s)(i \<mapsto> Serving AwaitWindow)\<rparr>"
  "settle i old (AwaitAck rx seq) s = s\<lparr>tasks := (tasks s)(i \<mapsto> Serving (AwaitAck rx seq))\<rparr>"
  "settle i old (SendingKeepalive rx seq) s = s\<lparr>tasks := (tasks s)(i \<mapsto> Serving (SendingKeepalive rx seq))\<rparr>"
  "settle i old (SendingAck a) s = s\<lparr>tasks := (tasks s)(i \<mapsto> Serving (SendingAck a))\<rparr>"
  "settle i old (Dispatching b rx) s =
     s\<lparr>tasks := (tasks s)(i \<mapsto> Serving (Dispatching b rx)), chans := (chans s)(rx := Pending),
       next_chan := next_chan s + 1\<rparr>"
  by (simp_all add: settle_def)

lemma sys_inv_quiet:
  assumes "sys_inv s" and "tasks s i = Some t" and "u = AwaitWindow \<or> (\<exists>st. u = Collecting st) \<or> (\<exists>a. u = SendingAck a)"
  shows "sys_inv (s\<lparr>tasks := (tasks s)(i \<mapsto> Serving u)\<rparr>)"
  using assms by (auto simp: sys_inv_def intro: gauged_move(3) linked_quiet)

lemma sys_inv_keep:
  assumes "sys_inv s" and "tasks s i = Some (Serving t)" and "receiver u = receiver t"
    and "task_ok (queue s @ held s) (chans s) (next_chan s) u"
  shows "sys_inv (s\<lparr>tasks := (tasks s)(i \<mapsto> Serving u)\<rparr>)"
  using assms by (auto simp: sys_inv_def intro: gauged_move(3) linked_keep)

lemma sys_inv_end:
  assumes "sys_inv s" and "tasks s i = Some (Serving t)"
  shows "sys_inv (end_task i (receiver t) s)"
  using gauged_end [of s i "Serving t" "receiver t"] linked_end [of "queue s @ held s" "chans s" "next_chan s" "tasks s" i t] assms
  by (simp add: sys_inv_def end_task_def)

lemma sys_inv_task_ok:
  "sys_inv s \<Longrightarrow> tasks s i = Some (Serving t) \<Longrightarrow> task_ok (queue s @ held s) (chans s) (next_chan s) t"
  by (auto simp: sys_inv_def dest: linkedD(3))

text \<open>The two outcomes of \<open>out.send(batch)\<close>.\<close>

lemma batch_sent_inv:
  assumes "sys_inv s" and t: "tasks s i = Some (Serving (Dispatching b rx))"
    and room: "receiving s"
  shows "sys_inv (s\<lparr>queue := queue s @ [b], tasks := (tasks s)(i \<mapsto> Serving (AwaitAck rx (last_seq b)))\<rparr>)"
proof -
  from assms(1) have g: "gauged s" and l: "linked (queue s @ held s) (chans s) (next_chan s) (tasks s)"
    by (simp_all add: sys_inv_def)
  have "linked ((queue s @ [b]) @ held s) (chans s) (next_chan s)
      ((tasks s)(i \<mapsto> Serving (AwaitAck rx (last_seq b))))"
    by (rule linked_perm [OF linked_handover [OF l t]]) simp
  with gauged_move(2) [OF g t, of "queue s @ [b]"] room show ?thesis
    by (simp add: sys_inv_def gauged_def)
qed

lemma batch_refused_inv:
  assumes "sys_inv s" and t: "tasks s i = Some (Serving (Dispatching b rx))"
  shows "sys_inv (end_task i (Some rx) (s\<lparr>chans := snd (batch_drop b (chans s))\<rparr>))"
proof -
  let ?ch = "snd (batch_drop b (chans s))" and ?ts = "(tasks s)(i \<mapsto> Serving (AwaitAck rx (last_seq b)))"
  from assms(1) have g: "gauged s" and l: "linked (queue s @ held s) (chans s) (next_chan s) (tasks s)"
    by (simp_all add: sys_inv_def)
  from g have "gauged (s\<lparr>chans := ?ch\<rparr>)" by (simp add: gauged_def)
  then have "gauged (end_task i (Some rx) (s\<lparr>chans := ?ch\<rparr>))" by (rule gauged_end) (simp add: t)
  moreover have "linked (queue s @ held s) ?ch (next_chan s) ?ts"
    using drop_release.linked_release [of "queue s @ held s" b "[]"] linked_handover [OF l t] by simp
  then have "linked (queue s @ held s) (drop_receiver (Some rx) ?ch) (next_chan s) (?ts(i := None))"
    using linked_end [of "queue s @ held s" ?ch "next_chan s" ?ts i "AwaitAck rx (last_seq b)"] by simp
  ultimately show ?thesis by (simp add: sys_inv_def end_task_def)
qed

lemma frame_sent_inv:
  assumes inv: "sys_inv s" and t: "tasks s i = Some (Serving old)" and new: "conn_step zl cfg tx old (FrameSent r) = Some new"
  shows "sys_inv (settle i old new s)"
proof -
  from new consider (ka) rx seq where "old = SendingKeepalive rx seq" | (ack) a where "old = SendingAck a"
    by (cases old) auto
  then show ?thesis
  proof cases
    case ka
    with new inv t sys_inv_task_ok [OF inv t] sys_inv_end [OF inv t] sys_inv_keep [OF inv t, of "AwaitAck rx seq"] show ?thesis
      by (auto split: sum.splits)
  next
    case ack
    with new inv t sys_inv_end [OF inv t] show ?thesis by (auto split: sum.splits intro: sys_inv_quiet)
  qed
qed

lemma conn_inv:
  assumes inv: "sys_inv s" and t: "tasks s i = Some (Serving old)"
    and new: "conn_step zl cfg (next_chan s) old ev = Some new" and eff: "channel_effect old ev s = Some s1"
  shows "sys_inv (settle i old new s1)"
proof (cases ev)
  case (NextItem item)
  with eff have s1: "s1 = s" by simp
  from new NextItem have "conn_step zl cfg (next_chan s) old (NextItem item) = Some new" by simp
  then show ?thesis
  proof (cases rule: conn_step_next)
    case (dispatching es seq)
    from inv have g: "gauged s" and l: "linked (queue s @ held s) (chans s) (next_chan s) (tasks s)"
      by (simp_all add: sys_inv_def)
    from gauged_move(1) [OF g t] linked_new [OF l] show ?thesis
      by (simp add: dispatching s1 sys_inv_def)
  qed (use inv t s1 in \<open>auto intro: sys_inv_quiet sys_inv_end\<close>)
next
  case (BatchSent ok)
  with new obtain b rx where old: "old = Dispatching b rx" by (cases old) auto
  show ?thesis
  proof (cases ok)
    case True
    with old new eff BatchSent batch_sent_inv [OF inv, of i b rx] t show ?thesis by (auto split: if_splits)
  next
    case False
    with old new eff BatchSent batch_refused_inv [OF inv, of i b rx] t show ?thesis by (auto split: if_splits)
  qed
next
  case (AckReceived r)
  with new obtain rx seq where "old = AwaitAck rx seq" by (cases old) auto
  with new eff AckReceived obtain a where "s1 = s" "new = SendingAck a"
    by (auto split: option.splits oneshot.splits if_splits)
  with sys_inv_quiet [OF inv t, of "SendingAck a"] show ?thesis by simp
next
  case KeepaliveElapsed
  with new obtain rx seq where old: "old = AwaitAck rx seq" by (cases old) auto
  with new eff KeepaliveElapsed have "s1 = s" "new = SendingKeepalive rx seq" by (auto split: if_splits)
  with inv t old sys_inv_task_ok [OF inv t] show ?thesis by (auto intro: sys_inv_keep)
next
  case (FrameSent r)
  with eff have "s1 = s" by (cases old) auto
  with frame_sent_inv [OF inv t] new FrameSent show ?thesis by blast
qed

lemma task_step_inv:
  assumes "task_step zl cfg i ev s = Some s'" and inv: "sys_inv s"
  shows "sys_inv s'"
proof (cases ev)
  case (Handshaken r)
  with assms(1) have t: "tasks s i = Some Handshaking"
    by (auto split: option.splits task.splits)
  from inv have g: "gauged s" and l: "linked (queue s @ held s) (chans s) (next_chan s) (tasks s)"
    by (simp_all add: sys_inv_def)
  from gauged_end [OF g t, of None] linked_quiet [OF l, of None i] have "sys_inv (end_task i None s)"
    by (simp add: sys_inv_def end_task_def drop_receiver_def)
  moreover have "sys_inv (s\<lparr>tasks := (tasks s)(i \<mapsto> Serving AwaitWindow)\<rparr>)"
    by (rule sys_inv_quiet [OF inv t]) simp
  ultimately show ?thesis using assms(1) Handshaken t by (auto split: sum.splits)
next
  case (Conn e)
  with assms(1) obtain old new s1 where "tasks s i = Some (Serving old)"
      "conn_step zl cfg (next_chan s) old e = Some new" "channel_effect old e s = Some s1" "s' = settle i old new s1"
    by (auto simp: bind_eq_Some_conv split: option.splits task.splits)
  with conn_inv [OF inv] show ?thesis by blast
qed

lemma release_batch_linked:
  "linked (bs @ b # bs') ch nc ts \<Longrightarrow> linked (bs @ bs') (release_batch how b ch) nc ts"
  using ack_release.linked_release drop_release.linked_release into_events_release.linked_release
  by (cases how) auto

lemma server_step_inv:
  assumes "server_step zl cfg tls ev s = Some s'" and inv: "sys_inv s"
  shows "sys_inv s'"
proof -
  from inv have g: "gauged s" and l: "linked (queue s @ held s) (chans s) (next_chan s) (tasks s)"
    by (simp_all add: sys_inv_def)
  show ?thesis
  proof (cases ev)
    case Recv
    show ?thesis
    proof (cases "queue s")
      case Nil
      with Recv assms show ?thesis by (auto simp: server_recv_def split: if_splits)
    next
      case (Cons b q)
      with Recv assms(1) have s': "s' = s\<lparr>queue := q, held := held s @ [b]\<rparr>"
        by (auto simp: server_recv_def split: if_splits)
      have "linked (q @ held s @ [b]) (chans s) (next_chan s) (tasks s)"
        by (rule linked_perm [OF l]) (simp add: Cons)
      moreover from g Cons Recv assms(1) have "gauged s'" by (auto simp: gauged_def s' split: if_splits)
      ultimately show ?thesis by (simp add: sys_inv_def s')
    qed
  next
    case (Release how k)
    with assms(1) have k: "k < length (held s)" by (auto split: if_splits)
    then have "linked ((queue s @ take k (held s)) @ held s ! k # drop (Suc k) (held s)) (chans s) (next_chan s) (tasks s)"
      using l by (simp add: id_take_nth_drop [symmetric])
    from release_batch_linked [OF this] g k Release assms(1) show ?thesis
      by (auto simp: sys_inv_def gauged_def)
  next
    case DropServer
    with assms(1) g linked_drop_all [OF l] show ?thesis
      by (auto simp: server_drop_def sys_inv_def gauged_def split: if_splits)
  qed (use assms accept_step_inv task_step_inv in auto)
qed

lemma serving_inv: "sys_inv (serving adm)"
  by (auto simp: serving_def sys_inv_def gauged_def linked_def waits_def)

lemma reachable_inv: "reachable zl cfg tls adm s \<Longrightarrow> sys_inv s"
  by (induction rule: reachable.induct) (auto intro: serving_inv server_step_inv)


text \<open>A task that learns of the acknowledgement of its batch finds the batch gone.\<close>

lemma ack_received_released:
  assumes inv: "sys_inv s" and t: "tasks s i = Some (Serving (AwaitAck rx seq))"
    and step: "server_step zl cfg tls (Task i (Conn (AckReceived r))) s = Some s'"
  shows "r = Some seq \<and> tasks s' i = Some (Serving (SendingAck seq)) \<and> Some rx \<notin> ack ` set (queue s @ held s)"
proof -
  from sys_inv_task_ok [OF inv t] have ok: "await_ok (queue s @ held s) (chans s) (next_chan s) rx seq" by simp
  with t step have "chans s rx = Sent seq"
    by (auto simp: await_ok_def bind_eq_Some_conv)
  with t step linkedD(2) [of "queue s @ held s" "chans s" "next_chan s" "tasks s"] inv show ?thesis
    by (fastforce simp: bind_eq_Some_conv sys_inv_def split: if_splits)
qed

lemma reachable_run:
  "reachable zl cfg tls adm s \<Longrightarrow> server_run zl cfg tls evs s = Some s' \<Longrightarrow> reachable zl cfg tls adm s'"
  by (induction evs arbitrary: s) (auto simp: bind_eq_Some_conv intro: reachable.step)

text \<open>What no step but an accepted connection changes.\<close>

abbreviation same_frame :: "sys \<Rightarrow> sys \<Rightarrow> bool" where
  "same_frame s s' \<equiv> admits s' = admits s \<and> accepting s' = accepting s \<and> next_task s' = next_task s"

lemma channel_effect_frame:
  "channel_effect old e s = Some s' \<Longrightarrow> same_frame s s' \<and> tasks s' = tasks s"
  by (cases "(old, e, s)" rule: channel_effect.cases) (auto split: if_splits oneshot.splits)

lemma settle_frame: "same_frame s (settle i old new s) \<and> dom (tasks (settle i old new s)) \<subseteq> insert i (dom (tasks s))"
  by (cases new) (auto simp: settle_def end_task_def)

lemma task_step_frame:
  assumes "task_step zl cfg i ev s = Some s'"
  shows "same_frame s s' \<and> dom (tasks s') \<subseteq> dom (tasks s)"
proof (cases ev)
  case (Handshaken r)
  with assms show ?thesis
    by (auto simp: end_task_def split: option.splits task.splits sum.splits if_splits)
next
  case (Conn e)
  with assms obtain old new s1 where "tasks s i = Some (Serving old)"
      "channel_effect old e s = Some s1" "s' = settle i old new s1"
    by (auto simp: bind_eq_Some_conv split: option.splits task.splits)
  with channel_effect_frame [of old e s s1] settle_frame [where s = s1 and i = i and old = old and new = new] show ?thesis by auto
qed

lemma server_step_frame:
  assumes "server_step zl cfg tls ev s = Some s'"
  shows "admits s' = admits s"
    "\<not> accepting s \<Longrightarrow> \<not> accepting s' \<and> next_task s' = next_task s \<and> dom (tasks s') \<subseteq> dom (tasks s)"
proof -
  have "admits s' = admits s \<and>
      (\<not> accepting s \<longrightarrow> \<not> accepting s' \<and> next_task s' = next_task s \<and> dom (tasks s') \<subseteq> dom (tasks s))"
  proof (cases ev)
    case (Accept e)
    with assms show ?thesis
      by (cases "(tls, e, s)" rule: accept_step.cases) (auto simp: leave_accept_loop_def split: if_splits)
  next
    case (Task i e)
    with assms have "task_step zl cfg i e s = Some s'" by simp
    from task_step_frame [OF this] show ?thesis by simp
  qed (use assms in \<open>auto simp: server_recv_def server_drop_def split: if_splits list.splits\<close>)
  then show "admits s' = admits s"
    "\<not> accepting s \<Longrightarrow> \<not> accepting s' \<and> next_task s' = next_task s \<and> dom (tasks s') \<subseteq> dom (tasks s)"
    by auto
qed

lemma reachable_admits: "reachable zl cfg tls adm s \<Longrightarrow> admits s = adm"
  by (induction rule: reachable.induct) (auto simp: serving_def dest: server_step_frame(1))

lemma run_not_accepting:
  "server_run zl cfg tls evs s = Some s' \<Longrightarrow> \<not> accepting s \<Longrightarrow>
   \<not> accepting s' \<and> next_task s' = next_task s \<and> dom (tasks s') \<subseteq> dom (tasks s)"
proof (induction evs arbitrary: s)
  case (Cons ev evs)
  then obtain s1 where "server_step zl cfg tls ev s = Some s1" "server_run zl cfg tls evs s1 = Some s'"
    by (auto simp: bind_eq_Some_conv)
  with Cons.IH [of s1] server_step_frame(2) [of zl cfg tls ev s s1] Cons.prems(2) show ?case by auto
qed simp

text \<open>An application that receives everything queued, and one that answers for a batch it holds.\<close>

lemma server_run_append:
  "server_run zl cfg tls (evs @ evs') s = do { s \<leftarrow> server_run zl cfg tls evs s; server_run zl cfg tls evs' s }"
  by (induction evs arbitrary: s) (auto split: bind_splits)

lemma recv_all:
  assumes "receiving s \<or> queue s = []"
  shows "server_run zl cfg tls (replicate (length (queue s)) Recv) s =
    Some (s\<lparr>queue := [], held := held s @ queue s\<rparr>)"
  using assms
proof (induction "queue s" arbitrary: s)
  case Nil
  then show ?case by (simp add: Nil.hyps [symmetric])
next
  case (Cons b q)
  let ?s = "s\<lparr>queue := q, held := held s @ [b]\<rparr>"
  have "server_step zl cfg tls Recv s = Some ?s"
    using Cons.prems Cons.hyps(2) [symmetric] by (simp add: server_recv_def)
  with Cons.hyps(1) [of ?s] Cons.prems Cons.hyps(2) [symmetric] show ?case by simp
qed

lemma release_answers:
  assumes "k < length (held s)" and "ack (held s ! k) = Some rx" and "chans s rx = Pending"
    and "tasks s i = Some (Serving (AwaitAck rx (last_seq (held s ! k))))"
  shows "\<exists>s'. server_run zl cfg tls
      [Release ByAck k, Task i (Conn (AckReceived (Some (last_seq (held s ! k)))))] s = Some s' \<and>
    tasks s' i = Some (Serving (SendingAck (last_seq (held s ! k))))"
  using assms ack_release.resolves [OF assms(2), of "chans s"] by simp

text \<open>Every task and every batch of the system is well formed.\<close>

definition sys_ok :: "sys \<Rightarrow> bool" where
  "sys_ok s \<longleftrightarrow> (\<forall>i t. tasks s i = Some (Serving t) \<longrightarrow> conn_ok t) \<and> (\<forall>b \<in> set (queue s @ held s). batch_ok b)"

lemma settle_ok:
  assumes "conn_ok new" and "sys_ok s"
  shows "sys_ok (settle i old new s)"
  using assms by (cases new) (auto simp: sys_ok_def end_task_def settle_def split: if_splits)

lemma channel_effect_ok:
  "channel_effect old e s = Some s' \<Longrightarrow> conn_ok old \<Longrightarrow> sys_ok s \<Longrightarrow> sys_ok s'"
  by (cases "(old, e, s)" rule: channel_effect.cases) (auto simp: sys_ok_def split: if_splits oneshot.splits)

lemma task_step_ok:
  assumes "task_step zl cfg i ev s = Some s'" and "sys_ok s"
  shows "sys_ok s'"
proof (cases ev)
  case (Handshaken r)
  with assms show ?thesis
    by (auto simp: sys_ok_def end_task_def split: option.splits task.splits sum.splits if_splits)
next
  case (Conn e)
  with assms obtain old new s1 where t: "tasks s i = Some (Serving old)"
      "conn_step zl cfg (next_chan s) old e = Some new" "channel_effect old e s = Some s1" "s' = settle i old new s1"
    by (auto simp: bind_eq_Some_conv split: option.splits task.splits)
  from assms(2) t(1) have "conn_ok old" by (simp add: sys_ok_def)
  with conn_step_ok [OF t(2)] channel_effect_ok [OF t(3)] assms(2) t(4) show ?thesis by (simp add: settle_ok)
qed

lemma server_step_ok:
  assumes "server_step zl cfg tls ev s = Some s'" and "sys_ok s"
  shows "sys_ok s'"
proof (cases ev)
  case (Accept e)
  with assms show ?thesis
    by (cases "(tls, e, s)" rule: accept_step.cases) (auto simp: sys_ok_def leave_accept_loop_def split: if_splits)
next
  case (Release how k)
  with assms show ?thesis
    by (auto simp: sys_ok_def split: if_splits dest!: in_set_takeD in_set_dropD)
next
  case (Task i e)
  with assms task_step_ok show ?thesis by auto
qed (use assms in \<open>auto simp: sys_ok_def server_recv_def server_drop_def split: if_splits list.splits\<close>)

lemma serving_ok: "sys_ok (serving adm)"
  by (simp add: serving_def sys_ok_def)

lemma reachable_ok: "reachable zl cfg tls adm s \<Longrightarrow> sys_ok s"
  by (induction rule: reachable.induct) (auto intro: server_step_ok serving_ok)

section \<open>Examples\<close>

text \<open>A server with room for one batch, and the run in which its first connection delivers a batch of one event.\<close>

definition example_cfg :: connection_config where
  "example_cfg = \<lparr>conn_max_frame_size = 1024, conn_keepalive = Some 15\<rparr>"

definition example_delivery :: "sys_event list" where
  "example_delivery =
     [Accept (Accepted (Inr ())), Task 0 (Conn (NextItem (Some (Inr (Window 1))))),
      Task 0 (Conn (NextItem (Some (Inr (Json 1 [123, 125]))))), Task 0 (Conn (BatchSent True))]"

definition example_delivered :: sys where
  "example_delivered =
     \<lparr>accepting = True, shutdown = False, receiving = True, tasks = [0 \<mapsto> Serving (AwaitAck 0 1)], next_task = 1,
      active = 1, senders = 2, admits = room_below 1, queue = [batch_new [[123, 125]] 1 0], held = [],
      chans = (\<lambda>_. Pending), next_chan = 1\<rparr>"

lemma example_delivery_run:
  "server_run no_zlib example_cfg False example_delivery (serving (room_below 1)) = Some example_delivered"
  by (simp add: example_delivery_def example_delivered_def serving_def start_window_def window_loop_def
      push_json_def guard_new_def batch_new_def room_below_def fun_eq_iff)

definition example_released :: sys where
  "example_released = example_delivered\<lparr>queue := [], chans := (\<lambda>_. Pending)(0 := Sent 1)\<rparr>"

lemma example_reachable: "reachable no_zlib example_cfg False (room_below 1) example_delivered"
  by (rule reachable_run [OF reachable.bound example_delivery_run])


lemma example_released_reachable: "reachable no_zlib example_cfg False (room_below 1) example_released"
proof (rule reachable_run [OF example_reachable])
  show "server_run no_zlib example_cfg False [Recv, Release ByAck 0] example_delivered = Some example_released"
    by (simp add: example_released_def example_delivered_def server_recv_def batch_ack_def batch_drop_def
        oneshot_send_def batch_new_def)
qed

section \<open>Properties\<close>

text \<open>C21. The connection gauge: in every reachable state \<open>active_connections\<close> is the number of connection tasks that are
  still running, and none of those has returned or panicked.\<close>

theorem active_connections_exact:
  assumes "reachable zl cfg tls adm s"
  shows "finite (dom (tasks s)) \<and> active_connections s = word_of_nat (card (dom (tasks s))) \<and>
    (\<forall>i r. tasks s i \<noteq> Some (Serving (Returned r)) \<and> tasks s i \<noteq> Some (Serving Panicked))"
  using reachable_inv [OF assms] sys_inv_task_ok [of s]
  by (fastforce simp: active_connections_def sys_inv_def gauged_def)

theorem active_connections_exact_witness:
  "active_connections example_delivered = word_of_nat (card (dom (tasks example_delivered))) \<and>
   active_connections example_delivered = 1"
  using active_connections_exact [OF example_reachable]
  by (simp add: active_connections_def example_delivered_def)

text \<open>C10. No acknowledgement before its batch: when a connection task learns that its batch has been answered, the
  batch is neither queued nor held by the application any more, and what the task then writes is the last sequence
  number of that batch. The arm of the code for a sender that vanished without answering is never taken.\<close>

theorem ack_only_after_release:
  assumes "reachable zl cfg tls adm s" and "tasks s i = Some (Serving (AwaitAck rx seq))"
    and "server_step zl cfg tls (Task i (Conn (AckReceived r))) s = Some s'"
  shows "r = Some seq \<and> tasks s' i = Some (Serving (SendingAck seq)) \<and>
    Some rx \<notin> ack ` set (queue s @ held s)"
  by (rule ack_received_released [OF reachable_inv [OF assms(1)] assms(2,3)])

theorem ack_only_after_release_witness:
  "Some (1 :: u32) = Some 1 \<and>
   tasks (example_released\<lparr>tasks := [0 \<mapsto> Serving (SendingAck 1)]\<rparr>) 0 = Some (Serving (SendingAck 1)) \<and>
   Some 0 \<notin> ack ` set (queue example_released @ held example_released)"
  by (rule ack_only_after_release [OF example_released_reachable, of 0])
    (simp_all add: example_released_def example_delivered_def)

text \<open>C14. No batch is lost: a connection that waits for an acknowledgement either has it waiting in its channel, or its
  batch is queued or held by the application, and giving that batch up, in any of the three ways, delivers it.\<close>

theorem pending_ack_has_batch:
  assumes "reachable zl cfg tls adm s" and "tasks s i = Some (Serving (AwaitAck rx seq))"
  shows "chans s rx = Sent seq \<or>
    (\<exists>b. b \<in> set (queue s @ held s) \<and> ack b = Some rx \<and> last_seq b = seq \<and>
       (\<forall>how. release_batch how b (chans s) rx = Sent seq))"
proof -
  from sys_inv_task_ok [OF reachable_inv [OF assms(1)] assms(2)]
  have ok: "await_ok (queue s @ held s) (chans s) (next_chan s) rx seq" by simp
  have "release_batch how b (chans s) rx = Sent (last_seq b)" if "ack b = Some rx" "chans s rx = Pending" for how b
    using that ack_release.resolves drop_release.resolves into_events_release.resolves by (cases how) auto
  with ok show ?thesis by (fastforce simp: await_ok_def)
qed

theorem pending_ack_has_batch_witness:
  "chans example_delivered 0 = Sent 1 \<or>
    (\<exists>b. b \<in> set (queue example_delivered @ held example_delivered) \<and> ack b = Some 0 \<and> last_seq b = 1 \<and>
       (\<forall>how. release_batch how b (chans example_delivered) 0 = Sent 1))"
  by (rule pending_ack_has_batch [OF example_reachable, of 0]) (simp add: example_delivered_def)


text \<open>C15. No connection is stuck: from every reachable state in which a connection waits for an acknowledgement, the
  application alone, by receiving what is queued and acknowledging the batch, brings it to write exactly that
  acknowledgement; no other connection has to move.\<close>

theorem ack_always_reachable:
  assumes "reachable zl cfg tls adm s" and "tasks s i = Some (Serving (AwaitAck rx seq))"
  shows "\<exists>evs s'. set evs \<subseteq> {Recv, Task i (Conn (AckReceived (Some seq)))} \<union> range (Release ByAck) \<and>
    server_run zl cfg tls evs s = Some s' \<and> tasks s' i = Some (Serving (SendingAck seq))"
proof -
  from reachable_inv [OF assms(1)] have inv: "sys_inv s" .
  from sys_inv_task_ok [OF inv assms(2)] have "await_ok (queue s @ held s) (chans s) (next_chan s) rx seq" by simp
  then consider (sent) "chans s rx = Sent seq"
    | (owned) b where "chans s rx = Pending" "b \<in> set (queue s @ held s)" "ack b = Some rx" "last_seq b = seq"
    by (auto simp: await_ok_def)
  then show ?thesis
  proof cases
    case sent
    with assms(2) show ?thesis
      by (intro exI [of _ "[Task i (Conn (AckReceived (Some seq)))]"]) simp
  next
    case owned
    let ?s = "s\<lparr>queue := [], held := held s @ queue s\<rparr>"
    from owned(2) obtain k where k: "k < length (held ?s)" "held ?s ! k = b"
      using in_set_conv_nth [of b "held ?s"] by auto
    let ?evs = "[Release ByAck k, Task i (Conn (AckReceived (Some seq)))]"
    obtain s' where "server_run zl cfg tls ?evs ?s = Some s'" "tasks s' i = Some (Serving (SendingAck seq))"
      using release_answers [of k ?s rx i zl cfg tls] k owned assms(2) by auto
    moreover have "server_run zl cfg tls (replicate (length (queue s)) Recv) s = Some ?s"
      using inv by (intro recv_all) (auto simp: sys_inv_def gauged_def)
    ultimately show ?thesis
      by (intro exI [of _ "replicate (length (queue s)) Recv @ ?evs"] exI [of _ s'])
        (auto simp: server_run_append simp del: server_run.simps server_step.simps)
  qed
qed

theorem ack_always_reachable_witness:
  "\<exists>evs s'. set evs \<subseteq> {Recv, Task 0 (Conn (AckReceived (Some 1)))} \<union> range (Release ByAck) \<and>
    server_run no_zlib example_cfg False evs example_delivered = Some s' \<and> tasks s' 0 = Some (Serving (SendingAck 1))"
  by (rule ack_always_reachable [OF example_reachable]) (simp add: example_delivered_def)

text \<open>C36. Shutting down answers for the application: dropping the server acknowledges, to its client, every batch that is
  still in the channel and that the application has never seen.\<close>

theorem drop_server_acks_queued:
  assumes "reachable zl cfg tls adm s" and "tasks s i = Some (Serving (AwaitAck rx seq))"
    and "b \<in> set (queue s)" and "ack b = Some rx"
  shows "\<exists>s'. server_step zl cfg tls DropServer s = Some s' \<and> chans s' rx = Sent seq \<and>
    server_step zl cfg tls (Task i (Conn (AckReceived (Some seq)))) s' =
      Some (s'\<lparr>tasks := (tasks s')(i \<mapsto> Serving (SendingAck seq))\<rparr>)"
proof -
  from reachable_inv [OF assms(1)] have inv: "sys_inv s" .
  with assms(3) have drop: "server_step zl cfg tls DropServer s = Some (server_drop s)"
    by (auto simp: sys_inv_def gauged_def)
  from sys_inv_task_ok [OF server_step_inv [OF drop inv], of i] assms(2)
  have "await_ok (held s) (chans (server_drop s)) (next_chan s) rx seq" by (simp add: server_drop_def)
  moreover have "\<forall>b' \<in> set (held s). ack b' \<noteq> Some rx"
  proof -
    from inv have "distinct (map ack (queue s @ held s))" unfolding sys_inv_def by (blast dest: linkedD(1))
    with assms(3,4) show ?thesis by (auto simp: disjoint_iff image_iff) metis
  qed
  ultimately have "chans (server_drop s) rx = Sent seq" by (auto simp: await_ok_def)
  with drop assms(2) show ?thesis by (simp add: server_drop_def)
qed

theorem drop_server_acks_queued_witness:
  "\<exists>s'. server_step no_zlib example_cfg False DropServer example_delivered = Some s' \<and> chans s' 0 = Sent 1 \<and>
    server_step no_zlib example_cfg False (Task 0 (Conn (AckReceived (Some 1)))) s' =
      Some (s'\<lparr>tasks := (tasks s')(0 \<mapsto> Serving (SendingAck 1))\<rparr>)"
  by (rule drop_server_acks_queued [OF example_reachable, of 0 0 1 "batch_new [[123, 125]] 1 0"])
    (simp_all add: example_delivered_def batch_new_def)

text \<open>C37. One failed \<open>accept\<close> ends the accept loop for good: whatever happens afterwards, no connection is accepted any
  more and the live tasks are among those of the moment of the failure.\<close>

theorem accept_failure_final:
  assumes "server_step zl cfg tls (Accept (Accepted (Inl e))) s = Some s1" and "server_run zl cfg tls evs s1 = Some s'"
  shows "\<not> accepting s' \<and> next_task s' = next_task s \<and> dom (tasks s') \<subseteq> dom (tasks s)"
proof -
  from assms(1) have "s1 = leave_accept_loop s" by (auto split: if_splits)
  with run_not_accepting [OF assms(2)] show ?thesis by (simp add: leave_accept_loop_def)
qed

theorem accept_failure_final_witness:
  "\<not> accepting (leave_accept_loop example_delivered) \<and>
   next_task (leave_accept_loop example_delivered) = next_task example_delivered \<and>
   dom (tasks (leave_accept_loop example_delivered)) \<subseteq> dom (tasks example_delivered)"
  by (rule accept_failure_final [of no_zlib example_cfg False "IoError (OtherKind 24) ''too many open files''" example_delivered _ "[]"])
    (simp_all add: example_delivered_def)

text \<open>C31. The end of the stream of batches: \<open>recv\<close> returns \<open>None\<close> exactly when the accept loop and every connection
  task have ended and nothing is queued.\<close>

theorem recv_none_iff:
  assumes "reachable zl cfg tls adm s"
  shows "server_recv s = Some (None, s') \<longleftrightarrow>
    s' = s \<and> queue s = [] \<and> \<not> accepting s \<and> dom (tasks s) = {}"
  using reachable_inv [OF assms]
  by (auto simp: server_recv_def sys_inv_def gauged_def split: list.split)

theorem recv_none_iff_witness:
  "server_recv (leave_accept_loop (serving (room_below 1))) = Some (None, leave_accept_loop (serving (room_below 1)))"
proof -
  have "reachable no_zlib example_cfg False (room_below 1) (leave_accept_loop (serving (room_below 1)))"
    by (rule reachable.step [OF reachable.bound, where ev = "Accept (Accepted (Inl (IoError (OtherKind 24) [])))"])
      (simp add: serving_def)
  from recv_none_iff [OF this] show ?thesis by (simp add: leave_accept_loop_def serving_def)
qed

text \<open>Binding: it panics only when \<open>mpsc::channel\<close> does so on the capacity; otherwise it reports the socket error or yields a
  server with the builder's settings and an idle system with the channel made for that capacity.\<close>

theorem builder_bind_outcome:
  "case builder_bind net self addr w of
     None \<Rightarrow> mpsc_channel net (sb_channel_capacity self) = None
   | Some (Inl e, w') \<Rightarrow> (\<exists>io. e = Io io)
   | Some (Inr (srv, s), w') \<Rightarrow>
       srv_cfg srv = \<lparr>conn_max_frame_size = sb_max_frame_size self, conn_keepalive = sb_keepalive self\<rparr> \<and>
       srv_tls srv = sb_tls self \<and> (\<exists>l w1. listener_addr net l w1 = (Inr (local_addr srv), w')) \<and>
       (\<exists>adm. mpsc_channel net (sb_channel_capacity self) = Some adm \<and>
          reachable (zl :: 'd flate2 option) (srv_cfg srv) (sb_tls self \<noteq> None) adm s)"
  by (auto simp: builder_bind_def local_addr_def intro!: reachable.bound
      split: prod.splits sum.splits option.splits if_splits)

text \<open>C20. Well-formed states: in every reachable state each batch that is queued or held is acknowledged by a number that
  covers its events, and each connection that collects has kept exactly as many events as it has counted, fewer than
  its window, under a sequence number at least that large.\<close>

theorem server_states_well_formed:
  assumes "reachable zl cfg tls adm s"
  shows "(\<forall>b. b \<in> set (queue s @ held s) \<longrightarrow> length (events b) \<le> unat (last_seq b)) \<and>
    (\<forall>i st. tasks s i = Some (Serving (Collecting st)) \<longrightarrow>
       length (c_events st) = unat (c_received st) \<and> c_received st < c_window st \<and> c_received st \<le> c_last_seq st)"
  using reachable_ok [OF assms] by (fastforce simp: sys_ok_def batch_ok_def collecting_ok_def counted_def)

theorem server_states_well_formed_witness:
  "length (events (batch_new [[123, 125]] 1 0)) \<le> unat (last_seq (batch_new [[123, 125]] 1 0)) \<and>
   batch_new [[123, 125]] 1 0 \<in> set (queue example_delivered)"
  using server_states_well_formed [OF example_reachable] by (simp add: example_delivered_def)

end
