(* ===== verification/Client.thy ===== *)
theory Client
  imports Codec Port_Range
begin

text \<open>
  The client (\<^verbatim>\<open>src/client.rs\<close>): \<open>ClientBuilder\<close> with its setters and \<open>connect\<close>, and \<open>Client\<close> with \<open>send\<close>,
  \<open>send_with_optional_timeout\<close>, \<open>flush_with_optional_timeout\<close>, \<open>connect\<close> and \<open>builder\<close>.

  Name resolution, sockets and TLS are the parameter \<open>network\<close>; \<open>serde_json::to_vec\<close> is the parameter \<open>to_vec\<close> of
  \<open>send\<close>. As on the server side \<open>send\<close> is a state machine with one state per \<open>await\<close>. The second component of
  its state, \<open>out\<close>, is everything the client has put into the write half of its \<open>Framed\<close> since it connected, in
  order: a completed \<open>feed\<close> appends the encoding of its frame, and a completed \<open>flush\<close> means that all of \<open>out\<close> has
  been handed to the stream. A \<open>feed\<close> that fails or times out has not taken its frame.
\<close>

section \<open>Builder and connection\<close>

type_synonym duration = nat

definition from_secs :: "nat \<Rightarrow> duration" where
  "from_secs s = s * 1000000000"

record 'conn client_builder =
  b_compression_level :: u32
  b_write_timeout :: "duration option"
  b_ack_timeout :: "duration option"
  b_local_port_range :: "(u16 \<times> u16) option"
  b_tls :: "('conn \<times> string) option"

definition client_builder_default :: "'conn client_builder" where
  "client_builder_default =
     \<lparr>b_compression_level = 3, b_write_timeout = None, b_ack_timeout = Some (from_secs 30),
      b_local_port_range = None, b_tls = None\<rparr>"

definition compression_level :: "u32 \<Rightarrow> 'conn client_builder \<Rightarrow> 'conn client_builder" where
  "compression_level level self = self\<lparr>b_compression_level := level\<rparr>"

definition write_timeout :: "duration \<Rightarrow> 'conn client_builder \<Rightarrow> 'conn client_builder" where
  "write_timeout d self = self\<lparr>b_write_timeout := Some d\<rparr>"

definition ack_timeout :: "duration \<Rightarrow> 'conn client_builder \<Rightarrow> 'conn client_builder" where
  "ack_timeout d self = self\<lparr>b_ack_timeout := Some d\<rparr>"

definition local_port_range :: "u16 \<Rightarrow> u16 \<Rightarrow> 'conn client_builder \<Rightarrow> 'conn client_builder" where
  "local_port_range start endp self = self\<lparr>b_local_port_range := Some (start, endp)\<rparr>"

definition client_tls :: "'conn \<Rightarrow> string \<Rightarrow> 'conn client_builder \<Rightarrow> 'conn client_builder" where
  "client_tls connector domain self = self\<lparr>b_tls := Some (connector, domain)\<rparr>"

record 's client =
  cl_stream :: 's
  cl_codec :: codec
  cl_compression_level :: u32
  cl_write_timeout :: "duration option"
  cl_ack_timeout :: "duration option"

record ('w, 'a, 'sock, 's, 'conn, 'name) network =
  sockets_of :: "('w, 'sock, 's) sockets"
  lookup_host :: "'a \<Rightarrow> 'w \<Rightarrow> (io_error + socket_addr list) \<times> 'w"
  tcp_connect :: "socket_addr \<Rightarrow> 'w \<Rightarrow> (io_error + 's) \<times> 'w"
  set_nodelay :: "'s \<Rightarrow> 'w \<Rightarrow> (io_error + unit) \<times> 'w"
  server_name :: "string \<Rightarrow> 'name option"
  tls_connect :: "'conn \<Rightarrow> 'name \<Rightarrow> 's \<Rightarrow> 'w \<Rightarrow> (io_error + 's) \<times> 'w"

definition open_stream ::
    "('w, 'a, 'sock, 's, 'conn, 'name) network \<Rightarrow> 'conn client_builder \<Rightarrow> socket_addr \<Rightarrow> 'w \<Rightarrow> 's result \<times> 'w" where
  "open_stream net self target w =
     (case b_local_port_range self of
        None \<Rightarrow> (case tcp_connect net target w of
                   (Inl e, w) \<Rightarrow> (Inl (Io e), w)
                 | (Inr stream, w) \<Rightarrow> (Inr stream, w))
      | Some (start, endp) \<Rightarrow> connect_with_port_range (sockets_of net) target start endp w)"

definition wrap_stream ::
    "('w, 'a, 'sock, 's, 'conn, 'name) network \<Rightarrow> 'conn client_builder \<Rightarrow> 's \<Rightarrow> 'w \<Rightarrow> 's result \<times> 'w" where
  "wrap_stream net self stream w =
     (case b_tls self of
        None \<Rightarrow> (Inr stream, w)
      | Some (connector, domain) \<Rightarrow>
          (case server_name net domain of
             None \<Rightarrow> (Inl (InvalidConfig ''invalid TLS server name''), w)
           | Some name \<Rightarrow>
               (case tls_connect net connector name stream w of
                  (Inl e, w) \<Rightarrow> (Inl (Io e), w)
                | (Inr tls_stream, w) \<Rightarrow> (Inr tls_stream, w))))"

definition builder_connect ::
    "('w, 'a, 'sock, 's, 'conn, 'name) network \<Rightarrow> 'conn client_builder \<Rightarrow> 'a \<Rightarrow> 'w \<Rightarrow> 's client result \<times> 'w" where
  "builder_connect net self addr w =
     (if (case b_local_port_range self of Some (start, endp) \<Rightarrow> start > endp | None \<Rightarrow> False)
      then (Inl (InvalidConfig ''local_port_range start > end''), w)
      else
        (case lookup_host net addr w of
           (Inl e, w) \<Rightarrow> (Inl (Io e), w)
         | (Inr [], w) \<Rightarrow> (Inl (InvalidConfig ''no addresses resolved''), w)
         | (Inr (target # _), w) \<Rightarrow>
             (case open_stream net self target w of
                (Inl e, w) \<Rightarrow> (Inl e, w)
              | (Inr stream, w) \<Rightarrow>
                  (case wrap_stream net self stream (snd (set_nodelay net stream w)) of
                     (Inl e, w) \<Rightarrow> (Inl e, w)
                   | (Inr boxed, w) \<Rightarrow>
                       (Inr \<lparr>cl_stream = boxed, cl_codec = codec_new,
                             cl_compression_level = b_compression_level self,
                             cl_write_timeout = b_write_timeout self,
                             cl_ack_timeout = b_ack_timeout self\<rparr>, w)))))"

definition client_builder_new :: "'conn client_builder" where
  "client_builder_new = client_builder_default"

definition client_connect ::
    "('w, 'a, 'sock, 's, 'conn, 'name) network \<Rightarrow> 'a \<Rightarrow> 'w \<Rightarrow> 's client result \<times> 'w" where
  "client_connect net addr w = builder_connect net client_builder_default addr w"

text \<open>\<open>framed.close()\<close> flushes and shuts the stream down; like the stream it belongs to the environment.\<close>

definition client_close :: "('s \<Rightarrow> 'w \<Rightarrow> unit result \<times> 'w) \<Rightarrow> 's client \<Rightarrow> 'w \<Rightarrow> unit result \<times> 'w" where
  "client_close framed_close self w = framed_close (cl_stream self) w"

section \<open>Sending a batch\<close>

datatype send_state =
    FeedingWindow u32 bytes
  | FeedingCompressed u32 bytes
  | FeedingJson u32 frame bytes
  | Flushing u32
  | AwaitingAck u32
  | SendReturned "u32 result"
  | SendPanicked

datatype send_event =
    Fed "unit result"
  | Flushed "unit result"
  | Arrived "frame result option"
  | Elapsed

text \<open>The loop that encodes the events; \<open>None\<close> would be a panic of \<open>encode\<close>.\<close>

fun encode_events ::
    "('ev \<Rightarrow> string + bytes) \<Rightarrow> 'd flate2 option \<Rightarrow> usize \<Rightarrow> 'ev list \<Rightarrow> bytes \<Rightarrow> bytes result option" where
  "encode_events to_vec zl i [] payload = Some (Inr payload)"
| "encode_events to_vec zl i (ev # evs) payload =
     (case to_vec ev of
        Inl e \<Rightarrow> Some (Inl (Serialization e))
      | Inr data \<Rightarrow>
          do { payload \<leftarrow> encode zl (Json (word_of_nat i + 1) data) payload;
               encode_events to_vec zl (i + 1) evs payload })"

definition send_start :: "('ev \<Rightarrow> string + bytes) \<Rightarrow> 'd flate2 option \<Rightarrow> 'ev list \<Rightarrow> send_state" where
  "send_start to_vec zl evs =
     (if evs = [] then SendReturned (Inr 0)
      else case encode_events to_vec zl 0 evs [] of
             None \<Rightarrow> SendPanicked
           | Some (Inl e) \<Rightarrow> SendReturned (Inl e)
           | Some (Inr payload) \<Rightarrow> FeedingWindow (word_of_nat (length evs)) payload)"

fun send_with_optional_timeout ::
    "'d flate2 option \<Rightarrow> 's client \<Rightarrow> frame \<Rightarrow> bytes \<Rightarrow> send_event \<Rightarrow> (unit result \<times> bytes) option option" where
  "send_with_optional_timeout zl self f out (Fed (Inr _)) = Some (codec_encode zl (cl_codec self) f out)"
| "send_with_optional_timeout zl self f out (Fed (Inl e)) = Some (Some (Inl e, out))"
| "send_with_optional_timeout zl self f out Elapsed =
     (if cl_write_timeout self = None then None else Some (Some (Inl WriteTimeout, out)))"
| "send_with_optional_timeout zl self f out _ = None"

fun flush_with_optional_timeout :: "'s client \<Rightarrow> send_event \<Rightarrow> unit result option" where
  "flush_with_optional_timeout self (Flushed r) = Some r"
| "flush_with_optional_timeout self Elapsed =
     (if cl_write_timeout self = None then None else Some (Inl WriteTimeout))"
| "flush_with_optional_timeout self _ = None"

text \<open>\<open>self.send_with_optional_timeout(frame).await?\<close>, followed by the code up to the next \<open>await\<close>.\<close>

definition feed_then ::
    "'d flate2 option \<Rightarrow> 's client \<Rightarrow> frame \<Rightarrow> send_state \<Rightarrow> bytes \<Rightarrow> send_event \<Rightarrow> (send_state \<times> bytes) option" where
  "feed_then zl self f k out ev =
     (case send_with_optional_timeout zl self f out ev of
        None \<Rightarrow> None
      | Some None \<Rightarrow> Some (SendPanicked, out)
      | Some (Some (Inl e, out)) \<Rightarrow> Some (SendReturned (Inl e), out)
      | Some (Some (Inr _, out)) \<Rightarrow> Some (k, out))"

text \<open>The head of \<open>while let Some(frame) = Frame::decode(&mut buf)?\<close>.\<close>

definition json_loop :: "'d flate2 option \<Rightarrow> u32 \<Rightarrow> bytes \<Rightarrow> send_state" where
  "json_loop zl n buf =
     (case decode zl buf of
        None \<Rightarrow> SendPanicked
      | Some (Inl e, _) \<Rightarrow> SendReturned (Inl e)
      | Some (Inr None, _) \<Rightarrow> Flushing n
      | Some (Inr (Some f), buf) \<Rightarrow> FeedingJson n f buf)"

fun send_step ::
    "'d flate2 option \<Rightarrow> 's client \<Rightarrow> send_state \<times> bytes \<Rightarrow> send_event \<Rightarrow> (send_state \<times> bytes) option" where
  "send_step zl self (FeedingWindow n payload, out) ev =
     feed_then zl self (Window n)
       (if cl_compression_level self > 0 then FeedingCompressed n payload else json_loop zl n payload) out ev"
| "send_step zl self (FeedingCompressed n payload, out) ev =
     feed_then zl self (Compressed payload) (Flushing n) out ev"
| "send_step zl self (FeedingJson n f buf, out) ev = feed_then zl self f (json_loop zl n buf) out ev"
| "send_step zl self (Flushing n, out) ev =
     (case flush_with_optional_timeout self ev of
        None \<Rightarrow> None
      | Some (Inl e) \<Rightarrow> Some (SendReturned (Inl e), out)
      | Some (Inr _) \<Rightarrow> Some (AwaitingAck n, out))"
| "send_step zl self (AwaitingAck n, out) (Arrived item) =
     Some (case item of
             Some (Inr (Ack seq)) \<Rightarrow> if seq \<ge> n then SendReturned (Inr n) else AwaitingAck n
           | Some (Inr _) \<Rightarrow> SendReturned (Inl (UnexpectedFrame ''expected Ack''))
           | Some (Inl e) \<Rightarrow> SendReturned (Inl e)
           | None \<Rightarrow> SendReturned (Inl ConnectionClosed), out)"
| "send_step zl self (AwaitingAck n, out) Elapsed =
     (if cl_ack_timeout self = None then None else Some (SendReturned (Inl AckTimeout), out))"
| "send_step zl self _ _ = None"

fun send_run ::
    "'d flate2 option \<Rightarrow> 's client \<Rightarrow> send_state \<times> bytes \<Rightarrow> send_event list \<Rightarrow> (send_state \<times> bytes) option" where
  "send_run zl self s [] = Some s"
| "send_run zl self s (ev # evs) = do { s \<leftarrow> send_step zl self s ev; send_run zl self s evs }"

section \<open>The encoded batch\<close>

text \<open>The events of a batch numbered from \<open>i + 1\<close>, as \<open>send\<close> numbers them.\<close>

fun numbered :: "nat \<Rightarrow> bytes list \<Rightarrow> event list" where
  "numbered i [] = []"
| "numbered i (d # ds) = (word_of_nat i + 1, d) # numbered (Suc i) ds"

definition serialized :: "('ev \<Rightarrow> string + bytes) \<Rightarrow> 'ev list \<Rightarrow> bytes list \<Rightarrow> bool" where
  "serialized to_vec evs ds \<longleftrightarrow> list_all2 (\<lambda>ev d. to_vec ev = Inr d) evs ds"

lemma numbered_length [simp]: "length (numbered i ds) = length ds"
  by (induction ds arbitrary: i) auto

lemma numbered_data [simp]: "map snd (numbered i ds) = ds"
  by (induction ds arbitrary: i) auto

lemma numbered_Nil_iff [simp]: "numbered i ds = [] \<longleftrightarrow> ds = []"
  by (cases ds) auto

lemma word_of_nat_plus_1 [simp]: "(word_of_nat i :: u32) + 1 = word_of_nat (Suc i)"
  by (simp add: add.commute)

lemma numbered_increasing:
  "i + length ds < 2 ^ 32 \<Longrightarrow> sorted_wrt (<) ((word_of_nat i :: u32) # map fst (numbered i ds))"
proof (induction ds arbitrary: i)
  case (Cons d ds)
  from Cons.prems have "sorted_wrt (<) ((word_of_nat (Suc i) :: u32) # map fst (numbered (Suc i) ds))"
    by (intro Cons.IH) simp
  moreover have "(word_of_nat i :: u32) < word_of_nat (Suc i)"
    using Cons.prems by (simp add: word_less_nat_alt unat_of_nat del: of_nat_Suc)
  ultimately show ?case by (simp add: sorted_wrt2 del: sorted_wrt.simps(2) of_nat_Suc)
qed simp

lemma numbered_last: "last ((word_of_nat i :: u32) # map fst (numbered i ds)) = word_of_nat (i + length ds)"
proof (induction ds arbitrary: i)
  case (Cons d ds)
  from Cons [of "Suc i"] show ?case by (simp add: add.commute)
qed simp

lemma encode_events_ok:
  "serialized to_vec evs ds \<Longrightarrow>
   encode_events to_vec zl i evs payload = Some (Inr (payload @ json_wire (numbered i ds)))"
  unfolding serialized_def
proof (induction evs ds arbitrary: i payload rule: list_all2_induct)
  case (Cons ev evs d ds)
  then show ?case
    by (simp add: encode_wire json_wire_Cons [of _ _ _ zl] del: wire.simps)
qed simp

lemma encode_events_cases:
  "(\<exists>ds. serialized to_vec evs ds) \<or>
   (\<exists>e. encode_events to_vec zl i evs payload = Some (Inl (Serialization e)))"
proof (induction evs arbitrary: i payload)
  case Nil
  show ?case by (rule disjI1, rule exI [of _ "[]"]) (simp add: serialized_def)
next
  case (Cons ev evs)
  show ?case
  proof (cases "to_vec ev")
    case (Inr d)
    with Cons [of "i + 1" "payload @ wire zl (Json (word_of_nat i + 1) d)"] show ?thesis
      by (auto simp: serialized_def encode_wire simp del: wire.simps intro: exI [of _ "d # _"])
  qed simp
qed

lemma serialized_length: "serialized to_vec evs ds \<Longrightarrow> length ds = length evs"
  by (simp add: serialized_def list_all2_lengthD)

section \<open>What a send writes\<close>

text \<open>The bytes of a batch of \<open>n\<close> events on the wire, with and without compression.\<close>

definition batch_wire :: "'d flate2 option \<Rightarrow> 's client \<Rightarrow> u32 \<Rightarrow> event list \<Rightarrow> bytes" where
  "batch_wire zl self n js =
     wire zl (Window n) @ (if cl_compression_level self > 0 then wire zl (Compressed (json_wire js)) else json_wire js)"

text \<open>The same as frames.\<close>

definition batch_frames :: "'s client \<Rightarrow> u32 \<Rightarrow> event list \<Rightarrow> frame list" where
  "batch_frames self n js =
     Window n # (if cl_compression_level self > 0 then [Compressed (json_wire js)] else json_frames js)"

lemma batch_wire_frames: "batch_wire zl self n js = concat (map (wire zl) (batch_frames self n js))"
  by (simp add: batch_wire_def batch_frames_def wire_json_frames del: wire.simps)

text \<open>\<open>out\<close> is \<open>out0\<close> followed by some of the frames of the batch, in order.\<close>

definition written_part :: "'d flate2 option \<Rightarrow> 's client \<Rightarrow> bytes \<Rightarrow> u32 \<Rightarrow> event list \<Rightarrow> bytes \<Rightarrow> bool" where
  "written_part zl self out0 n js out \<longleftrightarrow>
     (\<exists>fs fs'. batch_frames self n js = fs @ fs' \<and> out = out0 @ concat (map (wire zl) fs))"

lemma written_part_intros [intro]:
  "written_part zl self out n js out"
  "written_part zl self out n js (out @ wire zl (Window n))"
  "cl_compression_level self = 0 \<Longrightarrow> written_part zl self out n (js1 @ js2) (out @ wire zl (Window n) @ json_wire js1)"
  "written_part zl self out n js (out @ batch_wire zl self n js)"
proof -
  show "written_part zl self out n js out"
    unfolding written_part_def by (rule exI [of _ "[]"]) simp
  show "written_part zl self out n js (out @ wire zl (Window n))"
    unfolding written_part_def by (rule exI [of _ "[Window n]"]) (simp add: batch_frames_def del: wire.simps)
  show "written_part zl self out n (js1 @ js2) (out @ wire zl (Window n) @ json_wire js1)"
    if "cl_compression_level self = 0"
    unfolding written_part_def using that
    by (intro exI [of _ "Window n # json_frames js1"] exI [of _ "json_frames js2"])
      (simp add: batch_frames_def wire_json_frames del: wire.simps)
  show "written_part zl self out n js (out @ batch_wire zl self n js)"
    unfolding written_part_def by (rule exI [of _ "batch_frames self n js"]) (simp add: batch_wire_frames)
qed

text \<open>
  The relation between the state of a send, its batch and the bytes it has written: nothing but whole frames of
  the batch, in order, and all of them once the send waits for the acknowledgement.
\<close>

fun send_inv :: "'d flate2 option \<Rightarrow> 's client \<Rightarrow> bytes \<Rightarrow> u32 \<Rightarrow> event list \<Rightarrow> send_state \<times> bytes \<Rightarrow> bool" where
  "send_inv zl self out0 n js (FeedingWindow m payload, out) = (m = n \<and> payload = json_wire js \<and> out = out0)"
| "send_inv zl self out0 n js (FeedingCompressed m payload, out) =
     (m = n \<and> payload = json_wire js \<and> out = out0 @ wire zl (Window n) \<and> cl_compression_level self > 0)"
| "send_inv zl self out0 n js (FeedingJson m f buf, out) =
     (m = n \<and> cl_compression_level self = 0 \<and>
      (\<exists>js1 seq data js2. js = js1 @ (seq, data) # js2 \<and> f = Json seq data \<and> buf = json_wire js2 \<and>
         out = out0 @ wire zl (Window n) @ json_wire js1))"
| "send_inv zl self out0 n js (Flushing m, out) = (m = n \<and> out = out0 @ batch_wire zl self n js)"
| "send_inv zl self out0 n js (AwaitingAck m, out) = (m = n \<and> out = out0 @ batch_wire zl self n js)"
| "send_inv zl self out0 n js (SendReturned (Inr m), out) = (m = n \<and> out = out0 @ batch_wire zl self n js)"
| "send_inv zl self out0 n js (SendReturned (Inl e), out) =
     written_part zl self out0 n js out"
| "send_inv zl self out0 n js (SendPanicked, out) =
     (zl = None \<and> cl_compression_level self > 0 \<and> out = out0 @ wire zl (Window n))"

lemma json_loop_parse:
  "json_loop zl n buf =
     (case parse_frame zl DEFAULT_MAX_FRAME_SIZE buf of
        Malformed e _ \<Rightarrow> SendReturned (Inl e) | Incomplete \<Rightarrow> Flushing n | Parsed f buf \<Rightarrow> FeedingJson n f buf)"
  by (simp add: json_loop_def decode_parse split: parse.split)

lemma json_loop_cases:
  assumes "\<forall>(seq, data) \<in> set js. length data < 2 ^ 32"
  obtains (written) "js = []" "json_loop zl n (json_wire js) = Flushing n"
  | (event) seq data js' where "js = (seq, data) # js'"
      "json_loop zl n (json_wire js) = FeedingJson n (Json seq data) (json_wire js')"
  | (big) seq data js' where "js = (seq, data) # js'" "length data > DEFAULT_MAX_FRAME_SIZE"
      "json_loop zl n (json_wire js) = SendReturned (Inl (FrameTooLarge (length data) DEFAULT_MAX_FRAME_SIZE))"
proof (cases js)
  case Nil
  then show ?thesis by (intro written) (simp_all add: json_loop_parse)
next
  case (Cons j js')
  obtain seq data where j: "j = (seq, data)" by (cases j)
  with assms Cons have len: "length data mod 2 ^ 32 = length data" by simp
  have "json_loop zl n (json_wire js) =
      (if length data > DEFAULT_MAX_FRAME_SIZE
       then SendReturned (Inl (FrameTooLarge (length data) DEFAULT_MAX_FRAME_SIZE))
       else FeedingJson n (Json seq data) (json_wire js'))"
    unfolding Cons j json_loop_parse json_wire_Cons [of seq data js' zl]
      parse_frame_wire_json [of zl DEFAULT_MAX_FRAME_SIZE seq data "json_wire js'"] len
    by (simp add: Let_def)
  then show ?thesis using event big Cons j by (cases "length data > DEFAULT_MAX_FRAME_SIZE") auto
qed

lemma json_loop_inv:
  assumes "\<forall>(seq, data) \<in> set (js1 @ js2). length data < 2 ^ 32" and plain: "cl_compression_level self = 0"
  shows "send_inv zl self out0 n (js1 @ js2)
    (json_loop zl n (json_wire js2), out0 @ wire zl (Window n) @ json_wire js1)"
proof -
  from assms(1) have "\<forall>(seq, data) \<in> set js2. length data < 2 ^ 32" by auto
  then show ?thesis
  proof (cases rule: json_loop_cases [of js2 zl n])
    case (event seq data js')
    then show ?thesis using plain by (auto simp: batch_wire_def simp del: wire.simps)
  qed (auto simp: batch_wire_def plain simp del: wire.simps)
qed

lemma feed_then_cases:
  assumes "feed_then zl self f k out ev = Some s"
  obtains (fed) "encodable zl f" "s = (k, out @ wire zl f)"
  | (error) e where "s = (SendReturned (Inl e), out)"
  | (panic) "\<not> encodable zl f" "s = (SendPanicked, out)"
  using assms
  by (cases "(zl, self, f, out, ev)" rule: send_with_optional_timeout.cases)
    (auto simp: feed_then_def codec_encode_wire split: if_splits)


abbreviation events_short :: "event list \<Rightarrow> bool" where
  "events_short js \<equiv> (\<forall>(seq, data) \<in> set js. length data < 2 ^ 32)"

lemma send_step_inv:
  assumes short: "events_short js" and inv: "send_inv zl self out0 n js s" and step: "send_step zl self s ev = Some s'"
  shows "send_inv zl self out0 n js s'"
proof (cases "(zl, self, s, ev)" rule: send_step.cases)
  case (1 zl1 self1 m payload out ev1)
  with step have "feed_then zl self (Window m)
      (if cl_compression_level self > 0 then FeedingCompressed m payload else json_loop zl m payload) out ev = Some s'"
    by (auto split del: if_split)
  then show ?thesis
  proof (cases rule: feed_then_cases)
    case fed
    with 1 inv json_loop_inv [of "[]" js self zl out0 n] short show ?thesis
      by (auto simp: word_gt_0 simp del: wire.simps)
  qed (use 1 inv in auto)
next
  case (2 zl1 self1 m payload out ev1)
  with step have "feed_then zl self (Compressed payload) (Flushing m) out ev = Some s'" by simp
  then show ?thesis
    by (cases rule: feed_then_cases) (use 2 inv in \<open>auto simp: batch_wire_def simp del: wire.simps\<close>)
next
  case (3 zl1 self1 m f buf out ev1)
  with step have feed: "feed_then zl self f (json_loop zl m buf) out ev = Some s'" by simp
  from 3 inv obtain js1 seq data js2 where js: "js = js1 @ (seq, data) # js2" "f = Json seq data"
      "buf = json_wire js2" "m = n" "out = out0 @ wire zl (Window n) @ json_wire js1" "cl_compression_level self = 0"
    by auto
  from feed show ?thesis
  proof (cases rule: feed_then_cases)
    case fed
    have "wire zl f = json_wire [(seq, data)]"
      using js(2) json_wire_Cons [of seq data "[]" zl] by simp
    with fed js json_loop_inv [of "js1 @ [(seq, data)]" js2 self zl out0 n] short show ?thesis
      by (simp del: wire.simps)
  next
    case (error e)
    with js show ?thesis by (auto simp: batch_wire_def simp del: wire.simps)
  qed (use js in simp)
next
  case (4 zl1 self1 m out ev1)
  with step inv show ?thesis by (auto split: option.splits sum.splits)
next
  case (5 zl1 self1 m out item)
  with step inv show ?thesis by (auto split: option.splits sum.splits frame.splits)
next
  case (6 zl1 self1 m out)
  with step inv show ?thesis by (auto split: if_splits)
qed (use step in simp_all)

lemma send_inv_written: "send_inv zl self out0 n js (st, out) \<Longrightarrow> written_part zl self out0 n js out"
  by (cases "(zl, self, out0, n, js, st, out)" rule: send_inv.cases) (auto simp del: wire.simps)

lemma send_step_appends:
  assumes "send_step zl self (st, out) e = Some (st', out')"
  shows "\<exists>w. out' = out @ w"
  using assms
  by (cases "(zl, self, (st, out), e)" rule: send_step.cases)
    (auto elim!: feed_then_cases split: option.splits sum.splits if_splits simp del: wire.simps)

lemma send_run_append [simp]:
  "send_run zl self s (evs @ evs') = do { s \<leftarrow> send_run zl self s evs; send_run zl self s evs' }"
  by (induction evs arbitrary: s) (auto split: bind_splits)

lemma send_run_inv:
  "events_short js \<Longrightarrow> send_inv zl self out0 n js s \<Longrightarrow> send_run zl self s evs = Some s' \<Longrightarrow>
   send_inv zl self out0 n js s'"
proof (induction evs arbitrary: s)
  case (Cons ev evs)
  then obtain s1 where "send_step zl self s ev = Some s1" "send_run zl self s1 evs = Some s'"
    by (auto split: bind_splits)
  with Cons.prems Cons.IH show ?case by (blast intro: send_step_inv)
qed simp

lemma send_start_ok:
  "serialized to_vec evs ds \<Longrightarrow> evs \<noteq> [] \<Longrightarrow>
   send_start to_vec zl evs = FeedingWindow (word_of_nat (length evs)) (json_wire (numbered 0 ds))"
  by (simp add: send_start_def encode_events_ok)

text \<open>A send that fails before its first frame stays where it is.\<close>

lemma send_run_final:
  "send_run zl self (SendReturned r, out) evs = Some s \<Longrightarrow> s = (SendReturned r, out)"
  "send_run zl self (SendPanicked, out) evs = Some s \<Longrightarrow> s = (SendPanicked, out)"
  by (cases evs; simp)+


section \<open>Where a send comes from and where it gets to\<close>

lemma json_loop_busy:
  "json_loop zl n buf \<noteq> AwaitingAck m" "json_loop zl n buf \<noteq> SendReturned (Inr m)"
  by (simp_all add: json_loop_parse split: parse.split)

lemma send_step_awaiting:
  "send_step zl self s ev = Some (AwaitingAck n, out) \<Longrightarrow> s = (AwaitingAck n, out) \<or> ev = Flushed (Inr ())"
  by (cases "(zl, self, s, ev)" rule: send_step.cases)
    (auto elim!: feed_then_cases simp: json_loop_busy eq_commute [of _ "json_loop _ _ _"]
      split: if_splits option.splits sum.splits frame.splits elim: flush_with_optional_timeout.elims)

lemma send_step_ok:
  "send_step zl self s ev = Some (SendReturned (Inr m), out) \<Longrightarrow>
   s = (AwaitingAck m, out) \<and> (\<exists>seq. ev = Arrived (Some (Inr (Ack seq))) \<and> m \<le> seq)"
  by (cases "(zl, self, s, ev)" rule: send_step.cases)
    (auto elim!: feed_then_cases simp: json_loop_busy eq_commute [of _ "json_loop _ _ _"]
      split: if_splits option.splits sum.splits frame.splits)

lemma send_run_awaiting:
  "send_run zl self s evs = Some (AwaitingAck n, out) \<Longrightarrow> s = (AwaitingAck n, out) \<or> Flushed (Inr ()) \<in> set evs"
proof (induction evs rule: rev_induct)
  case (snoc ev evs)
  then obtain s1 where "send_run zl self s evs = Some s1" "send_step zl self s1 ev = Some (AwaitingAck n, out)"
    by (auto simp: bind_eq_Some_conv)
  with snoc.IH send_step_awaiting show ?case by fastforce
qed simp

lemma send_run_ok:
  assumes "send_run zl self s evs = Some (SendReturned (Inr m), out)" and "\<forall>r out'. s \<noteq> (SendReturned r, out')"
    and "\<forall>n out'. s \<noteq> (AwaitingAck n, out')"
  shows "\<exists>pre seq. evs = pre @ [Arrived (Some (Inr (Ack seq)))] \<and> m \<le> seq \<and> Flushed (Inr ()) \<in> set pre"
proof (cases evs rule: rev_cases)
  case (snoc pre ev)
  with assms(1) obtain s1 where "send_run zl self s pre = Some s1"
      "send_step zl self s1 ev = Some (SendReturned (Inr m), out)"
    by (auto simp: bind_eq_Some_conv)
  with snoc send_step_ok send_run_awaiting assms(3) show ?thesis by metis
qed (use assms in auto)

text \<open>The other direction: every await resolving well, the batch is written and the send waits for its ack.\<close>

definition sendable :: "'d flate2 option \<Rightarrow> 's client \<Rightarrow> event list \<Rightarrow> bool" where
  "sendable zl self js \<longleftrightarrow>
     (if cl_compression_level self > 0 then zl \<noteq> None else events_fit DEFAULT_MAX_FRAME_SIZE js)"

definition all_written :: "'s client \<Rightarrow> nat \<Rightarrow> send_event list" where
  "all_written self n =
     replicate (Suc (if cl_compression_level self > 0 then 1 else n)) (Fed (Inr ())) @ [Flushed (Inr ())]"

definition acks :: "u32 list \<Rightarrow> send_event list" where
  "acks seqs = map (\<lambda>seq. Arrived (Some (Inr (Ack seq)))) seqs"

lemma feed_then_fed [simp]:
  "encodable zl f \<Longrightarrow> feed_then zl self f k out (Fed (Inr ())) = Some (k, out @ wire zl f)"
  by (simp add: feed_then_def codec_encode_wire)

lemma json_loop_run:
  "events_fit DEFAULT_MAX_FRAME_SIZE js \<Longrightarrow>
   send_run zl self (json_loop zl n (json_wire js @ rest), out) (replicate (length js) (Fed (Inr ()))) =
     Some (json_loop zl n rest, out @ json_wire js)"
proof (induction js arbitrary: out)
  case (Cons j js)
  obtain seq data where j: "j = (seq, data)" by (cases j)
  with Cons.prems have "json_loop zl n (json_wire (j # js) @ rest) = FeedingJson n (Json seq data) (json_wire js @ rest)"
    using parse_frame_json_wire [of data DEFAULT_MAX_FRAME_SIZE zl seq js rest] by (simp add: json_loop_parse)
  then show ?case
    using Cons j by (simp add: json_wire_Cons [of seq data js zl] del: wire.simps)
qed simp

lemma json_loop_Nil [simp]: "json_loop zl n [] = Flushing n"
  by (simp add: json_loop_parse)

lemma send_run_written:
  assumes "sendable zl self js"
  shows "send_run zl self (FeedingWindow n (json_wire js), out0) (all_written self (length js)) =
    Some (AwaitingAck n, out0 @ batch_wire zl self n js)"
proof (cases "cl_compression_level self > 0")
  case True
  with assms have "encodable zl (Compressed (json_wire js))" by (simp add: sendable_def)
  with True show ?thesis by (simp add: all_written_def batch_wire_def del: wire.simps encodable.simps(1))
next
  case False
  with assms json_loop_run [of js zl self n "[]" "out0 @ wire zl (Window n)"] show ?thesis
    by (simp add: sendable_def all_written_def batch_wire_def del: wire.simps)
qed

lemma send_run_small_acks:
  "\<forall>seq \<in> set seqs. seq < n \<Longrightarrow> send_run zl self (AwaitingAck n, out) (acks seqs) = Some (AwaitingAck n, out)"
  by (induction seqs) (auto simp: acks_def)


lemma numbered_short: "\<forall>d \<in> set ds. length d < 2 ^ 32 \<Longrightarrow> events_short (numbered i ds)"
  by (induction ds arbitrary: i) auto

lemma numbered_fit:
  "\<forall>d \<in> set ds. length d \<le> limit \<and> length d < 2 ^ 32 \<Longrightarrow> events_fit limit (numbered i ds)"
  by (induction ds arbitrary: i) auto

lemma numbered_append: "numbered i (ds @ ds') = numbered i ds @ numbered (i + length ds) ds'"
  by (induction ds arbitrary: i) auto

lemma send_start_inv:
  assumes "\<forall>ev \<in> set evs. \<forall>d. to_vec ev = Inr d \<longrightarrow> length d < 2 ^ 32" and "evs \<noteq> []"
  obtains (refused) e where "send_start to_vec zl evs = SendReturned (Inl (Serialization e))"
  | (started) ds where "serialized to_vec evs ds" "events_short (numbered 0 ds)"
      "send_start to_vec zl evs = FeedingWindow (word_of_nat (length evs)) (json_wire (numbered 0 ds))"
proof -
  consider (ds) ds where "serialized to_vec evs ds"
    | (e) e where "encode_events to_vec zl 0 evs [] = Some (Inl (Serialization e))"
    using encode_events_cases [of to_vec evs zl 0 "[]"] by blast
  then show thesis
  proof cases
    case ds
    with assms(1) have "events_short (numbered 0 ds)"
      by (intro numbered_short) (fastforce simp: serialized_def list_all2_conv_all_nth in_set_conv_nth)
    then show thesis by (rule started [OF ds _ send_start_ok [OF ds assms(2)]])
  next
    case e
    with assms(2) show thesis by (intro refused) (simp add: send_start_def)
  qed
qed

lemma oversized_run:
  assumes "serialized to_vec evs (ds @ d # ds')" and "cl_compression_level self = 0"
    and "\<forall>d' \<in> set ds. length d' \<le> DEFAULT_MAX_FRAME_SIZE"
    and "DEFAULT_MAX_FRAME_SIZE < length d" and "length d < 2 ^ 32"
  shows "send_run zl self (send_start to_vec zl evs, out0) (replicate (Suc (length ds)) (Fed (Inr ()))) =
    Some (SendReturned (Inl (FrameTooLarge (length d) DEFAULT_MAX_FRAME_SIZE)),
          out0 @ wire zl (Window (word_of_nat (length evs))) @ json_wire (numbered 0 ds))"
proof -
  let ?n = "word_of_nat (length evs) :: u32" and ?i = "word_of_nat (length ds) + 1 :: u32"
  have parts: "numbered 0 (ds @ d # ds') = numbered 0 ds @ (?i, d) # numbered (Suc (length ds)) ds'"
    by (simp add: numbered_append)
  have "events_fit DEFAULT_MAX_FRAME_SIZE (numbered 0 ds)"
    using assms(3) by (intro numbered_fit) (auto simp: DEFAULT_MAX_FRAME_SIZE_def)
  then have "send_run zl self (json_loop zl ?n (json_wire (numbered 0 (ds @ d # ds'))), out0 @ wire zl (Window ?n))
      (replicate (length ds) (Fed (Inr ()))) =
    Some (json_loop zl ?n (json_wire ((?i, d) # numbered (Suc (length ds)) ds')),
      out0 @ wire zl (Window ?n) @ json_wire (numbered 0 ds))"
    using json_loop_run [of "numbered 0 ds" zl self ?n "json_wire ((?i, d) # numbered (Suc (length ds)) ds')"]
    by (simp add: parts del: wire.simps)
  moreover have "json_loop zl ?n (json_wire ((?i, d) # numbered (Suc (length ds)) ds')) =
      SendReturned (Inl (FrameTooLarge (length d) DEFAULT_MAX_FRAME_SIZE))"
    using assms(4,5) parse_frame_wire_json [of zl DEFAULT_MAX_FRAME_SIZE ?i d "json_wire (numbered (Suc (length ds)) ds')"]
    by (simp add: json_loop_parse json_wire_Cons [of _ _ _ zl] Let_def del: wire.simps word_of_nat_plus_1)
  moreover have "evs \<noteq> []" using assms(1) by (auto simp: serialized_def)
  ultimately show ?thesis
    using send_start_ok [OF assms(1), of zl] assms(2) by (simp del: wire.simps word_of_nat_plus_1)
qed

text \<open>A send that returns \<open>Ok\<close>.\<close>

lemma send_ok_batch:
  assumes "\<forall>ev \<in> set evs. \<forall>d. to_vec ev = Inr d \<longrightarrow> length d < 2 ^ 32" and "evs \<noteq> []"
    and "send_run zl self (send_start to_vec zl evs, out0) es = Some (SendReturned (Inr m), out)"
  shows "\<exists>ds. serialized to_vec evs ds \<and> m = word_of_nat (length evs) \<and>
    out = out0 @ batch_wire zl self m (numbered 0 ds) \<and>
    (\<exists>pre seq. es = pre @ [Arrived (Some (Inr (Ack seq)))] \<and> m \<le> seq \<and> Flushed (Inr ()) \<in> set pre)"
  using assms(1,2)
proof (cases rule: send_start_inv [where zl = zl])
  case (refused e)
  with assms(3) send_run_final(1) show ?thesis by fastforce
next
  case (started ds)
  with assms(3) have run: "send_run zl self (FeedingWindow (word_of_nat (length evs)) (json_wire (numbered 0 ds)), out0)
      es = Some (SendReturned (Inr m), out)" by simp
  have "send_inv zl self out0 (word_of_nat (length evs)) (numbered 0 ds) (SendReturned (Inr m), out)"
    by (rule send_run_inv [OF started(2) _ run]) simp
  with send_run_ok [OF run] started(1) show ?thesis by auto
qed

text \<open>
  How many awaits a send has left before it returns, apart from those that end with an acknowledgement that does not
  cover the batch.
\<close>

inductive awaits_left :: "send_state \<Rightarrow> nat \<Rightarrow> bool" where
  "events_short js \<Longrightarrow> js \<noteq> [] \<Longrightarrow> awaits_left (FeedingWindow n (json_wire js)) (3 + length js)"
| "awaits_left (FeedingCompressed n payload) 3"
| "events_short js \<Longrightarrow> awaits_left (FeedingJson n (Json seq data) (json_wire js)) (3 + length js)"
| "awaits_left (Flushing n) 2"
| "awaits_left (AwaitingAck n) 1"
| "awaits_left (SendReturned r) 0"
| "awaits_left SendPanicked 0"

inductive_cases awaits_left_elims:
  "awaits_left (FeedingWindow n payload) k"
  "awaits_left (FeedingCompressed n payload) k"
  "awaits_left (FeedingJson n f buf) k"
  "awaits_left (Flushing n) k"
  "awaits_left (AwaitingAck n) k"

lemma json_loop_left:
  assumes "events_short js"
  shows "\<exists>k < 3 + length js. awaits_left (json_loop zl n (json_wire js)) k"
  using assms
proof (cases rule: json_loop_cases [of js zl n])
  case written
  then show ?thesis by (intro exI [of _ 2]) (auto intro: awaits_left.intros)
next
  case (event seq data js')
  with assms have "awaits_left (json_loop zl n (json_wire js)) (3 + length js')"
    by (simp add: awaits_left.intros(3))
  with event(1) show ?thesis by (intro exI [of _ "3 + length js'"]) simp
next
  case (big seq data js')
  then show ?thesis by (intro exI [of _ 0]) (auto intro: awaits_left.intros)
qed

lemma feed_then_left:
  assumes "feed_then zl self f next_state out ev = Some (st', out')" and "\<exists>j < k. awaits_left next_state j" and "0 < k"
  shows "\<exists>j < k. awaits_left st' j"
  using assms by (elim feed_then_cases) (auto intro: awaits_left.intros)

lemma send_step_left:
  assumes "awaits_left st k" and "send_step zl self (st, out) ev = Some (st', out')"
  shows "(\<exists>j < k. awaits_left st' j) \<or> st' = st \<and> (\<exists>seq. ev = Arrived (Some (Inr (Ack seq))))"
proof (cases st)
  case (FeedingWindow n payload)
  with assms(1) obtain js where js: "payload = json_wire js" "events_short js" "js \<noteq> []" "k = 3 + length js"
    by (auto elim: awaits_left_elims)
  have "\<exists>j < k. awaits_left (if cl_compression_level self > 0 then FeedingCompressed n payload else json_loop zl n payload) j"
    using json_loop_left [OF js(2), of zl n] js by (auto intro!: exI [of _ 3] awaits_left.intros)
  with assms(2) FeedingWindow js show ?thesis
    by (intro disjI1) (auto elim!: feed_then_left split del: if_split)
next
  case (FeedingCompressed n payload)
  with assms have feed: "feed_then zl self (Compressed payload) (Flushing n) out ev = Some (st', out')" and k: "k = 3"
    by (auto elim: awaits_left_elims)
  from awaits_left.intros(4) [of n] k have "\<exists>j < k. awaits_left (Flushing n) j" by (intro exI [of _ 2]) simp
  from feed_then_left [OF feed this] k show ?thesis by simp
next
  case (FeedingJson n f buf)
  with assms(1) obtain js where js: "buf = json_wire js" "events_short js" "k = 3 + length js"
    by (auto elim: awaits_left_elims)
  with assms(2) FeedingJson json_loop_left [OF js(2), of zl n] show ?thesis
    by (intro disjI1) (auto elim!: feed_then_left)
next
  case (Flushing n)
  with assms have "k = 2" "st' = AwaitingAck n \<or> (\<exists>r. st' = SendReturned r)"
    by (auto elim: awaits_left_elims split: option.splits sum.splits)
  moreover have "\<exists>j < 2. awaits_left (AwaitingAck n) j"
    using awaits_left.intros(5) [of n] by (intro exI [of _ 1]) simp
  moreover have "\<exists>j < 2. awaits_left (SendReturned r) j" for r
    using awaits_left.intros(6) [of r] by (intro exI [of _ 0]) simp
  ultimately show ?thesis by blast
next
  case (AwaitingAck n)
  with assms(2) have "(\<exists>r. st' = SendReturned r) \<or> st' = st \<and> (\<exists>seq. ev = Arrived (Some (Inr (Ack seq))))"
    by (cases ev) (auto split: option.splits sum.splits frame.splits if_splits)
  with assms(1) AwaitingAck show ?thesis by (auto elim!: awaits_left_elims intro: awaits_left.intros)
qed (use assms(2) in simp_all)

fun is_ack :: "send_event \<Rightarrow> bool" where
  "is_ack (Arrived (Some (Inr (Ack _)))) = True"
| "is_ack _ = False"

lemma send_run_left:
  "awaits_left st k \<Longrightarrow> send_run zl self (st, out) es = Some s \<Longrightarrow> length es \<le> k + length (filter is_ack es)"
proof (induction es arbitrary: st out k)
  case (Cons e es)
  then obtain st' out' where step: "send_step zl self (st, out) e = Some (st', out')"
      "send_run zl self (st', out') es = Some s"
    by (auto simp: bind_eq_Some_conv)
  from send_step_left [OF Cons.prems(1) step(1)] show ?case
  proof
    assume "\<exists>j < k. awaits_left st' j"
    with Cons.IH step(2) show ?thesis by fastforce
  next
    assume "st' = st \<and> (\<exists>seq. e = Arrived (Some (Inr (Ack seq))))"
    with Cons.IH [OF _ step(2)] Cons.prems(1) show ?thesis by auto
  qed
qed simp

lemma send_awaits_bounded:
  assumes "\<forall>ev \<in> set evs. \<forall>d. to_vec ev = Inr d \<longrightarrow> length d < 2 ^ 32"
    and "send_run zl self (send_start to_vec zl evs, out0) es = Some s"
  shows "length es \<le> length evs + 3 + length (filter is_ack es)"
proof (cases "evs = []")
  case True
  then have "awaits_left (send_start to_vec zl evs) 0"
    by (simp add: send_start_def awaits_left.intros)
  from send_run_left [OF this assms(2)] show ?thesis by simp
next
  case False
  show ?thesis
    using assms(1) False
  proof (cases rule: send_start_inv [where zl = zl])
    case (refused e)
    then have "awaits_left (send_start to_vec zl evs) 0" by (simp add: awaits_left.intros)
    from send_run_left [OF this assms(2)] show ?thesis by simp
  next
    case (started ds)
    have "numbered 0 ds \<noteq> []" using False serialized_length [OF started(1)] by auto
    from awaits_left.intros(1) [OF started(2) this] started(3)
    have "awaits_left (send_start to_vec zl evs) (3 + length (numbered 0 ds))" by simp
    from send_run_left [OF this assms(2)] serialized_length [OF started(1)] show ?thesis by simp
  qed
qed

lemma send_not_stuck:
  "(\<exists>r. st = SendReturned r) \<or> st = SendPanicked \<or> (\<exists>ev. send_step zl self (st, out) ev \<noteq> None)"
proof (cases st)
  case (Flushing n)
  then have "send_step zl self (st, out) (Flushed (Inr ())) \<noteq> None" by simp
  then show ?thesis by blast
next
  case (AwaitingAck n)
  then have "send_step zl self (st, out) (Arrived None) \<noteq> None" by simp
  then show ?thesis by blast
qed (auto simp: feed_then_def intro!: exI [of _ "Fed (Inl WriteTimeout)"])

text \<open>Of the compression level a step only asks whether it is zero.\<close>

lemma send_with_optional_timeout_level:
  "send_with_optional_timeout zl (self\<lparr>cl_compression_level := a\<rparr>) f out ev = send_with_optional_timeout zl self f out ev"
  by (cases "(zl, self, f, out, ev)" rule: send_with_optional_timeout.cases) auto

lemma flush_with_optional_timeout_level:
  "flush_with_optional_timeout (self\<lparr>cl_compression_level := a\<rparr>) ev = flush_with_optional_timeout self ev"
  by (cases "(self, ev)" rule: flush_with_optional_timeout.cases) auto

lemma send_step_level:
  assumes "0 < a \<longleftrightarrow> 0 < b"
  shows "send_step zl (self\<lparr>cl_compression_level := a\<rparr>) s ev = send_step zl (self\<lparr>cl_compression_level := b\<rparr>) s ev"
  using assms
  by (cases "(zl, self, s, ev)" rule: send_step.cases)
    (auto simp: feed_then_def send_with_optional_timeout_level flush_with_optional_timeout_level)

section \<open>Examples\<close>

text \<open>A client on an unspecified stream, with the settings the builder starts from except for the level, and a batch of
  two events that are their own serialisation.\<close>

definition example_client :: "u32 \<Rightarrow> unit client" where
  "example_client level =
     \<lparr>cl_stream = (), cl_codec = codec_new, cl_compression_level = level, cl_write_timeout = None,
      cl_ack_timeout = Some (from_secs 30)\<rparr>"

definition example_batch :: "bytes list" where
  "example_batch = [[123, 125], [91, 93]]"

lemma example_client_simps [simp]:
  "cl_compression_level (example_client level) = level"
  "cl_ack_timeout (example_client level) = Some (from_secs 30)"
  "cl_write_timeout (example_client level) = None"
  "cl_codec (example_client level) = codec_new"
  by (simp_all add: example_client_def)

lemma example_batch_serialized [simp]: "serialized Inr example_batch example_batch"
  by (simp add: serialized_def list_all2_same)

lemma example_batch_facts [simp]:
  "example_batch \<noteq> []" "length example_batch = 2" "\<forall>d \<in> set example_batch. length d < 2 ^ 32"
  by (simp_all add: example_batch_def)

lemma example_batch_sendable [simp]:
  "sendable no_zlib (example_client 0) (numbered 0 example_batch)"
  "sendable (Some z) (example_client 3) js"
  by (simp_all add: sendable_def example_batch_def DEFAULT_MAX_FRAME_SIZE_def)

section \<open>Properties\<close>

text \<open>C8. A send that returns \<open>Ok\<close> has put the whole batch on the wire, and nothing else: every event serialised,
  numbered from 1 in order, preceded by its window; it has flushed it, and the last thing it received is an
  acknowledgement that covers the batch. The count it returns is the number of events.\<close>

theorem send_ok_only_acked:
  assumes "\<forall>ev \<in> set evs. \<forall>d. to_vec ev = Inr d \<longrightarrow> length d < 2 ^ 32" and "evs \<noteq> []"
    and "send_run zl self (send_start to_vec zl evs, out0) es = Some (SendReturned (Inr m), out)"
  shows "\<exists>ds. serialized to_vec evs ds \<and> m = word_of_nat (length evs) \<and>
    out = out0 @ batch_wire zl self m (numbered 0 ds) \<and>
    (\<exists>pre seq. es = pre @ [Arrived (Some (Inr (Ack seq)))] \<and> m \<le> seq \<and> Flushed (Inr ()) \<in> set pre)"
  by (rule send_ok_batch [OF assms])

theorem send_ok_only_acked_witness:
  "\<exists>ds. serialized Inr example_batch ds \<and> (2 :: u32) = word_of_nat (length example_batch) \<and>
    batch_wire (Some stored_flate2) (example_client 3) 2 (numbered 0 example_batch) =
      [] @ batch_wire (Some stored_flate2) (example_client 3) 2 (numbered 0 ds) \<and>
    (\<exists>pre seq. all_written (example_client 3) 2 @ acks [0, 1] @ acks [2] = pre @ [Arrived (Some (Inr (Ack seq)))] \<and>
       2 \<le> seq \<and> Flushed (Inr ()) \<in> set pre)"
proof (rule send_ok_only_acked)
  show "\<forall>ev \<in> set example_batch. \<forall>d. Inr ev = (Inr d :: string + bytes) \<longrightarrow> length d < 2 ^ 32"
    using example_batch_facts(3) by simp
  show "example_batch \<noteq> []" by simp
  have "send_run (Some stored_flate2) (example_client 3)
      (FeedingWindow 2 (json_wire (numbered 0 example_batch)), []) (all_written (example_client 3) 2) =
      Some (AwaitingAck 2, batch_wire (Some stored_flate2) (example_client 3) 2 (numbered 0 example_batch))"
    using send_run_written [of "Some stored_flate2" "example_client 3" "numbered 0 example_batch" 2 "[]"] by simp
  then show "send_run (Some stored_flate2) (example_client 3) (send_start Inr (Some stored_flate2) example_batch, [])
      (all_written (example_client 3) 2 @ acks [0, 1] @ acks [2]) =
    Some (SendReturned (Inr 2), batch_wire (Some stored_flate2) (example_client 3) 2 (numbered 0 example_batch))"
    by (simp add: send_start_ok [OF example_batch_serialized] acks_def word_le_nat_alt)
qed

text \<open>C18. A send gets through: when the events serialise and can be framed, and every write completes, the send writes
  its batch; it then lets any number of partial acknowledgements and keepalives pass, and the first one that covers the
  batch ends it with the number of events.\<close>

theorem send_completes:
  assumes "serialized to_vec evs ds" and "evs \<noteq> []" and "n = word_of_nat (length evs)"
    and "sendable zl self (numbered 0 ds)" and "\<forall>seq \<in> set seqs. seq < n" and "n \<le> seq"
  shows "send_run zl self (send_start to_vec zl evs, out0)
      (all_written self (length evs) @ acks seqs @ acks [seq]) =
    Some (SendReturned (Inr n), out0 @ batch_wire zl self n (numbered 0 ds))"
proof -
  have "send_run zl self (FeedingWindow n (json_wire (numbered 0 ds)), out0) (all_written self (length evs)) =
      Some (AwaitingAck n, out0 @ batch_wire zl self n (numbered 0 ds))"
    using send_run_written [OF assms(4), of n out0] serialized_length [OF assms(1)] by simp
  then show ?thesis
    using send_start_ok [OF assms(1,2), of zl] assms(3,6) send_run_small_acks [OF assms(5), of zl self "out0 @ batch_wire zl self n (numbered 0 ds)"]
    by (simp add: acks_def)
qed

theorem send_completes_witness:
  "send_run no_zlib (example_client 0) (send_start Inr no_zlib example_batch, [])
      (all_written (example_client 0) (length example_batch) @ acks [0, 1, 0] @ acks [2]) =
    Some (SendReturned (Inr 2), [] @ batch_wire no_zlib (example_client 0) 2 (numbered 0 example_batch))"
  by (rule send_completes) (simp_all add: word_less_nat_alt)

text \<open>C38. A send can panic exactly when the crate is built without compression, the client has a compression level
  above zero, as it has by default, and the batch is not empty and all its events serialise; it does so after the window
  frame has been taken. (Events of \<open>2 ^ 32\<close> bytes and more are left out.)\<close>

theorem send_panics_iff:
  assumes "\<forall>ev \<in> set evs. \<forall>d. to_vec ev = Inr d \<longrightarrow> length d < 2 ^ 32"
  shows "(\<exists>es out. send_run zl self (send_start to_vec zl evs, out0) es = Some (SendPanicked, out)) \<longleftrightarrow>
    zl = None \<and> cl_compression_level self > 0 \<and> evs \<noteq> [] \<and> (\<exists>ds. serialized to_vec evs ds)"
    (is "?panics \<longleftrightarrow> ?cause")
proof (cases "evs = []")
  case True
  then show ?thesis using send_run_final(1) by (fastforce simp: send_start_def)
next
  case False
  show ?thesis
    using assms False
  proof (cases rule: send_start_inv [where zl = zl])
    case (refused e)
    then have "\<not> serialized to_vec evs ds" for ds
      using send_start_ok [of to_vec evs ds zl] False by auto
    with refused send_run_final(1) show ?thesis by fastforce
  next
    case (started ds)
    show ?thesis
    proof
      assume ?panics
      then obtain es out where "send_run zl self (FeedingWindow (word_of_nat (length evs)) (json_wire (numbered 0 ds)), out0)
          es = Some (SendPanicked, out)" using started by auto
      from send_run_inv [OF started(2) _ this, of out0 "word_of_nat (length evs)"] started(1) False
      show ?cause by auto
    next
      assume ?cause
      then have "send_run zl self (send_start to_vec zl evs, out0) [Fed (Inr ()), Fed (Inr ())] =
          Some (SendPanicked, out0 @ wire zl (Window (word_of_nat (length evs))))"
        using started(3) by (simp add: feed_then_def codec_encode_wire)
      then show ?panics by blast
    qed
  qed
qed


theorem send_panics_iff_witness:
  "(\<exists>es out. send_run no_zlib (example_client 3) (send_start Inr no_zlib example_batch, []) es =
      Some (SendPanicked, out)) \<longleftrightarrow>
    no_zlib = None \<and> cl_compression_level (example_client 3) > 0 \<and> example_batch \<noteq> [] \<and>
    (\<exists>ds. serialized Inr example_batch ds)"
  by (rule send_panics_iff) (use example_batch_facts(3) in simp)

text \<open>An event above the frame limit ends an uncompressed send with an error, after the window and the events
  before it have been taken: the connection is left inside an unfinished window.\<close>

theorem send_oversized_event:
  assumes "serialized to_vec evs (ds @ d # ds')" and "cl_compression_level self = 0"
    and "\<forall>d' \<in> set ds. length d' \<le> DEFAULT_MAX_FRAME_SIZE"
    and "DEFAULT_MAX_FRAME_SIZE < length d" and "length d < 2 ^ 32"
  shows "send_run zl self (send_start to_vec zl evs, out0) (replicate (Suc (length ds)) (Fed (Inr ()))) =
    Some (SendReturned (Inl (FrameTooLarge (length d) DEFAULT_MAX_FRAME_SIZE)),
          out0 @ wire zl (Window (word_of_nat (length evs))) @ json_wire (numbered 0 ds))"
  using assms by (rule oversized_run)

theorem send_oversized_event_witness:
  "send_run no_zlib (example_client 0) (send_start Inr no_zlib [[123, 125], replicate 16777217 0], [])
      (replicate (Suc (length [[123, 125] :: bytes])) (Fed (Inr ()))) =
    Some (SendReturned (Inl (FrameTooLarge (length (replicate 16777217 (0 :: u8))) DEFAULT_MAX_FRAME_SIZE)),
      [] @ wire no_zlib (Window (word_of_nat (length [[123, 125], replicate 16777217 (0 :: u8)]))) @
        json_wire (numbered 0 [[123, 125]]))"
  by (rule send_oversized_event [where ds' = "[]"])
    (simp_all add: serialized_def DEFAULT_MAX_FRAME_SIZE_def)

text \<open>C34. A late acknowledgement: after an acknowledgement timeout nothing keeps the client from being used again, and
  the acknowledgement of the first batch, arriving late, completes the send of a second batch that is no longer than the
  first before the server has answered it.\<close>

theorem late_ack_completes_next_send:
  assumes "serialized to_vec evs ds" and "evs \<noteq> []" and "sendable zl self (numbered 0 ds)"
    and "serialized to_vec evs' ds'" and "evs' \<noteq> []" and "sendable zl self (numbered 0 ds')"
    and "cl_ack_timeout self = Some t" and "(word_of_nat (length evs') :: u32) \<le> word_of_nat (length evs)"
  shows "\<exists>out.
    send_run zl self (send_start to_vec zl evs, out0) (all_written self (length evs) @ [Elapsed]) =
      Some (SendReturned (Inl AckTimeout), out) \<and>
    send_run zl self (send_start to_vec zl evs', out)
      (all_written self (length evs') @ acks [word_of_nat (length evs)]) =
      Some (SendReturned (Inr (word_of_nat (length evs'))),
            out @ batch_wire zl self (word_of_nat (length evs')) (numbered 0 ds'))"
proof -
  let ?out = "out0 @ batch_wire zl self (word_of_nat (length evs)) (numbered 0 ds)"
  have "send_run zl self (send_start to_vec zl evs, out0) (all_written self (length evs) @ [Elapsed]) =
      Some (SendReturned (Inl AckTimeout), ?out)"
    using send_run_written [OF assms(3), of "word_of_nat (length evs)" out0] serialized_length [OF assms(1)]
      send_start_ok [OF assms(1,2), of zl] assms(7) by simp
  moreover have "send_run zl self (send_start to_vec zl evs', ?out)
      (all_written self (length evs') @ acks [word_of_nat (length evs)]) =
      Some (SendReturned (Inr (word_of_nat (length evs'))),
            ?out @ batch_wire zl self (word_of_nat (length evs')) (numbered 0 ds'))"
    using send_run_written [OF assms(6), of "word_of_nat (length evs')" ?out] serialized_length [OF assms(4)]
      send_start_ok [OF assms(4,5), of zl] assms(8) by (simp add: acks_def)
  ultimately show ?thesis by blast
qed

theorem late_ack_completes_next_send_witness:
  "\<exists>out.
    send_run no_zlib (example_client 0) (send_start Inr no_zlib example_batch, [])
      (all_written (example_client 0) (length example_batch) @ [Elapsed]) = Some (SendReturned (Inl AckTimeout), out) \<and>
    send_run no_zlib (example_client 0) (send_start Inr no_zlib example_batch, out)
      (all_written (example_client 0) (length example_batch) @ acks [word_of_nat (length example_batch)]) =
      Some (SendReturned (Inr (word_of_nat (length example_batch))),
        out @ batch_wire no_zlib (example_client 0) (word_of_nat (length example_batch)) (numbered 0 example_batch))"
  by (rule late_ack_completes_next_send [where ds = example_batch and t = "from_secs 30"]) simp_all

text \<open>The client a builder connects: it carries the builder's settings and the default codec, its port range was not
  empty, and an inverted range is refused before the network is touched.\<close>

theorem builder_connect_settings:
  "case builder_connect net self addr w of
     (Inr c, _) \<Rightarrow>
       cl_compression_level c = b_compression_level self \<and> cl_write_timeout c = b_write_timeout self \<and>
       cl_ack_timeout c = b_ack_timeout self \<and> cl_codec c = codec_new \<and>
       (case b_local_port_range self of Some (start, endp) \<Rightarrow> start \<le> endp | None \<Rightarrow> True)
   | (Inl e, w') \<Rightarrow>
       (case b_local_port_range self of
          Some (start, endp) \<Rightarrow>
            start \<le> endp \<or> e = InvalidConfig ''local_port_range start > end'' \<and> w' = w
        | None \<Rightarrow> True)"
  by (auto simp: builder_connect_def not_le split: option.splits sum.splits prod.splits list.splits if_splits)


text \<open>The compression level is a switch: two clients that differ only in its value, neither being zero, run alike on
  all outcomes of their awaits, down to the bytes they write.\<close>

theorem compression_level_is_a_switch:
  assumes "0 < a" and "0 < b"
  shows "send_run zl (self\<lparr>cl_compression_level := a\<rparr>) s es = send_run zl (self\<lparr>cl_compression_level := b\<rparr>) s es"
proof (induction es arbitrary: s)
  case (Cons e es)
  have "send_step zl (self\<lparr>cl_compression_level := a\<rparr>) s e = send_step zl (self\<lparr>cl_compression_level := b\<rparr>) s e"
    by (rule send_step_level) (use assms in simp)
  with Cons show ?case by simp
qed simp

theorem compression_level_is_a_switch_witness:
  "send_run (Some stored_flate2) (example_client 3\<lparr>cl_compression_level := 1\<rparr>) (FeedingWindow 2 [7], []) [Fed (Inr ())] =
   send_run (Some stored_flate2) (example_client 3\<lparr>cl_compression_level := 9\<rparr>) (FeedingWindow 2 [7], []) [Fed (Inr ())]"
  by (rule compression_level_is_a_switch) simp_all


text \<open>C19. A send ends: apart from acknowledgements that do not cover the batch, it has at most three awaits more than it has
  events, so without such acknowledgements every run of it is at most that long, whatever the awaits yield; and it
  does not stop on the way: until it has returned (or panicked) there is an outcome of its await that it goes on with.\<close>

theorem send_terminates:
  assumes "\<forall>ev \<in> set evs. \<forall>d. to_vec ev = Inr d \<longrightarrow> length d < 2 ^ 32"
    and "send_run zl self (send_start to_vec zl evs, out0) es = Some s"
  shows "length es \<le> length evs + 3 + length (filter is_ack es) \<and>
    ((\<exists>r. fst s = SendReturned r) \<or> fst s = SendPanicked \<or> (\<exists>ev. send_step zl self s ev \<noteq> None))"
  using send_awaits_bounded [OF assms] send_not_stuck [of "fst s" zl self "snd s"] by simp

theorem send_terminates_witness:
  "length (all_written (example_client 0) 2 @ acks [0, 2]) \<le>
     length example_batch + 3 + length (filter is_ack (all_written (example_client 0) 2 @ acks [0, 2])) \<and>
   ((\<exists>r. fst (SendReturned (Inr 2), batch_wire no_zlib (example_client 0) 2 (numbered 0 example_batch)) = SendReturned r) \<or>
    fst (SendReturned (Inr 2), batch_wire no_zlib (example_client 0) 2 (numbered 0 example_batch)) = SendPanicked \<or>
    (\<exists>ev. send_step no_zlib (example_client 0)
       (SendReturned (Inr 2), batch_wire no_zlib (example_client 0) 2 (numbered 0 example_batch)) ev \<noteq> None))"
proof (rule send_terminates)
  show "\<forall>ev \<in> set example_batch. \<forall>d. Inr ev = (Inr d :: string + bytes) \<longrightarrow> length d < 2 ^ 32"
    using example_batch_facts(3) by simp
  have "send_run no_zlib (example_client 0)
      (FeedingWindow 2 (json_wire (numbered 0 example_batch)), []) (all_written (example_client 0) 2) =
      Some (AwaitingAck 2, batch_wire no_zlib (example_client 0) 2 (numbered 0 example_batch))"
    using send_run_written [of no_zlib "example_client 0" "numbered 0 example_batch" 2 "[]"] by simp
  then show "send_run no_zlib (example_client 0) (send_start Inr no_zlib example_batch, [])
      (all_written (example_client 0) 2 @ acks [0, 2]) =
    Some (SendReturned (Inr 2), batch_wire no_zlib (example_client 0) 2 (numbered 0 example_batch))"
    by (simp add: send_start_ok [OF example_batch_serialized] acks_def)
qed

end
