(* ===== verification/Conversation.thy ===== *)
theory Conversation
  imports Server Client
begin

text \<open>
  The two ends together: what a batch of the client (\<^verbatim>\<open>src/client.rs\<close>) is to the connection task of the server
  (\<^verbatim>\<open>src/server.rs\<close>), frame by frame, and how the acknowledgements read back.
\<close>

section \<open>The frames of a batch\<close>

text \<open>What a server with frame limit \<open>limit\<close> needs to take the batch.\<close>

definition deliverable :: "'d flate2 option \<Rightarrow> 's client \<Rightarrow> usize \<Rightarrow> event list \<Rightarrow> bool" where
  "deliverable zl self limit js \<longleftrightarrow>
     events_fit limit js \<and> (cl_compression_level self > 0 \<longrightarrow> fits zl limit (Compressed (json_wire js)))"

definition items_arriving :: "nat \<Rightarrow> frame result list \<Rightarrow> (nat \<times> conn_event) list" where
  "items_arriving tx items = map (\<lambda>item. (tx, NextItem (Some item))) items"

lemma items_arriving_frames [simp]:
  "items_arriving tx (map Inr fs) = arriving tx fs"
  "items_arriving tx (map Inr fs @ items) = arriving tx fs @ items_arriving tx items"
  by (simp_all add: items_arriving_def arriving_def)

lemma json_frames_fit: "events_fit limit js \<Longrightarrow> \<forall>f \<in> set (json_frames js). fits zl limit f"
  by (auto simp: json_frames_def events_fit_def)

lemma batch_frames_fit:
  "deliverable zl self limit js \<Longrightarrow> \<forall>f \<in> set (batch_frames self n js). fits zl limit f"
  using json_frames_fit [of limit js zl]
  by (auto simp: deliverable_def batch_frames_def simp del: fits.simps(2))

lemma length_fits_word: "k < 2 ^ 32 \<Longrightarrow> unat (word_of_nat k :: u32) = k"
  by (simp add: unat_of_nat)

lemma numbered_window:
  assumes "length ds < 2 ^ 32"
  shows "sorted_wrt (<) (0 # map fst (numbered 0 ds))"
    and "last (0 # map fst (numbered 0 ds)) = (word_of_nat (length ds) :: u32)"
  using numbered_increasing [of 0 ds] numbered_last [of 0 ds] assms by simp_all

lemma batch_frames_dispatch:
  assumes "length ds < 2 ^ 32" and "ds \<noteq> []" and "n = word_of_nat (length ds)"
    and "deliverable zl self (conn_max_frame_size cfg) (numbered 0 ds)"
  shows "conn_run zl cfg AwaitWindow (arriving tx (batch_frames self n (numbered 0 ds))) =
    Some (Dispatching (batch_new ds n tx) tx)"
proof -
  have len: "length (numbered 0 ds) = unat n" using assms(1,3) by (simp add: length_fits_word)
  have "dispatch_of tx (numbered 0 ds) = Dispatching (batch_new ds n tx) tx"
    using numbered_window(2) [OF assms(1)] assms(3) by (simp add: dispatch_of_def)
  then show ?thesis
    using window_run_json [OF numbered_window(1) [OF assms(1)] len, of zl cfg tx]
      window_run_compressed [OF numbered_window(1) [OF assms(1)] len, of cfg zl tx] assms(2,4)
    by (simp add: batch_frames_def deliverable_def)
qed

lemma acks_read:
  assumes "crate_build zl" and "framed_read (codec_decode zl c) trunc [] cs items"
    and "concat cs = concat (map (wire zl) (map Ack seqs))"
  shows "items = map Inr (map Ack seqs)"
  using framing.framed_read_encoded_all [OF crate_build.codec_contract [OF assms(1)] assms(2), of "map Ack seqs"] assms(3)
  by (auto simp: codec_decode_parse simp del: wire.simps)

end
