(* ===== verification/Session.thy ===== *)
theory Session
  imports Conversation
begin

text \<open>
  A client that sends batch after batch, the network, and the connection task of the server, composed. The client calls
  \<open>Client::send\<close> again and again, after an error too if it likes, as the code lets it; the network hands over the bytes of either direction
  in pieces of any size, at any time; both ends read through their codecs; the application behind the server takes and
  releases batches when it likes. Timers fire, reads and writes fail, and streams end at any time.

  Of the application only two facts enter, both proved in \<open>Server\<close> for every interleaving with other connections: a batch
  is taken or refused once, and what comes back through its channel is its own last sequence number. That a connection of a
  server with many clients is such a session is shown in \<open>Fleet\<close>.
\<close>

section \<open>The composed system\<close>

text \<open>
  A link is a client with its network: \<open>fed\<close> and \<open>replies\<close> are all the bytes the client and the server have put into
  their write halves since the connection was made; the first \<open>taken\<close> and \<open>returned\<close> of them have arrived; \<open>confirmed\<close>
  counts the sends that returned \<open>Ok\<close>; \<open>resumed\<close> records that the client has sent again on this connection after a send
  that returned an error: it is a history variable, no step depends on it. A client with nothing in flight is one whose last send has returned \<open>Ok\<close>; before
  its first send that is \<open>Ok(0)\<close>, the result of sending nothing. A session is a link with the connection task at its other
  end: \<open>delivered\<close> are the events of the batches the application's channel has accepted, \<open>acked\<close> counts the
  acknowledgements that have come back from the application.
\<close>

record 'ev link =
  todo :: "'ev list list"
  sending :: send_state
  confirmed :: nat
  resumed :: bool
  fed :: bytes
  taken :: nat
  inbox :: bytes
  replies :: bytes
  returned :: nat
  client_inbox :: bytes

record 'ev session = "'ev link" +
  peer :: conn_state
  delivered :: "bytes list list"
  acked :: nat

definition link_start :: "'ev list list \<Rightarrow> 'ev link" where
  "link_start work =
     \<lparr>todo = work, sending = SendReturned (Inr 0), confirmed = 0, resumed = False, fed = [], taken = 0, inbox = [], replies = [],
      returned = 0, client_inbox = []\<rparr>"

definition session_start :: "'ev list list \<Rightarrow> 'ev session" where
  "session_start work = link.extend (link_start work) \<lparr>peer = AwaitWindow, delivered = [], acked = 0\<rparr>"

datatype link_event =
    SendNext
  | Await send_event
  | ReadReply
  | ToServer nat
  | ToClient nat

datatype session_event =
    Link link_event
  | PeerReads
  | PeerFails "error option"
  | PeerHands bool
  | PeerAcked
  | PeerTimer
  | PeerWrites "unit result" bool

text \<open>The client moves; a send that has just returned \<open>Ok\<close> is counted.\<close>

fun counts :: "send_state \<Rightarrow> nat" where
  "counts (SendReturned (Inr _)) = 1"
| "counts _ = 0"

definition client_moves ::
    "'d flate2 option \<Rightarrow> 's client \<Rightarrow> send_event \<Rightarrow> ('ev, 'x) link_scheme \<Rightarrow> ('ev, 'x) link_scheme option" where
  "client_moves zl self e s =
     (case send_step zl self (sending s, fed s) e of
        None \<Rightarrow> None
      | Some (st, out) \<Rightarrow> Some (s\<lparr>sending := st, fed := out, confirmed := confirmed s + counts st\<rparr>))"

fun link_step ::
    "'d flate2 option \<Rightarrow> ('ev \<Rightarrow> string + bytes) \<Rightarrow> 's client \<Rightarrow> link_event \<Rightarrow>
     ('ev, 'x) link_scheme \<Rightarrow> ('ev, 'x) link_scheme option" where
  "link_step zl to_vec self SendNext s =
     (case (sending s, todo s) of
        (SendReturned r, evs # rest) \<Rightarrow>
          Some ((if isl r then s\<lparr>resumed := True\<rparr> else s)
                \<lparr>sending := send_start to_vec zl evs, todo := rest,
                  confirmed := confirmed s + counts (send_start to_vec zl evs)\<rparr>)
      | _ \<Rightarrow> None)"
| "link_step zl to_vec self (Await e) s =
     (case e of Arrived (Some (Inr _)) \<Rightarrow> None | _ \<Rightarrow> client_moves zl self e s)"
| "link_step zl to_vec self ReadReply s =
     (case codec_decode zl (cl_codec self) (client_inbox s) of
        Some (Inr (Some f), buf) \<Rightarrow> client_moves zl self (Arrived (Some (Inr f))) (s\<lparr>client_inbox := buf\<rparr>)
      | Some (Inl e, buf) \<Rightarrow> client_moves zl self (Arrived (Some (Inl e))) (s\<lparr>client_inbox := buf\<rparr>)
      | _ \<Rightarrow> None)"
| "link_step zl to_vec self (ToServer k) s =
     (if taken s + k \<le> length (fed s)
      then Some (s\<lparr>inbox := inbox s @ take k (drop (taken s) (fed s)), taken := taken s + k\<rparr>)
      else None)"
| "link_step zl to_vec self (ToClient k) s =
     (if returned s + k \<le> length (replies s)
      then Some (s\<lparr>client_inbox := client_inbox s @ take k (drop (returned s) (replies s)), returned := returned s + k\<rparr>)
      else None)"

definition peer_moves ::
    "'d flate2 option \<Rightarrow> connection_config \<Rightarrow> conn_event \<Rightarrow> 'ev session \<Rightarrow> 'ev session option" where
  "peer_moves zl cfg e s =
     (case conn_step zl cfg 0 (peer s) e of None \<Rightarrow> None | Some p \<Rightarrow> Some (s\<lparr>peer := p\<rparr>))"

text \<open>
  What the server's read half yields next, and what a write of the server leaves in its write half. A write that fails may
  still have got its frame out, or not; a part of a frame makes no difference to the client, whose stream then ends or
  fails.
\<close>

definition peer_item ::
    "'d flate2 option \<Rightarrow> connection_config \<Rightarrow> ('ev, 'x) link_scheme \<Rightarrow> (frame result \<times> bytes) option" where
  "peer_item zl cfg s =
     (case codec_decode zl (with_max_frame_size (conn_max_frame_size cfg)) (inbox s) of
        Some (Inr (Some f), buf) \<Rightarrow> Some (Inr f, buf)
      | Some (Inl e, buf) \<Rightarrow> Some (Inl e, buf)
      | _ \<Rightarrow> None)"

definition peer_output ::
    "'d flate2 option \<Rightarrow> conn_state \<Rightarrow> unit result \<Rightarrow> bool \<Rightarrow> ('ev, 'x) link_scheme \<Rightarrow> ('ev, 'x) link_scheme option" where
  "peer_output zl p r got_out s =
     do { f \<leftarrow> writing p;
          out \<leftarrow> encode zl f (replies s);
          Some (if r = Inr () \<or> got_out then s\<lparr>replies := out\<rparr> else s) }"

fun session_step ::
    "'d flate2 option \<Rightarrow> ('ev \<Rightarrow> string + bytes) \<Rightarrow> 's client \<Rightarrow> connection_config \<Rightarrow> session_event \<Rightarrow>
     'ev session \<Rightarrow> 'ev session option" where
  "session_step zl to_vec self cfg (Link e) s = link_step zl to_vec self e s"
| "session_step zl to_vec self cfg PeerReads s =
     do { (item, buf) \<leftarrow> peer_item zl cfg s; peer_moves zl cfg (NextItem (Some item)) (s\<lparr>inbox := buf\<rparr>) }"
| "session_step zl to_vec self cfg (PeerFails r) s = peer_moves zl cfg (NextItem (map_option Inl r)) s"
| "session_step zl to_vec self cfg (PeerHands ok) s =
     (case peer s of
        Dispatching b rx \<Rightarrow>
          peer_moves zl cfg (BatchSent ok) (if ok then s\<lparr>delivered := delivered s @ [events b]\<rparr> else s)
      | _ \<Rightarrow> None)"
| "session_step zl to_vec self cfg PeerAcked s =
     (case peer s of
        AwaitAck rx seq \<Rightarrow> peer_moves zl cfg (AckReceived (Some seq)) (s\<lparr>acked := Suc (acked s)\<rparr>)
      | _ \<Rightarrow> None)"
| "session_step zl to_vec self cfg PeerTimer s = peer_moves zl cfg KeepaliveElapsed s"
| "session_step zl to_vec self cfg (PeerWrites r got_out) s =
     do { s \<leftarrow> peer_output zl (peer s) r got_out s; peer_moves zl cfg (FrameSent r) s }"

fun session_run ::
    "'d flate2 option \<Rightarrow> ('ev \<Rightarrow> string + bytes) \<Rightarrow> 's client \<Rightarrow> connection_config \<Rightarrow> session_event list \<Rightarrow>
     'ev session \<Rightarrow> 'ev session option" where
  "session_run zl to_vec self cfg [] s = Some s"
| "session_run zl to_vec self cfg (e # es) s =
     do { s \<leftarrow> session_step zl to_vec self cfg e s; session_run zl to_vec self cfg es s }"

inductive session_reach ::
    "'d flate2 option \<Rightarrow> ('ev \<Rightarrow> string + bytes) \<Rightarrow> 's client \<Rightarrow> connection_config \<Rightarrow> 'ev list list \<Rightarrow>
     'ev session \<Rightarrow> bool" for zl to_vec self cfg work where
  start: "session_reach zl to_vec self cfg work (session_start work)"
| step: "session_reach zl to_vec self cfg work s \<Longrightarrow> session_step zl to_vec self cfg e s = Some s' \<Longrightarrow>
    session_reach zl to_vec self cfg work s'"

section \<open>Streams of frames\<close>

definition stream :: "'d flate2 option \<Rightarrow> frame list \<Rightarrow> bytes" where
  "stream zl fs = concat (map (wire zl) fs)"

lemma stream_simps [simp]:
  "stream zl [] = []" "stream zl (f # fs) = wire zl f @ stream zl fs" "stream zl (fs @ fs') = stream zl fs @ stream zl fs'"
  by (simp_all add: stream_def)

lemma wire_nonempty: "encodable zl f \<Longrightarrow> wire zl f \<noteq> []"
  by (cases f) (auto split: option.splits)

lemma stream_empty_iff: "\<forall>f \<in> set fs. encodable zl f \<Longrightarrow> stream zl fs = [] \<longleftrightarrow> fs = []"
  by (cases fs) (auto simp: wire_nonempty)

text \<open>Of two beginnings of the same list of frames, the one with more bytes has more frames.\<close>

lemma stream_prefix_extends:
  assumes "fs @ xs = fs' @ xs'" and "stream zl fs' = stream zl fs @ w" and "\<forall>f \<in> set (fs @ xs). encodable zl f"
  shows "\<exists>ys. fs' = fs @ ys \<and> w = stream zl ys"
proof -
  from assms(1) consider ys where "fs' = fs @ ys" | ys where "fs = fs' @ ys"
    by (auto simp: append_eq_append_conv2)
  then show ?thesis
  proof cases
    case (2 ys)
    with assms(2) have "stream zl ys @ w = []" by simp
    moreover from 2 assms(3) have "\<forall>f \<in> set ys. encodable zl f" by auto
    ultimately show ?thesis using 2 stream_empty_iff by auto
  qed (use assms(2) in auto)
qed

text \<open>A decoder on a beginning of a stream yields its first frame or waits.\<close>

lemma stream_decode:
  assumes "crate_build zl" and "\<forall>f \<in> set fs. fits zl (max_frame_size c) f" and "buf @ x = stream zl fs"
  shows "codec_decode zl c buf = Some (Inr None, buf) \<or>
    (\<exists>f fs' buf'. fs = f # fs' \<and> codec_decode zl c buf = Some (Inr (Some f), buf') \<and> buf' @ x = stream zl fs')"
proof (cases fs)
  case Nil
  with assms(3) show ?thesis by (simp add: codec_decode_parse)
next
  case (Cons f fs')
  with assms(2) have fit: "fits zl (max_frame_size c) f" by simp
  from assms(3) Cons have "buf @ x = wire zl f @ stream zl fs'" by simp
  then consider (short) y where "wire zl f = buf @ y" "y \<noteq> []" | (whole) buf' where "buf = wire zl f @ buf'" "buf' @ x = stream zl fs'"
    by (auto simp: append_eq_append_conv2) (metis append.right_neutral)+
  then show ?thesis
  proof cases
    case short
    with crate_build.parse_frame_prefix [OF assms(1) fit] show ?thesis by (simp add: codec_decode_parse)
  next
    case whole
    with crate_build.parse_frame_wire [OF assms(1) fit, of buf'] Cons show ?thesis by (simp add: codec_decode_parse)
  qed
qed


section \<open>Batches that fit\<close>

definition good_batch ::
    "'d flate2 option \<Rightarrow> ('ev \<Rightarrow> string + bytes) \<Rightarrow> 's client \<Rightarrow> usize \<Rightarrow> 'ev list \<Rightarrow> bytes list \<Rightarrow> bool" where
  "good_batch zl to_vec self limit evs ds \<longleftrightarrow>
     serialized to_vec evs ds \<and> evs \<noteq> [] \<and> length evs < 2 ^ 32 \<and> deliverable zl self limit (numbered 0 ds)"

abbreviation batch_count :: "bytes list \<Rightarrow> u32" where
  "batch_count ds \<equiv> word_of_nat (length ds)"

definition frames_of :: "'s client \<Rightarrow> bytes list \<Rightarrow> frame list" where
  "frames_of self ds = batch_frames self (batch_count ds) (numbered 0 ds)"

lemma good_batchD:
  assumes "good_batch zl to_vec self limit evs ds"
  shows "length ds = length evs" "ds \<noteq> []" "length ds < 2 ^ 32" "0 < batch_count ds" "events_short (numbered 0 ds)"
    "\<forall>f \<in> set (frames_of self ds). fits zl limit f" "\<forall>f \<in> set (frames_of self ds). encodable zl f"
    "frames_of self ds \<noteq> []"
    "send_start to_vec zl evs = FeedingWindow (batch_count ds) (json_wire (numbered 0 ds))"
proof -
  from assms have len: "length ds = length evs" and ne: "evs \<noteq> []" and short: "length evs < 2 ^ 32"
    and del: "deliverable zl self limit (numbered 0 ds)" and ser: "serialized to_vec evs ds"
    by (auto simp: good_batch_def dest: serialized_length)
  show "length ds = length evs" "length ds < 2 ^ 32" using len short by simp_all
  show ds: "ds \<noteq> []" using len ne by auto
  show "0 < batch_count ds" using ds short len length_fits_word [of "length ds"] by (auto simp: word_gt_0)
  show "events_short (numbered 0 ds)" using del by (auto simp: deliverable_def events_fit_def)
  show fit: "\<forall>f \<in> set (frames_of self ds). fits zl limit f"
    unfolding frames_of_def by (rule batch_frames_fit [OF del])
  then show "\<forall>f \<in> set (frames_of self ds). encodable zl f" using fits_encodable by blast
  show "frames_of self ds \<noteq> []" by (simp add: frames_of_def batch_frames_def)
  show "send_start to_vec zl evs = FeedingWindow (batch_count ds) (json_wire (numbered 0 ds))"
    using send_start_ok [OF ser ne, of zl] len by simp
qed

text \<open>What a beginning of a batch does to the connection task: it collects until the batch is complete.\<close>

lemma batch_prefix_run:
  assumes good: "good_batch zl to_vec self (conn_max_frame_size cfg) evs ds"
    and split: "frames_of self ds = hs @ hs'" and ne: "hs \<noteq> []"
  shows "if hs' = [] then conn_run zl cfg AwaitWindow (arriving tx hs) = Some (Dispatching (batch_new ds (batch_count ds) tx) tx)
    else \<exists>st. conn_run zl cfg AwaitWindow (arriving tx hs) = Some (Collecting st)"
proof (cases "hs' = []")
  case True
  with split good batch_frames_dispatch [OF good_batchD(3) [OF good] good_batchD(2) [OF good] refl] show ?thesis
    by (auto simp: frames_of_def good_batch_def)
next
  case False
  let ?js = "numbered 0 ds"
  from split ne obtain hs2 where hs: "hs = Window (batch_count ds) # hs2"
    by (cases hs) (auto simp: frames_of_def batch_frames_def)
  note len = length_fits_word [OF good_batchD(3) [OF good]]
  have sorted: "sorted_wrt (<) (0 # map fst js1)" if "?js = js1 @ js2" for js1 js2
    using numbered_window(1) [OF good_batchD(3) [OF good]] that by (simp add: sorted_wrt_append)
  have "\<exists>js1 js2. hs2 = json_frames js1 \<and> ?js = js1 @ js2 \<and> js2 \<noteq> []"
  proof (cases "cl_compression_level self > 0")
    case True
    with split hs False have "hs2 = []"
      by (auto simp: frames_of_def batch_frames_def Cons_eq_append_conv)
    with good_batchD(2) [OF good] show ?thesis
      by (intro exI [of _ "[]"] exI [of _ ?js]) (simp add: json_frames_def)
  next
    case level: False
    with split hs have "map (\<lambda>(seq, data). Json seq data) ?js = hs2 @ hs'"
      by (simp add: frames_of_def batch_frames_def json_frames_def)
    then obtain js1 js2 where "?js = js1 @ js2" "hs2 = json_frames js1" "hs' = json_frames js2"
      by (auto simp: map_eq_append_conv json_frames_def)
    with False show ?thesis by (intro exI [of _ js1] exI [of _ js2]) (auto simp: json_frames_def)
  qed
  then obtain js1 js2 where js: "hs2 = json_frames js1" "?js = js1 @ js2" "js2 \<noteq> []" by blast
  have "length js1 < length ?js" using js by simp
  then have "length js1 < unat (batch_count ds)" using len by simp
  from window_partial [OF sorted [OF js(2)] this, of zl cfg tx] hs js(1) False show ?thesis by simp
qed


section \<open>The invariant\<close>

text \<open>
  \<open>c\<close> is the number of confirmed batches, \<open>fs\<close> the frames of the next one that the client has written so far, \<open>qs\<close> the
  frames that the server has not read yet, \<open>a\<close> the acknowledgement of that batch, if it is under way.
\<close>

definition sent_frames :: "'s client \<Rightarrow> bytes list list \<Rightarrow> nat \<Rightarrow> frame list" where
  "sent_frames self dss c = concat (map (frames_of self) (take c dss))"

definition client_side ::
    "'d flate2 option \<Rightarrow> 's client \<Rightarrow> 'ev list list \<Rightarrow> bytes list list \<Rightarrow> frame list \<Rightarrow> 'ev session \<Rightarrow> bool" where
  "client_side zl self work dss fs s \<longleftrightarrow>
     (let c = confirmed s in
      c \<le> length dss \<and> fed s = stream zl (sent_frames self dss c) @ stream zl fs \<and>
      (if \<exists>m. sending s = SendReturned (Inr m) then fs = [] \<and> todo s = drop c work
       else c < length dss \<and> todo s = drop (Suc c) work \<and> (\<exists>fs'. frames_of self (dss ! c) = fs @ fs') \<and>
         send_inv zl self (stream zl (sent_frames self dss c)) (batch_count (dss ! c)) (numbered 0 (dss ! c))
           (sending s, fed s)))"

definition handed_over :: "'s client \<Rightarrow> bytes list list \<Rightarrow> nat \<Rightarrow> frame list \<Rightarrow> bytes list list \<Rightarrow> bool" where
  "handed_over self dss c fs del \<longleftrightarrow> c < length dss \<and> del = take (Suc c) dss \<and> fs = frames_of self (dss ! c)"

fun server_side ::
    "'d flate2 option \<Rightarrow> 's client \<Rightarrow> connection_config \<Rightarrow> bytes list list \<Rightarrow> nat \<Rightarrow> frame list \<Rightarrow> frame list \<Rightarrow>
     u32 list \<Rightarrow> nat \<Rightarrow> bytes list list \<Rightarrow> conn_state \<Rightarrow> bool" where
  "server_side zl self cfg dss c fs qs a d del AwaitWindow =
     (a = [] \<and> d = c \<and> del = take c dss \<and> fs = qs \<or>
      a = [batch_count (dss ! c)] \<and> d = Suc c \<and> handed_over self dss c fs del \<and> qs = [])"
| "server_side zl self cfg dss c fs qs a d del (Collecting st) =
     (a = [] \<and> d = c \<and> del = take c dss \<and>
      (\<exists>hs. hs \<noteq> [] \<and> fs = hs @ qs \<and> conn_run zl cfg AwaitWindow (arriving 0 hs) = Some (Collecting st)))"
| "server_side zl self cfg dss c fs qs a d del (Dispatching b rx) =
     (a = [] \<and> d = c \<and> del = take c dss \<and> c < length dss \<and> fs = frames_of self (dss ! c) \<and> qs = [] \<and>
      b = batch_new (dss ! c) (batch_count (dss ! c)) 0)"
| "server_side zl self cfg dss c fs qs a d del (AwaitAck rx seq) =
     (a = [] \<and> d = c \<and> handed_over self dss c fs del \<and> qs = [] \<and> seq = batch_count (dss ! c))"
| "server_side zl self cfg dss c fs qs a d del (SendingKeepalive rx seq) =
     (a = [] \<and> d = c \<and> handed_over self dss c fs del \<and> qs = [] \<and> seq = batch_count (dss ! c))"
| "server_side zl self cfg dss c fs qs a d del (SendingAck seq) =
     (a = [] \<and> d = Suc c \<and> handed_over self dss c fs del \<and> qs = [] \<and> seq = batch_count (dss ! c))"
| "server_side zl self cfg dss c fs qs a d del (Returned r) =
     (a = [] \<and> d = c \<and> del = take c dss \<or>
      (a = [] \<and> (d = c \<or> d = Suc c) \<or> a = [batch_count (dss ! c)] \<and> d = Suc c) \<and> handed_over self dss c fs del)"
| "server_side zl self cfg dss c fs qs a d del Panicked = False"

definition session_inv ::
    "'d flate2 option \<Rightarrow> 's client \<Rightarrow> connection_config \<Rightarrow> 'ev list list \<Rightarrow> bytes list list \<Rightarrow> 'ev session \<Rightarrow> bool" where
  "session_inv zl self cfg work dss s \<longleftrightarrow>
     (\<exists>fs qs k a. client_side zl self work dss fs s \<and>
        server_side zl self cfg dss (confirmed s) fs qs a (acked s) (delivered s) (peer s) \<and>
        inbox s @ drop (taken s) (fed s) = stream zl qs \<and> taken s \<le> length (fed s) \<and>
        client_inbox s @ drop (returned s) (replies s) = stream zl (map Ack (replicate k 0 @ a)) \<and>
        returned s \<le> length (replies s))"

lemma session_invI:
  assumes "client_side zl self work dss fs s"
    and "server_side zl self cfg dss (confirmed s) fs qs a (acked s) (delivered s) (peer s)"
    and "inbox s @ drop (taken s) (fed s) = stream zl qs" and "taken s \<le> length (fed s)"
    and "client_inbox s @ drop (returned s) (replies s) = stream zl (map Ack (replicate k 0 @ a))"
    and "returned s \<le> length (replies s)"
  shows "session_inv zl self cfg work dss s"
  using assms unfolding session_inv_def by blast

lemma session_invE:
  assumes "session_inv zl self cfg work dss s"
  obtains fs qs k a where "client_side zl self work dss fs s"
    "server_side zl self cfg dss (confirmed s) fs qs a (acked s) (delivered s) (peer s)"
    "inbox s @ drop (taken s) (fed s) = stream zl qs" "taken s \<le> length (fed s)"
    "client_inbox s @ drop (returned s) (replies s) = stream zl (map Ack (replicate k 0 @ a))"
    "returned s \<le> length (replies s)"
  using assms unfolding session_inv_def by blast

lemma client_side_frame [simp]:
  "client_side zl self work dss fs (s\<lparr>client_inbox := x\<rparr>) = client_side zl self work dss fs s"
  "client_side zl self work dss fs (s\<lparr>inbox := x\<rparr>) = client_side zl self work dss fs s"
  "client_side zl self work dss fs (s\<lparr>taken := k\<rparr>) = client_side zl self work dss fs s"
  "client_side zl self work dss fs (s\<lparr>returned := k\<rparr>) = client_side zl self work dss fs s"
  "client_side zl self work dss fs (s\<lparr>peer := p\<rparr>) = client_side zl self work dss fs s"
  "client_side zl self work dss fs (s\<lparr>delivered := del\<rparr>) = client_side zl self work dss fs s"
  "client_side zl self work dss fs (s\<lparr>acked := k\<rparr>) = client_side zl self work dss fs s"
  "client_side zl self work dss fs (s\<lparr>replies := x\<rparr>) = client_side zl self work dss fs s"
  "client_side zl self work dss fs (s\<lparr>resumed := b\<rparr>) = client_side zl self work dss fs s"
  unfolding client_side_def by simp_all

text \<open>The server does not notice that the client goes on writing.\<close>

lemma server_side_extends:
  assumes "server_side zl self cfg dss c fs qs a d del p" and "frames_of self (dss ! c) = (fs @ ys) @ fs'"
  shows "server_side zl self cfg dss c (fs @ ys) (qs @ ys) a d del p"
  using assms by (cases p) (auto simp: handed_over_def)

text \<open>The frames that a client has written are determined by the bytes.\<close>

lemma written_frames:
  assumes good: "good_batch zl to_vec self limit evs ds" and "frames_of self ds = fs @ fs'"
    and "written_part zl self out0 (batch_count ds) (numbered 0 ds) ((out0 @ stream zl fs) @ w)"
  shows "\<exists>ys ys'. frames_of self ds = (fs @ ys) @ ys' \<and> w = stream zl ys"
proof -
  from assms(3) obtain gs gs' where gs: "frames_of self ds = gs @ gs'" "stream zl gs = stream zl fs @ w"
    by (auto simp: written_part_def frames_of_def stream_def)
  then show ?thesis
    using stream_prefix_extends [of fs fs' gs gs' zl w] good_batchD(7) [OF good] assms(2) by fastforce
qed

lemma all_frames_written:
  assumes good: "good_batch zl to_vec self limit evs ds" and "frames_of self ds = fs @ fs'"
    and "stream zl fs = batch_wire zl self (batch_count ds) (numbered 0 ds)"
  shows "fs = frames_of self ds"
proof -
  have "stream zl (frames_of self ds) = stream zl fs @ []"
    using assms(3) by (simp add: batch_wire_frames frames_of_def stream_def)
  then have "stream zl fs' = []" using assms(2) by simp
  with good_batchD(7) [OF good] assms(2) stream_empty_iff [of fs' zl] show ?thesis by auto
qed


section \<open>Steps keep the invariant\<close>

abbreviation good_work ::
    "'d flate2 option \<Rightarrow> ('ev \<Rightarrow> string + bytes) \<Rightarrow> 's client \<Rightarrow> connection_config \<Rightarrow> 'ev list list \<Rightarrow>
     bytes list list \<Rightarrow> bool" where
  "good_work zl to_vec self cfg work dss \<equiv> list_all2 (good_batch zl to_vec self (conn_max_frame_size cfg)) work dss"

lemma sent_frames_Suc: "c < length dss \<Longrightarrow> sent_frames self dss (Suc c) = sent_frames self dss c @ frames_of self (dss ! c)"
  by (simp add: sent_frames_def take_Suc_conv_app_nth)

text \<open>The client moves without finishing its send.\<close>

lemma client_moves_inv:
  assumes good: "good_work zl to_vec self cfg work dss" and inv: "session_inv zl self cfg work dss s"
    and step: "send_step zl self (sending s, fed s) e = Some (st, out)" and busy: "\<forall>m. st \<noteq> SendReturned (Inr m)"
  shows "session_inv zl self cfg work dss (s\<lparr>sending := st, fed := out\<rparr>)"
  using inv
proof (rule session_invE)
  fix fs qs k a
  let ?c = "confirmed s"
  let ?out0 = "stream zl (sent_frames self dss ?c)"
  assume *: "client_side zl self work dss fs s"
    "server_side zl self cfg dss ?c fs qs a (acked s) (delivered s) (peer s)"
    "inbox s @ drop (taken s) (fed s) = stream zl qs" "taken s \<le> length (fed s)"
    "client_inbox s @ drop (returned s) (replies s) = stream zl (map Ack (replicate k 0 @ a))"
    "returned s \<le> length (replies s)"
  from step have "\<not> (\<exists>m. sending s = SendReturned (Inr m))" by auto
  with *(1) obtain fs' where c: "?c < length dss" "todo s = drop (Suc ?c) work" "frames_of self (dss ! ?c) = fs @ fs'"
      "send_inv zl self ?out0 (batch_count (dss ! ?c)) (numbered 0 (dss ! ?c)) (sending s, fed s)"
      "fed s = ?out0 @ stream zl fs"
    by (auto simp: client_side_def Let_def)
  from good c(1) have gb: "good_batch zl to_vec self (conn_max_frame_size cfg) (work ! ?c) (dss ! ?c)"
    by (simp add: list_all2_conv_all_nth)
  have inv': "send_inv zl self ?out0 (batch_count (dss ! ?c)) (numbered 0 (dss ! ?c)) (st, out)"
    by (rule send_step_inv [OF good_batchD(5) [OF gb] c(4) step])
  obtain w where w: "out = (?out0 @ stream zl fs) @ w" using send_step_appends [OF step] c(5) by auto
  from written_frames [OF gb c(3)] send_inv_written [OF inv'] w obtain ys ys'
    where ys: "frames_of self (dss ! ?c) = (fs @ ys) @ ys'" "w = stream zl ys" by blast
  show ?thesis
  proof (rule session_invI)
    show "client_side zl self work dss (fs @ ys) (s\<lparr>sending := st, fed := out\<rparr>)"
      using c ys w inv' busy by (auto simp: client_side_def Let_def)
    show "server_side zl self cfg dss (confirmed (s\<lparr>sending := st, fed := out\<rparr>)) (fs @ ys) (qs @ ys) a
        (acked (s\<lparr>sending := st, fed := out\<rparr>)) (delivered (s\<lparr>sending := st, fed := out\<rparr>)) (peer (s\<lparr>sending := st, fed := out\<rparr>))"
      using server_side_extends [OF *(2) ys(1)] by simp
    show "inbox (s\<lparr>sending := st, fed := out\<rparr>) @ drop (taken (s\<lparr>sending := st, fed := out\<rparr>))
        (fed (s\<lparr>sending := st, fed := out\<rparr>)) = stream zl (qs @ ys)"
      using *(3,4) w ys(2) c(5) by simp
  qed (use * w c(5) in auto)
qed

text \<open>A client that waits for its acknowledgement has written every frame of its batch.\<close>

lemma awaiting_batch:
  assumes good: "good_work zl to_vec self cfg work dss" and side: "client_side zl self work dss fs s"
    and m: "sending s = AwaitingAck m"
  shows "confirmed s < length dss" and "todo s = drop (Suc (confirmed s)) work" and "m = batch_count (dss ! confirmed s)"
    and "good_batch zl to_vec self (conn_max_frame_size cfg) (work ! confirmed s) (dss ! confirmed s)"
    and "fs = frames_of self (dss ! confirmed s)"
    and "fed s = stream zl (sent_frames self dss (confirmed s)) @ stream zl fs"
proof -
  from side m obtain fs' where c: "confirmed s < length dss" "todo s = drop (Suc (confirmed s)) work"
      "frames_of self (dss ! confirmed s) = fs @ fs'" "m = batch_count (dss ! confirmed s)"
      "fed s = stream zl (sent_frames self dss (confirmed s)) @ stream zl fs"
      "stream zl fs = batch_wire zl self (batch_count (dss ! confirmed s)) (numbered 0 (dss ! confirmed s))"
    by (auto simp: client_side_def Let_def)
  from good c(1) show gb: "good_batch zl to_vec self (conn_max_frame_size cfg) (work ! confirmed s) (dss ! confirmed s)"
    by (simp add: list_all2_conv_all_nth)
  show "fs = frames_of self (dss ! confirmed s)" by (rule all_frames_written [OF gb c(3,6)])
qed (use side m in \<open>auto simp: client_side_def Let_def\<close>)

text \<open>Only an acknowledgement is ever read there.\<close>

lemma reply_read:
  assumes build: "crate_build zl" and rest: "client_inbox s @ x = stream zl (map Ack seqs)"
    and step: "link_step zl to_vec self ReadReply s = Some s'"
  obtains m seq seqs' buf where "seqs = seq # seqs'" "buf @ x = stream zl (map Ack seqs')" "sending s = AwaitingAck m"
    "s' = (if seq \<ge> m then s\<lparr>client_inbox := buf, sending := SendReturned (Inr m), confirmed := Suc (confirmed s)\<rparr>
           else s\<lparr>client_inbox := buf\<rparr>)"
    "length buf < length (client_inbox s)"
proof -
  have "\<forall>f \<in> set (map Ack seqs). fits zl (max_frame_size (cl_codec self)) f" by auto
  from stream_decode [OF build this rest] step obtain seq seqs' buf where
    x: "seqs = seq # seqs'" "buf @ x = stream zl (map Ack seqs')" and
    dec: "codec_decode zl (cl_codec self) (client_inbox s) = Some (Inr (Some (Ack seq)), buf)"
    by (auto simp: map_eq_Cons_conv simp del: map_append)
  from dec step obtain st out where
    st: "send_step zl self (sending s, fed s) (Arrived (Some (Inr (Ack seq)))) = Some (st, out)" and
    s': "s' = s\<lparr>client_inbox := buf, sending := st, fed := out, confirmed := confirmed s + counts st\<rparr>"
    by (auto simp: client_moves_def split: option.splits)
  from st obtain m where m: "sending s = AwaitingAck m"
    by (cases "(zl, self, (sending s, fed s), Arrived (Some (Inr (Ack seq))))" rule: send_step.cases)
      (auto simp: feed_then_def)
  show ?thesis
    by (rule that [OF x m _ codec.frame_shrinks [OF dec]]) (use st s' m in \<open>cases s; auto split: if_splits\<close>)
qed

text \<open>The client reads: a keepalive leaves it waiting, the acknowledgement of its batch ends the send.\<close>

lemma client_reads_inv:
  assumes build: "crate_build zl" and good: "good_work zl to_vec self cfg work dss"
    and inv: "session_inv zl self cfg work dss s"
    and step: "session_step zl to_vec self cfg (Link ReadReply) s = Some s'"
  shows "session_inv zl self cfg work dss s' \<and>
    (\<exists>m. sending s' = AwaitingAck m \<or> sending s' = SendReturned (Inr m)) \<and>
    (\<exists>buf. s' = s\<lparr>client_inbox := buf, sending := sending s', confirmed := confirmed s'\<rparr> \<and>
       length buf < length (client_inbox s))"
  using inv
proof (rule session_invE)
  fix fs qs k a
  let ?c = "confirmed s"
  let ?out0 = "stream zl (sent_frames self dss ?c)" and ?n = "batch_count (dss ! ?c)"
  assume *: "client_side zl self work dss fs s"
    "server_side zl self cfg dss ?c fs qs a (acked s) (delivered s) (peer s)"
    "inbox s @ drop (taken s) (fed s) = stream zl qs" "taken s \<le> length (fed s)"
    "client_inbox s @ drop (returned s) (replies s) = stream zl (map Ack (replicate k 0 @ a))"
    "returned s \<le> length (replies s)"
  from step have "link_step zl to_vec self ReadReply s = Some s'" by simp
  from reply_read [OF build *(5) this] obtain m x xs buf where x: "replicate k 0 @ a = x # xs"
      "buf @ drop (returned s) (replies s) = stream zl (map Ack xs)" and m: "sending s = AwaitingAck m"
    and s': "s' = (if x \<ge> m then s\<lparr>client_inbox := buf, sending := SendReturned (Inr m), confirmed := Suc ?c\<rparr>
           else s\<lparr>client_inbox := buf\<rparr>)" and less: "length buf < length (client_inbox s)" .
  note c = awaiting_batch [OF good *(1) m]
  show ?thesis
  proof (cases k)
    case (Suc k')
    with x(1) have xs: "x = 0" "xs = replicate k' 0 @ a" by auto
    with s' c(3) good_batchD(4) [OF c(4)] have s'': "s' = s\<lparr>client_inbox := buf\<rparr>" by auto
    with * x(2) xs(2) have "session_inv zl self cfg work dss s'"
      by (intro session_invI [of zl self work dss fs "s'" cfg qs a k']) simp_all
    with s'' m less show ?thesis by (cases s) auto
  next
    case 0
    with x(1) have a: "a = x # xs" by simp
    with *(2) have "x = ?n" "xs = []" and d: "acked s = Suc ?c" and over: "handed_over self dss ?c fs (delivered s)"
      and p: "peer s = AwaitWindow \<and> qs = [] \<or> (\<exists>r. peer s = Returned r)"
      by (cases "peer s"; auto)+
    with s' c(3) have s': "s' = s\<lparr>client_inbox := buf, sending := SendReturned (Inr ?n), confirmed := Suc ?c\<rparr>"
      by auto
    have "session_inv zl self cfg work dss s'"
    proof (rule session_invI [of zl self work dss "[]" s' cfg qs "[]" 0])
      show "client_side zl self work dss [] s'"
        using c(1,2,5,6) by (simp add: client_side_def s' sent_frames_Suc)
      show "server_side zl self cfg dss (confirmed s') [] qs [] (acked s') (delivered s') (peer s')"
        using p over d by (auto simp: s' handed_over_def)
    qed (use * x \<open>xs = []\<close> s' in simp_all)
    with s' less show ?thesis by auto
  qed
qed


text \<open>
  The client goes on to its next batch. From here on the client is one that has not sent again after an error; \<open>resumed\<close>
  never goes back to \<open>False\<close>, so that it is enough to say so of the last state.
\<close>

lemma send_next_cases:
  assumes "link_step zl to_vec self SendNext s = Some s'"
  obtains r evs rest where "sending s = SendReturned r" "todo s = evs # rest"
    "s' = (if isl r then s\<lparr>resumed := True\<rparr> else s)
       \<lparr>sending := send_start to_vec zl evs, todo := rest, confirmed := confirmed s + counts (send_start to_vec zl evs)\<rparr>"
  using assms by (cases "sending s"; cases "todo s"; simp del: if_split add: that)

lemma resumed_link:
  "link_step zl to_vec self e s = Some s' \<Longrightarrow>
   resumed s' \<longleftrightarrow> resumed s \<or> (e = SendNext \<and> (\<exists>err. sending s = SendReturned (Inl err)))"
  by (cases "(zl, to_vec, self, e, s)" rule: link_step.cases)
    (auto simp: client_moves_def isl_def split: send_state.splits list.splits send_event.splits option.splits sum.splits
      prod.splits if_splits)

lemma resumed_peer: "peer_moves zl cfg e s = Some s' \<Longrightarrow> resumed s' = resumed s"
  by (auto simp: peer_moves_def split: option.splits)

lemma resumed_iff:
  assumes "session_step zl to_vec self cfg e s = Some s'"
  shows "resumed s' \<longleftrightarrow> resumed s \<or> (e = Link SendNext \<and> (\<exists>err. sending s = SendReturned (Inl err)))"
  using assms
  by (cases e)
    (auto simp: bind_eq_Some_conv peer_output_def dest!: resumed_link resumed_peer split: conn_state.splits if_splits)

lemma resumed_step: "session_step zl to_vec self cfg e s = Some s' \<Longrightarrow> resumed s \<Longrightarrow> resumed s'"
  by (simp add: resumed_iff)

lemma send_next_inv:
  assumes good: "good_work zl to_vec self cfg work dss" and inv: "session_inv zl self cfg work dss s"
    and step: "session_step zl to_vec self cfg (Link SendNext) s = Some s'" and first: "\<not> resumed s'"
  shows "session_inv zl self cfg work dss s'"
  using inv
proof (rule session_invE)
  fix fs qs k a
  let ?c = "confirmed s"
  assume *: "client_side zl self work dss fs s"
    "server_side zl self cfg dss ?c fs qs a (acked s) (delivered s) (peer s)"
    "inbox s @ drop (taken s) (fed s) = stream zl qs" "taken s \<le> length (fed s)"
    "client_inbox s @ drop (returned s) (replies s) = stream zl (map Ack (replicate k 0 @ a))"
    "returned s \<le> length (replies s)"
  from step have "link_step zl to_vec self SendNext s = Some s'" by simp
  then obtain r evs rest where r: "sending s = SendReturned r" and todo: "todo s = evs # rest"
    by (rule send_next_cases)
  with step first have "\<not> isl r" by auto
  then obtain m where "r = Inr m" by (cases r) auto
  with r todo have st: "sending s = SendReturned (Inr m)" "todo s = evs # rest" by simp_all
  with *(1) have c: "fs = []" "drop ?c work = evs # rest" "fed s = stream zl (sent_frames self dss ?c)"
    by (auto simp: client_side_def Let_def)
  have lt: "?c < length work" using c(2) by (rule_tac ccontr) simp
  with c(2) have work: "evs = work ! ?c" "rest = drop (Suc ?c) work" by (simp_all add: Cons_nth_drop_Suc [symmetric])
  from good lt have gb: "good_batch zl to_vec self (conn_max_frame_size cfg) evs (dss ! ?c)" and lt': "?c < length dss"
    by (simp_all add: list_all2_conv_all_nth work)
  from step st good_batchD(9) [OF gb] have s': "s' = s\<lparr>todo := rest,
      sending := FeedingWindow (batch_count (dss ! ?c)) (json_wire (numbered 0 (dss ! ?c)))\<rparr>"
    by auto
  show ?thesis
    by (rule session_invI [of zl self work dss "[]" s' cfg qs a k])
      (use * c lt' work in \<open>simp_all add: s' client_side_def\<close>)
qed

text \<open>The server reads a frame of the batch: it goes on collecting, or has the batch.\<close>

lemma server_side_reads:
  assumes gb: "good_batch zl to_vec self (conn_max_frame_size cfg) evs (dss ! c)" and c: "c < length dss"
    and frames: "frames_of self (dss ! c) = fs @ fs'"
    and side: "server_side zl self cfg dss c fs (g # gs) a d del p" and p: "p = AwaitWindow \<or> (\<exists>st. p = Collecting st)"
    and step: "conn_step zl cfg 0 p (NextItem (Some (Inr g))) = Some p'"
  shows "a = []" and "server_side zl self cfg dss c fs gs [] d del p'"
    and "(\<exists>st. p' = Collecting st) \<or> (\<exists>b rx. p' = Dispatching b rx)"
proof -
  from side p obtain hs where hs: "a = []" "d = c" "del = take c dss" "fs = hs @ g # gs"
      "conn_run zl cfg AwaitWindow (arriving 0 hs) = Some p" by auto
  show "a = []" by (rule hs(1))
  from frames hs(4) have split: "frames_of self (dss ! c) = (hs @ [g]) @ gs @ fs'" by simp
  from step hs(5) have run: "conn_run zl cfg AwaitWindow (arriving 0 (hs @ [g])) = Some p'"
    by (simp add: arriving_append conn_run_append)
  have "server_side zl self cfg dss c fs gs [] d del p' \<and> ((\<exists>st. p' = Collecting st) \<or> (\<exists>b rx. p' = Dispatching b rx))"
  proof (cases "gs @ fs' = []")
    case True
    with batch_prefix_run [OF gb split, of 0] run split hs c show ?thesis by auto
  next
    case False
    with batch_prefix_run [OF gb split, of 0] run hs show ?thesis
      by (auto intro!: exI [of _ "hs @ [g]"])
  qed
  then show "server_side zl self cfg dss c fs gs [] d del p'"
    and "(\<exists>st. p' = Collecting st) \<or> (\<exists>b rx. p' = Dispatching b rx)" by blast+
qed

lemma peer_reads_inv:
  assumes build: "crate_build zl" and good: "good_work zl to_vec self cfg work dss"
    and inv: "session_inv zl self cfg work dss s"
    and step: "session_step zl to_vec self cfg PeerReads s = Some s'"
  shows "session_inv zl self cfg work dss s' \<and> ((\<exists>st. peer s' = Collecting st) \<or> (\<exists>b rx. peer s' = Dispatching b rx)) \<and>
    (\<exists>buf. s' = s\<lparr>inbox := buf, peer := peer s'\<rparr> \<and> length buf < length (inbox s))"
  using inv
proof (rule session_invE)
  fix fs qs k a
  let ?c = "confirmed s"
  assume *: "client_side zl self work dss fs s"
    "server_side zl self cfg dss ?c fs qs a (acked s) (delivered s) (peer s)"
    "inbox s @ drop (taken s) (fed s) = stream zl qs" "taken s \<le> length (fed s)"
    "client_inbox s @ drop (returned s) (replies s) = stream zl (map Ack (replicate k 0 @ a))"
    "returned s \<le> length (replies s)"
  from step have reading: "peer s = AwaitWindow \<or> (\<exists>st. peer s = Collecting st)"
    by (cases "peer s") (auto simp: peer_moves_def bind_eq_Some_conv split: option.splits sum.splits)
  have ex: "?c < length dss \<and> (\<exists>fs'. frames_of self (dss ! ?c) = fs @ fs')" if "fs \<noteq> []"
    using *(1) that by (auto simp: client_side_def Let_def split: if_splits)
  have gb: "good_batch zl to_vec self (conn_max_frame_size cfg) (work ! ?c) (dss ! ?c)" if "fs \<noteq> []"
    using good ex [OF that] by (simp add: list_all2_conv_all_nth)
  from *(2) reading have sub: "set qs \<subseteq> set fs" by auto
  have "\<forall>f \<in> set qs. fits zl (max_frame_size (with_max_frame_size (conn_max_frame_size cfg))) f"
    using sub ex good_batchD(6) [OF gb] by (cases "fs = []") (auto simp: with_max_frame_size_def)
  from stream_decode [OF build this *(3)] step obtain g gs buf where
    g: "qs = g # gs" "buf @ drop (taken s) (fed s) = stream zl gs" and
    dec: "codec_decode zl (with_max_frame_size (conn_max_frame_size cfg)) (inbox s) = Some (Inr (Some g), buf)" and
    s': "peer_moves zl cfg (NextItem (Some (Inr g))) (s\<lparr>inbox := buf\<rparr>) = Some s'"
    by (auto simp: peer_item_def)
  from s' obtain p where p: "conn_step zl cfg 0 (peer s) (NextItem (Some (Inr g))) = Some p"
      "s' = s\<lparr>inbox := buf, peer := p\<rparr>"
    by (auto simp: peer_moves_def split: option.splits)
  from sub g(1) have ne: "fs \<noteq> []" by auto
  with ex obtain fs' where c: "?c < length dss" "frames_of self (dss ! ?c) = fs @ fs'" by blast
  note read = server_side_reads [OF gb [OF ne] c *(2) [unfolded g(1)] reading p(1)]
  then have "session_inv zl self cfg work dss s'"
    by (intro session_invI [of zl self work dss fs s' cfg gs "[]" k]) (use * g p(2) in simp_all)
  with read(3) p(2) codec.frame_shrinks [OF dec] show ?thesis by auto
qed

text \<open>The other steps of the server.\<close>

lemma peer_steps_inv:
  assumes good: "good_work zl to_vec self cfg work dss" and inv: "session_inv zl self cfg work dss s"
    and step: "session_step zl to_vec self cfg e s = Some s'"
    and e: "(\<exists>r. e = PeerFails r) \<or> (\<exists>ok. e = PeerHands ok) \<or> e = PeerAcked \<or> e = PeerTimer"
  shows "session_inv zl self cfg work dss s'"
  using inv
proof (rule session_invE)
  fix fs qs k a
  let ?c = "confirmed s"
  assume *: "client_side zl self work dss fs s"
    "server_side zl self cfg dss ?c fs qs a (acked s) (delivered s) (peer s)"
    "inbox s @ drop (taken s) (fed s) = stream zl qs" "taken s \<le> length (fed s)"
    "client_inbox s @ drop (returned s) (replies s) = stream zl (map Ack (replicate k 0 @ a))"
    "returned s \<le> length (replies s)"
  have "s' = s\<lparr>delivered := delivered s', peer := peer s', acked := acked s'\<rparr> \<and>
      server_side zl self cfg dss ?c fs qs a (acked s') (delivered s') (peer s')"
    using step e *(2)
    by (cases "peer s")
      (auto simp: peer_moves_def handed_over_def take_Suc_conv_app_nth batch_new_def
        split: option.splits if_splits)
  then obtain p del d where "s' = s\<lparr>delivered := del, peer := p, acked := d\<rparr>" "server_side zl self cfg dss ?c fs qs a d del p" by blast
  then show ?thesis
    by (intro session_invI [of zl self work dss fs s' cfg qs a k]) (use * in simp_all)
qed

lemma stream_replicate_snoc:
  "stream zl (replicate k (Ack 0)) @ wire zl (Ack 0) = stream zl (replicate (Suc k) (Ack 0))"
  by (induction k) (simp_all del: wire.simps)

lemma peer_writes_cases:
  assumes "session_step zl to_vec self cfg (PeerWrites r got) s = Some s'"
  obtains x p where "writing (peer s) = Some (Ack x)" "conn_step zl cfg 0 (peer s) (FrameSent r) = Some p"
    "s' = s\<lparr>replies := (if r = Inr () \<or> got then replies s @ wire zl (Ack x) else replies s), peer := p\<rparr>"
  using assms
  by (cases "peer s")
    (auto simp: bind_eq_Some_conv peer_output_def peer_moves_def encode_wire split: option.splits if_splits simp del: wire.simps)

text \<open>What the server writes is a keepalive or the one acknowledgement that is due; \<open>w\<close> says whether it got out.\<close>

lemma server_side_writes:
  assumes side: "server_side zl self cfg dss c fs qs a d del p" and x: "writing p = Some (Ack x)"
    and step: "conn_step zl cfg 0 p (FrameSent r) = Some p'" and w: "r = Inr () \<Longrightarrow> w"
  shows "\<exists>k' a'. server_side zl self cfg dss c fs qs a' d del p' \<and>
    (if w then stream zl (map Ack (replicate k 0 @ a)) @ wire zl (Ack x) else stream zl (map Ack (replicate k 0 @ a))) =
      stream zl (map Ack (replicate k' 0 @ a'))"
proof (cases p)
  case (SendingKeepalive rx seq)
  with side x step have "a = []" "x = 0" "server_side zl self cfg dss c fs qs [] d del p'"
    by (auto split: sum.splits)
  then show ?thesis
    by (intro exI [of _ "if w then Suc k else k"] exI [of _ "[]"])
      (auto simp: stream_replicate_snoc simp del: wire.simps stream_simps(2) replicate.simps)
next
  case (SendingAck seq)
  with side x step have a: "a = []" "x = batch_count (dss ! c)" by auto
  with SendingAck side step w have "server_side zl self cfg dss c fs qs (if w then [x] else []) d del p'"
    by (auto split: sum.splits if_splits)
  with a show ?thesis
    by (intro exI [of _ k] exI [of _ "if w then [x] else []"]) (auto simp del: wire.simps)
qed (use x in auto)

lemma peer_writes_inv:
  assumes inv: "session_inv zl self cfg work dss s"
    and step: "session_step zl to_vec self cfg (PeerWrites r got) s = Some s'"
  shows "session_inv zl self cfg work dss s'"
  using inv
proof (rule session_invE)
  fix fs qs k a
  let ?c = "confirmed s" and ?w = "r = Inr () \<or> got"
  assume *: "client_side zl self work dss fs s"
    "server_side zl self cfg dss ?c fs qs a (acked s) (delivered s) (peer s)"
    "inbox s @ drop (taken s) (fed s) = stream zl qs" "taken s \<le> length (fed s)"
    "client_inbox s @ drop (returned s) (replies s) = stream zl (map Ack (replicate k 0 @ a))"
    "returned s \<le> length (replies s)"
  from step obtain x p where x: "writing (peer s) = Some (Ack x)" "conn_step zl cfg 0 (peer s) (FrameSent r) = Some p"
    and s': "s' = s\<lparr>replies := (if ?w then replies s @ wire zl (Ack x) else replies s), peer := p\<rparr>"
    by (rule peer_writes_cases)
  obtain k' a' where side: "server_side zl self cfg dss ?c fs qs a' (acked s) (delivered s) p" and
    eq: "(if ?w then stream zl (map Ack (replicate k 0 @ a)) @ wire zl (Ack x) else stream zl (map Ack (replicate k 0 @ a))) =
        stream zl (map Ack (replicate k' 0 @ a'))"
    using server_side_writes [OF *(2) x, of ?w k] by blast
  have "client_inbox s' @ drop (returned s') (replies s') =
      (if ?w then (client_inbox s @ drop (returned s) (replies s)) @ wire zl (Ack x)
       else client_inbox s @ drop (returned s) (replies s))"
    using *(6) s' by (simp del: wire.simps)
  then have "client_inbox s' @ drop (returned s') (replies s') = stream zl (map Ack (replicate k' 0 @ a'))"
    unfolding *(5) eq .
  then show ?thesis
    by (rule session_invI [where fs = fs and qs = qs, rotated 4]) (use * s' side in simp_all)
qed

lemma await_not_ok:
  assumes "send_step zl self s e = Some (st, out)" and "\<forall>f. e \<noteq> Arrived (Some (Inr f))"
  shows "\<forall>m. st \<noteq> SendReturned (Inr m)" and "counts st = 0"
  using assms send_step_ok [of zl self s e _ out] by (auto elim!: counts.elims) (cases st rule: counts.cases; auto)

lemma keep_confirmed [simp]: "s\<lparr>sending := st, fed := out, confirmed := confirmed s\<rparr> = s\<lparr>sending := st, fed := out\<rparr>"
  by (cases s) simp

lemma session_step_inv:
  assumes build: "crate_build zl" and good: "good_work zl to_vec self cfg work dss"
    and inv: "session_inv zl self cfg work dss s" and step: "session_step zl to_vec self cfg e s = Some s'"
    and first: "\<not> resumed s'"
  shows "session_inv zl self cfg work dss s'"
proof (cases e)
  case (Link l)
  have cut: "drop t xs = take k (drop t xs) @ drop (t + k) xs" for k t and xs :: bytes
    by (metis append_take_drop_id add.commute drop_drop)
  show ?thesis
  proof (cases l)
    case SendNext
    with Link step send_next_inv [OF good inv _ first] show ?thesis by blast
  next
    case (Await ev)
    with Link step have ev: "\<forall>f. ev \<noteq> Arrived (Some (Inr f))" and m: "client_moves zl self ev s = Some s'"
      by (auto split: send_event.splits option.splits sum.splits)
    from m obtain st out where st: "send_step zl self (sending s, fed s) ev = Some (st, out)"
        "s' = s\<lparr>sending := st, fed := out, confirmed := confirmed s + counts st\<rparr>"
      by (auto simp: client_moves_def split: option.splits)
    with client_moves_inv [OF good inv st(1)] await_not_ok [OF st(1) ev] show ?thesis by simp
  next
    case ReadReply
    with Link step client_reads_inv [OF build good inv] show ?thesis by blast
  next
    case (ToServer k)
    with inv step Link cut show ?thesis
      by (elim session_invE) (auto intro!: session_invI split: if_splits)
  next
    case (ToClient k)
    with inv step Link cut show ?thesis
      by (elim session_invE) (auto intro!: session_invI split: if_splits)
  qed
next
  case PeerReads
  with step peer_reads_inv [OF build good inv] show ?thesis by blast
next
  case (PeerWrites r got)
  with step peer_writes_inv [OF inv] show ?thesis by blast
qed (use peer_steps_inv [OF good inv step] in auto)

lemma session_start_inv: "session_inv zl self cfg work dss (session_start work)"
  by (rule session_invI [where fs = "[]" and qs = "[]" and k = 0 and a = "[]"])
    (simp_all add: session_start_def link_start_def link.defs client_side_def sent_frames_def)

lemma session_reach_inv:
  assumes "session_reach zl to_vec self cfg work s" and "crate_build zl" and "good_work zl to_vec self cfg work dss"
    and "\<not> resumed s"
  shows "session_inv zl self cfg work dss s"
  using assms(1,4)
proof induction
  case (step s e s')
  then have "\<not> resumed s" using resumed_step by blast
  with step session_step_inv [OF assms(2,3)] show ?case by blast
qed (rule session_start_inv)


text \<open>What the invariant says of the four counts: confirmed, acknowledged by the application, delivered, sent.\<close>

lemma session_inv_counts:
  assumes "session_inv zl self cfg work dss s"
  shows "delivered s = take (length (delivered s)) dss" and "length (delivered s) \<le> length dss"
    and "confirmed s \<le> acked s" and "acked s \<le> length (delivered s)" and "length (delivered s) \<le> Suc (confirmed s)"
proof -
  from assms obtain fs qs a where
    "server_side zl self cfg dss (confirmed s) fs qs a (acked s) (delivered s) (peer s)" "confirmed s \<le> length dss"
    by (elim session_invE) (auto simp: client_side_def Let_def)
  then have "delivered s = take (length (delivered s)) dss \<and> length (delivered s) \<le> length dss \<and>
      confirmed s \<le> acked s \<and> acked s \<le> length (delivered s) \<and> length (delivered s) \<le> Suc (confirmed s)"
    by (cases "peer s") (auto simp: handed_over_def)
  then show "delivered s = take (length (delivered s)) dss" and "length (delivered s) \<le> length dss"
    and "confirmed s \<le> acked s" and "acked s \<le> length (delivered s)" and "length (delivered s) \<le> Suc (confirmed s)"
    by blast+
qed

section \<open>A run that gets everything through\<close>

lemma session_run_append [simp]:
  "session_run zl to_vec self cfg (es @ es') s =
     do { s \<leftarrow> session_run zl to_vec self cfg es s; session_run zl to_vec self cfg es' s }"
  by (induction es arbitrary: s) (auto split: bind_splits)

lemma session_run_reach:
  "session_reach zl to_vec self cfg work s \<Longrightarrow> session_run zl to_vec self cfg es s = Some s' \<Longrightarrow>
   session_reach zl to_vec self cfg work s'"
  by (induction es arbitrary: s) (auto simp: bind_eq_Some_conv intro: session_reach.step)

text \<open>The awaits of a send that wait for no frame, one after the other.\<close>

lemma awaits_run:
  "send_run zl self (sending s, fed s) es = Some (st, out) \<Longrightarrow> \<forall>e \<in> set es. \<forall>r. e \<noteq> Arrived r \<Longrightarrow>
   session_run zl to_vec self cfg (map (Link \<circ> Await) es) s = Some (s\<lparr>sending := st, fed := out\<rparr>)"
proof (induction es arbitrary: s)
  case (Cons e es)
  then obtain st1 out1 where step: "send_step zl self (sending s, fed s) e = Some (st1, out1)"
    and run: "send_run zl self (st1, out1) es = Some (st, out)"
    by (auto simp: bind_eq_Some_conv)
  let ?s = "s\<lparr>sending := st1, fed := out1\<rparr>"
  have "counts st1 = 0" by (rule await_not_ok(2) [OF step]) (use Cons.prems(2) in auto)
  then have "session_step zl to_vec self cfg (Link (Await e)) s = Some ?s"
    using step Cons.prems(2) by (cases e) (auto simp: client_moves_def)
  with Cons.IH [of ?s] run Cons.prems(2) show ?case by simp
qed simp

lemma reads_run:
  assumes build: "crate_build zl"
  shows "inbox s = stream zl gs \<Longrightarrow> \<forall>g \<in> set gs. fits zl (conn_max_frame_size cfg) g \<Longrightarrow>
    conn_run zl cfg (peer s) (arriving 0 gs) = Some p \<Longrightarrow>
    session_run zl to_vec self cfg (replicate (length gs) PeerReads) s = Some (s\<lparr>inbox := [], peer := p\<rparr>)"
proof (induction gs arbitrary: s)
  case Nil
  then show ?case by (cases s) simp
next
  case (Cons g gs)
  from Cons.prems(3) obtain p1 where p1: "conn_step zl cfg 0 (peer s) (NextItem (Some (Inr g))) = Some p1"
      "conn_run zl cfg p1 (arriving 0 gs) = Some p"
    by (auto simp: bind_eq_Some_conv)
  let ?s = "s\<lparr>inbox := stream zl gs, peer := p1\<rparr>"
  have "codec_decode zl (with_max_frame_size (conn_max_frame_size cfg)) (inbox s) = Some (Inr (Some g), stream zl gs)"
    using Cons.prems crate_build.parse_frame_wire [OF build, of _ g "stream zl gs"]
    by (simp add: codec_decode_parse with_max_frame_size_def)
  then have "session_step zl to_vec self cfg PeerReads s = Some ?s"
    using p1(1) by (simp add: peer_item_def peer_moves_def)
  with Cons.IH [of ?s] Cons.prems p1(2) show ?case by simp
qed

text \<open>Both ends have read everything and nothing is in flight.\<close>

definition quiet :: "'ev session \<Rightarrow> bool" where
  "quiet s \<longleftrightarrow> (\<exists>m. sending s = SendReturned (Inr m)) \<and> peer s = AwaitWindow \<and>
     taken s = length (fed s) \<and> inbox s = [] \<and> returned s = length (replies s) \<and> client_inbox s = []"

text \<open>The client writes its next batch out, after an error or not.\<close>

abbreviation batch_written ::
    "'d flate2 option \<Rightarrow> 's client \<Rightarrow> 'ev list list \<Rightarrow> bytes list \<Rightarrow> 'ev session \<Rightarrow> 'ev session" where
  "batch_written zl self rest ds s \<equiv>
     s\<lparr>todo := rest, sending := AwaitingAck (batch_count ds), fed := fed s @ stream zl (frames_of self ds)\<rparr>"

lemma writes_run:
  assumes "sending s = SendReturned r" and "todo s = evs # rest"
    and good: "good_batch zl to_vec self (conn_max_frame_size cfg) evs ds" and send: "sendable zl self (numbered 0 ds)"
  shows "session_run zl to_vec self cfg ([Link SendNext] @ map (Link \<circ> Await) (all_written self (length ds))) s =
    Some (batch_written zl self rest ds (if isl r then s\<lparr>resumed := True\<rparr> else s))"
proof -
  let ?n = "batch_count ds" and ?w = "stream zl (frames_of self ds)"
  define s0 where "s0 = (if isl r then s\<lparr>resumed := True\<rparr> else s)"
  let ?s1 = "s0\<lparr>todo := rest, sending := FeedingWindow ?n (json_wire (numbered 0 ds))\<rparr>"
  have "session_run zl to_vec self cfg [Link SendNext] s = Some ?s1"
    using assms(1,2) good_batchD(9) [OF good] by (cases s) (auto simp: s0_def)
  moreover have "session_run zl to_vec self cfg (map (Link \<circ> Await) (all_written self (length ds))) ?s1 =
      Some (batch_written zl self rest ds s0)"
    using awaits_run [of zl self ?s1 "all_written self (length ds)" "AwaitingAck ?n" "fed s0 @ ?w" to_vec cfg]
      send_run_written [OF send, of ?n "fed s0"]
    by (simp add: batch_wire_frames frames_of_def stream_def all_written_def)
  ultimately show ?thesis unfolding s0_def by (simp only: session_run_append bind.bind_lunit)
qed

text \<open>The batch reaches the server, which has yet to hand it over.\<close>

abbreviation batch_arrived ::
    "'d flate2 option \<Rightarrow> 's client \<Rightarrow> 'ev list list \<Rightarrow> bytes list \<Rightarrow> 'ev session \<Rightarrow> 'ev session" where
  "batch_arrived zl self rest ds s \<equiv>
     s\<lparr>todo := rest, sending := AwaitingAck (batch_count ds), fed := fed s @ stream zl (frames_of self ds), inbox := [],
       taken := length (fed s @ stream zl (frames_of self ds)), peer := Dispatching (batch_new ds (batch_count ds) 0) 0\<rparr>"

lemma batch_arrives:
  assumes build: "crate_build zl" and q: "quiet s" and todo: "todo s = evs # rest"
    and good: "good_batch zl to_vec self (conn_max_frame_size cfg) evs ds" and send: "sendable zl self (numbered 0 ds)"
  shows "\<exists>es. session_run zl to_vec self cfg es s = Some (batch_arrived zl self rest ds s)"
proof -
  let ?n = "batch_count ds" and ?w = "stream zl (frames_of self ds)"
  let ?run = "session_run zl to_vec self cfg"
  let ?s2 = "batch_written zl self rest ds s"
  let ?s3 = "?s2\<lparr>inbox := ?w, taken := length (fed s @ ?w)\<rparr>"
  from q obtain m where quiet: "sending s = SendReturned (Inr m)" "peer s = AwaitWindow" "taken s = length (fed s)"
      "inbox s = []"
    by (auto simp: quiet_def)
  have "?run ([Link SendNext] @ map (Link \<circ> Await) (all_written self (length ds))) s = Some ?s2"
    using writes_run [OF quiet(1) todo good send] by simp
  moreover have "?run [Link (ToServer (length ?w))] ?s2 = Some ?s3" using quiet by simp
  moreover have "?run (replicate (length (frames_of self ds)) PeerReads) ?s3 = Some (batch_arrived zl self rest ds s)"
    using reads_run [OF build, of ?s3 "frames_of self ds" cfg "Dispatching (batch_new ds ?n 0) 0" to_vec self]
      good_batchD(6) [OF good] batch_prefix_run [OF good, of "frames_of self ds" "[]" 0] good_batchD(8) [OF good] quiet(2)
    by simp
  ultimately have "?run (([Link SendNext] @ map (Link \<circ> Await) (all_written self (length ds))) @ [Link (ToServer (length ?w))] @
      replicate (length (frames_of self ds)) PeerReads) s = Some (batch_arrived zl self rest ds s)"
    by (simp only: session_run_append bind.bind_lunit)
  then show ?thesis by blast
qed

text \<open>The application answers, and its answer reaches the client.\<close>

abbreviation batch_answered :: "'d flate2 option \<Rightarrow> bytes list \<Rightarrow> 'ev session \<Rightarrow> 'ev session" where
  "batch_answered zl ds s \<equiv>
     s\<lparr>delivered := delivered s @ [ds], acked := Suc (acked s), peer := AwaitWindow,
       replies := replies s @ wire zl (Ack (batch_count ds)), client_inbox := client_inbox s @ wire zl (Ack (batch_count ds)),
       returned := length (replies s @ wire zl (Ack (batch_count ds)))\<rparr>"

lemma answers_run:
  assumes "peer s = Dispatching (batch_new ds (batch_count ds) 0) 0" and "returned s = length (replies s)"
  shows "session_run zl to_vec self cfg [PeerHands True, PeerAcked, PeerWrites (Inr ()) True, Link (ToClient 6)] s =
    Some (batch_answered zl ds s)"
  using assms by (simp add: peer_output_def peer_moves_def batch_new_def encode_wire del: wire.simps) simp

lemma reply_run:
  assumes build: "crate_build zl" and "client_inbox s = wire zl (Ack seq)" and "sending s = AwaitingAck n" and "n \<le> seq"
  shows "session_run zl to_vec self cfg [Link ReadReply] s =
    Some (s\<lparr>client_inbox := [], sending := SendReturned (Inr n), confirmed := Suc (confirmed s)\<rparr>)"
  using crate_build.parse_frame_wire [OF build, of "max_frame_size (cl_codec self)" "Ack seq" "[]"] assms(2-)
  by (cases s) (simp add: client_moves_def codec_decode_parse del: wire.simps)

lemma batch_gets_through:
  assumes build: "crate_build zl" and q: "quiet s" and todo: "todo s = evs # rest"
    and good: "good_batch zl to_vec self (conn_max_frame_size cfg) evs ds" and send: "sendable zl self (numbered 0 ds)"
  shows "\<exists>es s'. session_run zl to_vec self cfg es s = Some s' \<and> quiet s' \<and> todo s' = rest \<and>
    confirmed s' = Suc (confirmed s) \<and> delivered s' = delivered s @ [ds] \<and> resumed s' = resumed s"
proof -
  let ?n = "batch_count ds" and ?run = "session_run zl to_vec self cfg"
  let ?answer = "[PeerHands True, PeerAcked, PeerWrites (Inr ()) True, Link (ToClient 6)]"
  let ?s5 = "batch_answered zl ds (batch_arrived zl self rest ds s)"
  let ?s6 = "?s5\<lparr>client_inbox := [], sending := SendReturned (Inr ?n), confirmed := Suc (confirmed s)\<rparr>"
  from q have quiet: "returned s = length (replies s)" "client_inbox s = []" by (simp_all add: quiet_def)
  obtain es where "?run es s = Some (batch_arrived zl self rest ds s)" using batch_arrives [OF assms] by blast
  moreover have "?run ?answer (batch_arrived zl self rest ds s) = Some ?s5"
    using answers_run [of "batch_arrived zl self rest ds s" ds zl to_vec self cfg] quiet by simp
  moreover have "?run [Link ReadReply] ?s5 = Some ?s6"
    using reply_run [OF build, of ?s5 ?n ?n to_vec self cfg] quiet by simp
  ultimately have "?run (es @ ?answer @ [Link ReadReply]) s = Some ?s6"
    by (simp only: session_run_append bind.bind_lunit)
  moreover have "quiet ?s6" using quiet by (simp add: quiet_def del: wire.simps)
  ultimately show ?thesis
    by (intro exI [of _ ?s6] exI [of _ "es @ ?answer @ [Link ReadReply]"]) (simp del: wire.simps)
qed

lemma work_gets_through:
  assumes build: "crate_build zl"
  shows "quiet s \<Longrightarrow> good_work zl to_vec self cfg (todo s) dss \<Longrightarrow> \<forall>ds \<in> set dss. sendable zl self (numbered 0 ds) \<Longrightarrow>
    \<exists>es s'. session_run zl to_vec self cfg es s = Some s' \<and> quiet s' \<and> todo s' = [] \<and>
      confirmed s' = confirmed s + length dss \<and> delivered s' = delivered s @ dss \<and> resumed s' = resumed s"
proof (induction dss arbitrary: s)
  case Nil
  then show ?case by (intro exI [of _ "[]"] exI [of _ s]) simp
next
  case (Cons ds dss)
  then obtain evs rest where work: "todo s = evs # rest" "good_batch zl to_vec self (conn_max_frame_size cfg) evs ds"
      "good_work zl to_vec self cfg rest dss"
    by (auto simp: list_all2_Cons2)
  from batch_gets_through [OF build Cons.prems(1) work(1,2)] Cons.prems(3) obtain es1 s1 where
    one: "session_run zl to_vec self cfg es1 s = Some s1" "quiet s1" "todo s1 = rest"
      "confirmed s1 = Suc (confirmed s)" "delivered s1 = delivered s @ [ds]" "resumed s1 = resumed s" by auto
  from Cons.IH [OF one(2)] work(3) one(3) Cons.prems(3) obtain es2 s2 where
    "session_run zl to_vec self cfg es2 s1 = Some s2" "quiet s2" "todo s2 = []"
      "confirmed s2 = confirmed s1 + length dss" "delivered s2 = delivered s1 @ dss" "resumed s2 = resumed s1" by auto
  with one show ?case by (intro exI [of _ "es1 @ es2"] exI [of _ s2]) simp
qed


lemma quiet_start: "quiet (session_start work)"
  by (simp add: quiet_def session_start_def link_start_def link.defs)

lemma session_gets_through:
  assumes "crate_build zl" and "good_work zl to_vec self cfg work dss" and "\<forall>ds \<in> set dss. sendable zl self (numbered 0 ds)"
  shows "\<exists>es s. session_run zl to_vec self cfg es (session_start work) = Some s \<and> confirmed s = length work \<and>
    delivered s = dss \<and> session_reach zl to_vec self cfg work s \<and> \<not> resumed s"
proof -
  have "todo (session_start work) = work" "confirmed (session_start work) = 0" "delivered (session_start work) = []"
      "\<not> resumed (session_start work)"
    by (simp_all add: session_start_def link_start_def link.defs)
  with work_gets_through [OF assms(1) quiet_start, of to_vec self cfg work dss] assms(2,3) obtain es s where
    "session_run zl to_vec self cfg es (session_start work) = Some s" "confirmed s = length dss" "delivered s = dss" "\<not> resumed s"
    by auto
  with list_all2_lengthD [OF assms(2)] session_run_reach [OF session_reach.start] show ?thesis by metis
qed

lemma example_work_good:
  "good_work (Some stored_flate2) Inr (example_client 3) example_cfg [example_batch, example_batch]
     [example_batch, example_batch]"
proof -
  have "deliverable (Some stored_flate2) (example_client 3) (conn_max_frame_size example_cfg) (numbered 0 example_batch)"
    by (simp add: deliverable_def example_cfg_def example_batch_def zlib_compress_def stored_flate2_def json_wire_def)
  then show ?thesis by (simp add: good_batch_def)
qed

section \<open>Properties\<close>

text \<open>C2. In order, without loss and without duplicates, for a client that does not send again on a connection after a send
  that failed. However the client, the network, the timers, the failures and the application interleave: as long as the client
  has not called \<open>send\<close> after an error, what the application has been handed is a beginning of the client's batches, each
  exactly once, with exactly its events and in the order sent; every batch whose send returned \<open>Ok\<close> is among them, and at
  most one more. At its first error the client therefore knows what was delivered up to that one batch.\<close>

theorem exactly_once_in_order:
  assumes "crate_build zl" and "list_all2 (good_batch zl to_vec self (conn_max_frame_size cfg)) work dss"
    and "session_reach zl to_vec self cfg work s" and "\<not> resumed s"
  shows "\<exists>k. delivered s = take k dss \<and> k \<le> length dss \<and> confirmed s \<le> k \<and> k \<le> Suc (confirmed s)"
  using session_inv_counts [OF session_reach_inv [OF assms(3,1,2,4)]]
  by (intro exI [of _ "length (delivered s)"]) simp

theorem exactly_once_in_order_witness:
  "\<exists>s k. session_reach (Some stored_flate2) Inr (example_client 3) example_cfg [example_batch, example_batch] s \<and>
     \<not> resumed s \<and> confirmed s = 2 \<and> delivered s = take k [example_batch, example_batch] \<and> confirmed s \<le> k"
proof -
  obtain s where s: "session_reach (Some stored_flate2) Inr (example_client 3) example_cfg [example_batch, example_batch] s"
      "confirmed s = 2" "\<not> resumed s"
    using session_gets_through [OF stored_build.crate_build_axioms example_work_good] by auto
  from exactly_once_in_order [OF stored_build.crate_build_axioms example_work_good s(1,3)] s show ?thesis by blast
qed

text \<open>C35. What the restriction is for: a client that sends again after an acknowledgement timeout can be told \<open>Ok\<close> for a batch
  that never arrives. Two batches that fit, the second no longer than the first: there is a run in which the first send times
  out, the second one returns \<open>Ok\<close> on the late acknowledgement of the first batch, and the connection breaks before the
  server has seen a byte of the second batch. The application has the first batch only, the one that was reported as failed.\<close>

theorem resumed_send_confirms_lost_batch:
  assumes "crate_build zl" and "good_batch zl to_vec self (conn_max_frame_size cfg) evs ds"
    and "good_batch zl to_vec self (conn_max_frame_size cfg) evs' ds'" and "sendable zl self (numbered 0 ds)"
    and "sendable zl self (numbered 0 ds')" and "cl_ack_timeout self = Some t" and "length evs' \<le> length evs"
  shows "\<exists>s. session_reach zl to_vec self cfg [evs, evs'] s \<and> resumed s \<and> confirmed s = 1 \<and>
    sending s = SendReturned (Inr (batch_count ds')) \<and> delivered s = [ds] \<and> peer s = Returned (Inl err) \<and>
    fed s = stream zl (frames_of self ds) @ stream zl (frames_of self ds') \<and> taken s = length (stream zl (frames_of self ds))"
proof -
  let ?run = "session_run zl to_vec self cfg" and ?s0 = "session_start [evs, evs']"
  let ?answer = "[PeerHands True, PeerAcked, PeerWrites (Inr ()) True, Link (ToClient 6)]"
  let ?next = "[Link SendNext] @ map (Link \<circ> Await) (all_written self (length ds'))"
  let ?s1 = "batch_arrived zl self [evs'] ds ?s0"
  let ?s2 = "batch_answered zl ds (?s1\<lparr>sending := SendReturned (Inl AckTimeout)\<rparr>)"
  let ?s3 = "batch_written zl self [] ds' (?s2\<lparr>resumed := True\<rparr>)"
  let ?s4 = "?s3\<lparr>client_inbox := [], sending := SendReturned (Inr (batch_count ds')), confirmed := Suc (confirmed ?s3)\<rparr>"
  have start: "todo ?s0 = [evs, evs']" "returned ?s0 = length (replies ?s0)" "client_inbox ?s0 = []" "confirmed ?s0 = 0"
      "delivered ?s0 = []" "fed ?s0 = []"
    by (simp_all add: session_start_def link_start_def link.defs)
  have le: "batch_count ds' \<le> batch_count ds"
    using assms(7) good_batchD(1,3) [OF assms(2)] good_batchD(1,3) [OF assms(3)]
    by (simp add: word_le_nat_alt length_fits_word)
  obtain es where "?run es ?s0 = Some ?s1"
    using batch_arrives [OF assms(1) quiet_start start(1) assms(2,4)] by blast
  moreover have "?run [Link (Await Elapsed)] ?s1 = Some (?s1\<lparr>sending := SendReturned (Inl AckTimeout)\<rparr>)"
    using assms(6) by (cases ?s0) (simp add: client_moves_def)
  moreover have "?run ?answer (?s1\<lparr>sending := SendReturned (Inl AckTimeout)\<rparr>) = Some ?s2"
    using answers_run [of "?s1\<lparr>sending := SendReturned (Inl AckTimeout)\<rparr>" ds zl to_vec self cfg] start(2) by simp
  moreover have "?run ?next ?s2 = Some ?s3"
    using writes_run [OF _ _ assms(3,5), of ?s2 "Inl AckTimeout" "[]"] by simp
  moreover have "?run [Link ReadReply] ?s3 = Some ?s4"
    using reply_run [OF assms(1), of ?s3 "batch_count ds" "batch_count ds'" to_vec self cfg] start(3) le by simp
  moreover have "?run [PeerFails (Some err)] ?s4 = Some (?s4\<lparr>peer := Returned (Inl err)\<rparr>)" by (simp add: peer_moves_def)
  ultimately have "?run (es @ [Link (Await Elapsed)] @ ?answer @ ?next @ [Link ReadReply] @ [PeerFails (Some err)]) ?s0 =
      Some (?s4\<lparr>peer := Returned (Inl err)\<rparr>)"
    by (simp only: session_run_append bind.bind_lunit)
  from session_run_reach [OF session_reach.start this] show ?thesis
    by (intro exI [of _ "?s4\<lparr>peer := Returned (Inl err)\<rparr>"]) (simp add: start)
qed

theorem resumed_send_confirms_lost_batch_witness:
  "\<exists>s. session_reach (Some stored_flate2) Inr (example_client 3) example_cfg [example_batch, example_batch] s \<and> resumed s \<and>
    sending s = SendReturned (Inr (batch_count example_batch)) \<and> delivered s = [example_batch] \<and>
    peer s = Returned (Inl ConnectionClosed)"
proof -
  have "good_batch (Some stored_flate2) Inr (example_client 3) (conn_max_frame_size example_cfg) example_batch example_batch"
    using example_work_good by simp
  from resumed_send_confirms_lost_batch [OF stored_build.crate_build_axioms this this, of "from_secs 30" ConnectionClosed]
  show ?thesis by auto
qed

text \<open>And it gets through: there is a run in which every send returns \<open>Ok\<close> and the application receives every batch.\<close>

theorem session_completes:
  assumes "crate_build zl" and "list_all2 (good_batch zl to_vec self (conn_max_frame_size cfg)) work dss"
    and "\<forall>ds \<in> set dss. sendable zl self (numbered 0 ds)"
  shows "\<exists>es s. session_run zl to_vec self cfg es (session_start work) = Some s \<and> confirmed s = length work \<and>
    delivered s = dss"
  using session_gets_through [OF assms] by blast

theorem session_completes_witness:
  "\<exists>es s. session_run (Some stored_flate2) Inr (example_client 3) example_cfg es
      (session_start [example_batch, example_batch]) = Some s \<and> confirmed s = length [example_batch, example_batch] \<and>
    delivered s = [example_batch, example_batch]"
  by (rule session_completes [OF stored_build.crate_build_axioms example_work_good]) simp

end
