(* ===== verification/Delivery_Spec.thy ===== *)
theory Delivery_Spec
  imports Session
begin

text \<open>
  What a connection promises, as a specification of its own: a letter box for a list of batches. A batch is handed over, the
  next one in order, only when the sender has been told of all before it; then the sender may be told of it. A letter box
  knows nothing of frames, bytes, buffers, timers or failures; a step of it is atomic. Sessions implement it as long as the
  client does not send again after a send that failed.
\<close>

section \<open>The letter box\<close>

record 'b letter_box =
  handed :: "'b list"
  told :: nat

definition empty_box :: "'b letter_box" where
  "empty_box = \<lparr>handed = [], told = 0\<rparr>"

inductive box_step :: "'b list \<Rightarrow> 'b letter_box \<Rightarrow> 'b letter_box \<Rightarrow> bool" for bs where
  hand: "told m = length (handed m) \<Longrightarrow> told m < length bs \<Longrightarrow>
    box_step bs m (m\<lparr>handed := handed m @ [bs ! told m]\<rparr>)"
| tell: "told m < length (handed m) \<Longrightarrow> box_step bs m (m\<lparr>told := Suc (told m)\<rparr>)"

inductive_cases box_stepE: "box_step bs m m'"

text \<open>What follows from the specification alone.\<close>

lemma box_reach:
  assumes "(box_step bs)\<^sup>*\<^sup>* empty_box m"
  shows "handed m = take (length (handed m)) bs \<and> length (handed m) \<le> length bs \<and>
    told m \<le> length (handed m) \<and> length (handed m) \<le> Suc (told m)"
  using assms
proof (induction rule: rtranclp_induct)
  case base
  show ?case by (simp add: empty_box_def)
next
  case (step m m')
  from step.hyps(2) consider "told m = length (handed m)" "length (handed m) < length bs" "m' = m\<lparr>handed := handed m @ [bs ! told m]\<rparr>"
    | "told m < length (handed m)" "m' = m\<lparr>told := Suc (told m)\<rparr>"
    by (auto elim: box_stepE)
  then show ?case
  proof cases
    case 1
    with step.IH have "handed m @ [bs ! told m] = take (Suc (length (handed m))) bs"
      by (metis take_Suc_conv_app_nth)
    with 1 show ?thesis by simp
  next
    case 2
    with step.IH show ?thesis by simp
  qed
qed

section \<open>Sessions implement it\<close>

definition box_of :: "'ev session \<Rightarrow> bytes list letter_box" where
  "box_of s = \<lparr>handed = delivered s, told = confirmed s\<rparr>"

definition session_moves ::
    "'d flate2 option \<Rightarrow> ('ev \<Rightarrow> string + bytes) \<Rightarrow> 's client \<Rightarrow> connection_config \<Rightarrow> 'ev session \<Rightarrow> 'ev session \<Rightarrow> bool" where
  "session_moves zl to_vec self cfg s s' \<longleftrightarrow> (\<exists>e. session_step zl to_vec self cfg e s = Some s')"

lemma session_moves_reach:
  assumes "(session_moves zl to_vec self cfg)\<^sup>*\<^sup>* s s'" and "session_reach zl to_vec self cfg work s"
  shows "session_reach zl to_vec self cfg work s'"
  using assms by (induction rule: rtranclp_induct) (auto simp: session_moves_def intro: session_reach.step)

lemma session_reach_moves:
  assumes "session_reach zl to_vec self cfg work s"
  shows "(session_moves zl to_vec self cfg)\<^sup>*\<^sup>* (session_start work) s"
  using assms
proof (induction rule: session_reach.induct)
  case (step s e s')
  from step.hyps(2) have "session_moves zl to_vec self cfg s s'" unfolding session_moves_def by blast
  with step.IH show ?case by (rule rtranclp.rtrancl_into_rtrancl)
qed simp

text \<open>In one step a session hands over at most one batch, or tells of at most one, and never both.\<close>

lemma counts_one: "counts st = 0 \<or> counts st = 1"
  by (cases st rule: counts.cases) simp_all

definition one_more :: "'ev session \<Rightarrow> 'ev session \<Rightarrow> bool" where
  "one_more s s' \<longleftrightarrow>
     delivered s' = delivered s \<and> (confirmed s' = confirmed s \<or> confirmed s' = Suc (confirmed s)) \<or>
     confirmed s' = confirmed s \<and> (\<exists>b. delivered s' = delivered s @ [b])"

lemma client_moves_one_more:
  assumes "client_moves zl self e (s\<lparr>client_inbox := buf\<rparr>) = Some s'"
  shows "one_more s s'"
proof -
  from assms obtain st out where "s' = s\<lparr>client_inbox := buf, sending := st, fed := out, confirmed := confirmed s + counts st\<rparr>"
    by (auto simp: client_moves_def split: option.splits)
  with counts_one [of st] show ?thesis by (auto simp: one_more_def)
qed

lemma link_step_one_more:
  assumes "link_step zl to_vec self e s = Some s'"
  shows "one_more s s'"
proof (cases e)
  case SendNext
  with assms have "link_step zl to_vec self SendNext s = Some s'" by simp
  then obtain r evs rest where "sending s = SendReturned r" "todo s = evs # rest"
    "s' = (if isl r then s\<lparr>resumed := True\<rparr> else s)
       \<lparr>sending := send_start to_vec zl evs, todo := rest, confirmed := confirmed s + counts (send_start to_vec zl evs)\<rparr>"
    by (rule send_next_cases)
  with counts_one [of "send_start to_vec zl evs"] show ?thesis by (auto simp: one_more_def)
next
  case (Await ev)
  with assms have "client_moves zl self ev (s\<lparr>client_inbox := client_inbox s\<rparr>) = Some s'"
    by (auto split: send_event.splits option.splits sum.splits)
  then show ?thesis by (rule client_moves_one_more)
next
  case ReadReply
  with assms obtain ev buf where "client_moves zl self ev (s\<lparr>client_inbox := buf\<rparr>) = Some s'"
    by (auto split: option.splits prod.splits sum.splits)
  then show ?thesis by (rule client_moves_one_more)
qed (use assms in \<open>auto simp: one_more_def split: if_splits\<close>)

lemma session_step_one_more:
  assumes "session_step zl to_vec self cfg e s = Some s'"
  shows "one_more s s'"
proof (cases e)
  case (Link l)
  with assms link_step_one_more show ?thesis by simp
next
  case (PeerHands ok)
  with assms show ?thesis
    by (auto simp: one_more_def peer_moves_def split: conn_state.splits option.splits if_splits)
next
  case (PeerWrites r got)
  with assms show ?thesis by (auto simp: one_more_def elim: peer_writes_cases simp del: session_step.simps)
qed (use assms in \<open>auto simp: one_more_def peer_moves_def bind_eq_Some_conv split: conn_state.splits option.splits\<close>)

lemma box_step_of:
  assumes inv: "session_inv zl self cfg work dss s" and inv': "session_inv zl self cfg work dss s'" and "one_more s s'"
  shows "(box_step dss)\<^sup>=\<^sup>= (box_of s) (box_of s')"
proof -
  note c = session_inv_counts [OF inv] and c' = session_inv_counts [OF inv']
  from assms(3) consider "delivered s' = delivered s" "confirmed s' = confirmed s"
    | "delivered s' = delivered s" "confirmed s' = Suc (confirmed s)"
    | b where "confirmed s' = confirmed s" "delivered s' = delivered s @ [b]"
    by (auto simp: one_more_def)
  then show ?thesis
  proof cases
    case 1
    then show ?thesis by (simp add: box_of_def)
  next
    case 2
    with c'(3,4) have "told (box_of s) < length (handed (box_of s))" by (simp add: box_of_def)
    from box_step.tell [OF this, of dss] 2 show ?thesis by (simp add: box_of_def)
  next
    case 3
    with c(3,4) c'(2,5) have eq: "told (box_of s) = length (handed (box_of s))" "told (box_of s) < length dss"
      by (simp_all add: box_of_def)
    from 3 c'(1) eq have "delivered s @ [b] = take (Suc (length (delivered s))) dss" by simp
    with c(1) eq have "b = dss ! told (box_of s)"
      by (simp add: box_of_def take_Suc_conv_app_nth)
    with box_step.hand [OF eq] 3 show ?thesis by (simp add: box_of_def)
  qed
qed

text \<open>The correspondence holds for the work that a client can send at all, and until the client sends again after an error.\<close>

definition implements ::
    "'d flate2 option \<Rightarrow> ('ev \<Rightarrow> string + bytes) \<Rightarrow> 's client \<Rightarrow> connection_config \<Rightarrow> 'ev list list \<Rightarrow> bytes list list \<Rightarrow>
     'ev session \<Rightarrow> bool" where
  "implements zl to_vec self cfg work dss s \<longleftrightarrow>
     crate_build zl \<and> good_work zl to_vec self cfg work dss \<and> (resumed s \<or> session_inv zl self cfg work dss s)"

lemma implements_step:
  assumes "implements zl to_vec self cfg work dss s" and "session_step zl to_vec self cfg e s = Some s'"
  shows "implements zl to_vec self cfg work dss s'"
    and "\<not> resumed s' \<Longrightarrow> \<not> resumed s \<and> (box_step dss)\<^sup>=\<^sup>= (box_of s) (box_of s')"
proof -
  have inv: "\<not> resumed s \<and> session_inv zl self cfg work dss s \<and> session_inv zl self cfg work dss s'" if "\<not> resumed s'"
    using assms that resumed_step session_step_inv unfolding implements_def by blast
  with assms(1) show "implements zl to_vec self cfg work dss s'" unfolding implements_def by blast
  show "\<not> resumed s \<and> (box_step dss)\<^sup>=\<^sup>= (box_of s) (box_of s')" if "\<not> resumed s'"
    using inv [OF that] box_step_of [OF _ _ session_step_one_more [OF assms(2)]] by blast
qed

interpretation letter_box: simulation "session_moves zl to_vec self cfg" "box_step dss" "implements zl to_vec self cfg work dss"
    "\<lambda>s m. resumed s \<or> m = box_of s" for zl to_vec self cfg work dss
proof
  fix s s'
  assume "implements zl to_vec self cfg work dss s" and "session_moves zl to_vec self cfg s s'"
  then show "implements zl to_vec self cfg work dss s'" unfolding session_moves_def by (blast intro: implements_step(1))
next
  fix s s' m
  assume *: "implements zl to_vec self cfg work dss s" "resumed s \<or> m = box_of s" "session_moves zl to_vec self cfg s s'"
  then show "\<exists>m'. (box_step dss)\<^sup>=\<^sup>= m m' \<and> (resumed s' \<or> m' = box_of s')"
    using implements_step(2) unfolding session_moves_def by blast
qed

lemma session_start_implements:
  "crate_build zl \<Longrightarrow> good_work zl to_vec self cfg work dss \<Longrightarrow> implements zl to_vec self cfg work dss (session_start work)"
  unfolding implements_def using session_start_inv by blast

lemma session_reach_box:
  assumes "crate_build zl" and "good_work zl to_vec self cfg work dss" and "session_reach zl to_vec self cfg work s"
    and "\<not> resumed s"
  shows "(box_step dss)\<^sup>*\<^sup>* empty_box (box_of s)"
proof -
  have "box_of (session_start work) = empty_box"
    by (simp add: box_of_def empty_box_def session_start_def link_start_def link.defs)
  with letter_box.simulates_run [OF session_reach_moves [OF assms(3)] session_start_implements [OF assms(1,2)], of empty_box] assms(4)
  show ?thesis by auto
qed

text \<open>The example: the first batch has arrived at the server and is handed over.\<close>

lemma example_hand_over:
  obtains s s' where "session_reach (Some stored_flate2) Inr (example_client 3) example_cfg [example_batch, example_batch] s"
    "session_step (Some stored_flate2) Inr (example_client 3) example_cfg (PeerHands True) s = Some s'" "\<not> resumed s'"
    "box_of s = empty_box" "box_of s' = \<lparr>handed = [example_batch], told = 0\<rparr>"
proof -
  let ?s = "batch_arrived (Some stored_flate2) (example_client 3) [example_batch] example_batch
      (session_start [example_batch, example_batch])"
  from example_work_good have good: "good_batch (Some stored_flate2) Inr (example_client 3) (conn_max_frame_size example_cfg) example_batch example_batch"
    by simp
  have "todo (session_start [example_batch, example_batch]) = [example_batch, example_batch]"
    by (simp add: session_start_def link_start_def link.defs)
  from batch_arrives [OF stored_build.crate_build_axioms quiet_start this good]
  have "session_reach (Some stored_flate2) Inr (example_client 3) example_cfg [example_batch, example_batch] ?s"
    using session_run_reach [OF session_reach.start] by auto
  then show ?thesis
    by (rule that [where s' = "?s\<lparr>delivered := [example_batch], peer := AwaitAck 0 2\<rparr>"])
      (simp_all add: peer_moves_def batch_new_def box_of_def empty_box_def session_start_def link_start_def link.defs)
qed

section \<open>Properties\<close>

text \<open>C3. A connection is a letter box. The specification is a list of batches, a list of those handed over and the number the
  sender has been told of, with two atomic steps: hand over the next batch once all before it have been told, and tell of a
  batch that has been handed over. As long as the client does not send again after a send that failed, every reachable state of
  client, network and server shows a state that the letter box reaches, and every step of them is one step of the letter box
  or none.\<close>

theorem session_implements_letter_box:
  assumes "crate_build zl" and "list_all2 (good_batch zl to_vec self (conn_max_frame_size cfg)) work dss"
    and "session_reach zl to_vec self cfg work s" and "session_step zl to_vec self cfg e s = Some s'"
    and "\<not> resumed s'"
  shows "(box_step dss)\<^sup>*\<^sup>* empty_box (box_of s) \<and> (box_step dss)\<^sup>=\<^sup>= (box_of s) (box_of s')"
proof
  have first: "\<not> resumed s" using assms(4,5) resumed_step by blast
  show "(box_step dss)\<^sup>*\<^sup>* empty_box (box_of s)" by (rule session_reach_box [OF assms(1-3) first])
  have "implements zl to_vec self cfg work dss s"
    using session_reach_inv [OF assms(3,1,2) first] assms(1,2) by (simp add: implements_def)
  from implements_step(2) [OF this assms(4,5)] show "(box_step dss)\<^sup>=\<^sup>= (box_of s) (box_of s')" by blast
qed

theorem session_implements_letter_box_witness:
  "\<exists>s s'. session_reach (Some stored_flate2) Inr (example_client 3) example_cfg [example_batch, example_batch] s \<and>
     session_step (Some stored_flate2) Inr (example_client 3) example_cfg (PeerHands True) s = Some s' \<and> \<not> resumed s' \<and>
     box_of s = empty_box \<and> box_of s' = \<lparr>handed = [example_batch], told = 0\<rparr> \<and>
     (box_step [example_batch, example_batch])\<^sup>*\<^sup>* empty_box (box_of s) \<and>
     (box_step [example_batch, example_batch])\<^sup>=\<^sup>= (box_of s) (box_of s')"
proof -
  obtain s s' where s: "session_reach (Some stored_flate2) Inr (example_client 3) example_cfg [example_batch, example_batch] s"
      "session_step (Some stored_flate2) Inr (example_client 3) example_cfg (PeerHands True) s = Some s'" "\<not> resumed s'"
      "box_of s = empty_box" "box_of s' = \<lparr>handed = [example_batch], told = 0\<rparr>"
    by (rule example_hand_over)
  from session_implements_letter_box [OF stored_build.crate_build_axioms example_work_good s(1-3)] s show ?thesis by blast
qed

end
