(* ===== verification/Fleet.thy ===== *)
theory Fleet
  imports Delivery_Spec
begin

text \<open>
  The whole server with all its clients. Any number of clients, each with its own settings, its own work and its own
  connection, send to one server; its accept loop, its tasks, the bounded channel they share and the application behind it
  are the system of \<open>Server\<close>, every step of which is available here. The fleet refines the session of \<open>Session\<close>
  connection by connection: whatever the others do, each connection goes through the states of a session with a server of
  its own. The delivery guarantees of a session therefore hold for every client of a shared server.
\<close>

section \<open>The fleet\<close>

text \<open>
  \<open>links\<close> gives the client and the network of each connection; a connection has the number of the task that serves it.
  Three fields only record what has happened: \<open>journal\<close> the batches that the channel to the application has accepted, in
  that order, with their connection; \<open>received\<close> the number of them that the application has taken out; \<open>owner\<close> the connection
  for which a one-shot channel was created.
\<close>

record 'ev fleet =
  srv :: sys
  links :: "nat \<Rightarrow> 'ev link"
  journal :: "(nat \<times> bytes list) list"
  received :: nat
  owner :: "nat \<Rightarrow> nat"

definition fleet_start :: "sys \<Rightarrow> (nat \<Rightarrow> 'ev list list) \<Rightarrow> 'ev fleet" where
  "fleet_start s work =
     \<lparr>srv = s, links = (\<lambda>i. link_start (work i)), journal = [], received = 0, owner = (\<lambda>_. 0)\<rparr>"

text \<open>\<open>Wakes\<close> is an event of a task that neither reads a frame nor writes one; \<open>Around\<close> an event of the rest of the server.\<close>

datatype fleet_event =
    Client nat link_event
  | Reads nat
  | Writes nat "unit result" bool
  | Wakes nat conn_event
  | Around sys_event

definition task_moves ::
    "'d flate2 option \<Rightarrow> connection_config \<Rightarrow> bool \<Rightarrow> nat \<Rightarrow> conn_event \<Rightarrow> 'ev fleet \<Rightarrow> 'ev fleet option" where
  "task_moves zl cfg tls i ev f =
     do { s \<leftarrow> server_step zl cfg tls (Task i (Conn ev)) (srv f);
          Some (f\<lparr>srv := s, owner := (owner f)(next_chan (srv f) := i),
                  journal := journal f @ map (\<lambda>b. (i, events b)) (drop (length (queue (srv f))) (queue s))\<rparr>) }"

definition serving_state :: "nat \<Rightarrow> 'ev fleet \<Rightarrow> conn_state option" where
  "serving_state i f = (case tasks (srv f) i of Some (Serving p) \<Rightarrow> Some p | _ \<Rightarrow> None)"

fun fleet_step ::
    "'d flate2 option \<Rightarrow> ('ev \<Rightarrow> string + bytes) \<Rightarrow> (nat \<Rightarrow> 's client) \<Rightarrow> connection_config \<Rightarrow> bool \<Rightarrow> fleet_event \<Rightarrow>
     'ev fleet \<Rightarrow> 'ev fleet option" where
  "fleet_step zl to_vec self cfg tls (Client i e) f =
     do { l \<leftarrow> link_step zl to_vec (self i) e (links f i); Some (f\<lparr>links := (links f)(i := l)\<rparr>) }"
| "fleet_step zl to_vec self cfg tls (Reads i) f =
     do { (item, buf) \<leftarrow> peer_item zl cfg (links f i);
          task_moves zl cfg tls i (NextItem (Some item)) (f\<lparr>links := (links f)(i := (links f i)\<lparr>inbox := buf\<rparr>)\<rparr>) }"
| "fleet_step zl to_vec self cfg tls (Writes i r got_out) f =
     do { p \<leftarrow> serving_state i f;
          l \<leftarrow> peer_output zl p r got_out (links f i);
          task_moves zl cfg tls i (FrameSent r) (f\<lparr>links := (links f)(i := l)\<rparr>) }"
| "fleet_step zl to_vec self cfg tls (Wakes i ev) f =
     (case ev of
        NextItem (Some (Inr _)) \<Rightarrow> None
      | FrameSent _ \<Rightarrow> None
      | _ \<Rightarrow> task_moves zl cfg tls i ev f)"
| "fleet_step zl to_vec self cfg tls (Around ev) f =
     (case ev of
        Task i (Conn _) \<Rightarrow> None
      | _ \<Rightarrow> do { s \<leftarrow> server_step zl cfg tls ev (srv f);
                  Some (f\<lparr>srv := s, received := received f + (if ev = Recv \<and> queue (srv f) \<noteq> [] then 1 else 0)\<rparr>) })"

definition fleet_moves ::
    "'d flate2 option \<Rightarrow> ('ev \<Rightarrow> string + bytes) \<Rightarrow> (nat \<Rightarrow> 's client) \<Rightarrow> connection_config \<Rightarrow> bool \<Rightarrow>
     'ev fleet \<Rightarrow> 'ev fleet \<Rightarrow> bool" where
  "fleet_moves zl to_vec self cfg tls f f' \<longleftrightarrow> (\<exists>e. fleet_step zl to_vec self cfg tls e f = Some f')"

text \<open>The states of the fleet: a server that has been bound, and whatever happens then.\<close>

definition fleet_reach ::
    "'d flate2 option \<Rightarrow> ('ev \<Rightarrow> string + bytes) \<Rightarrow> (nat \<Rightarrow> 's client) \<Rightarrow> connection_config \<Rightarrow> bool \<Rightarrow> (nat \<Rightarrow> bool) \<Rightarrow>
     (nat \<Rightarrow> 'ev list list) \<Rightarrow> 'ev fleet \<Rightarrow> bool" where
  "fleet_reach zl to_vec self cfg tls adm work f \<longleftrightarrow>
     (fleet_moves zl to_vec self cfg tls)\<^sup>*\<^sup>* (fleet_start (serving adm) work) f"

text \<open>The batches of one connection.\<close>

definition of_conn :: "nat \<Rightarrow> (nat \<times> bytes list) list \<Rightarrow> bytes list list" where
  "of_conn i js = map snd (filter (\<lambda>j. fst j = i) js)"

lemma of_conn_simps [simp]:
  "of_conn i [] = []" "of_conn i ((j, es) # js) = (if j = i then [es] else []) @ of_conn i js"
  "of_conn i (js @ js') = of_conn i js @ of_conn i js'"
  by (simp_all add: of_conn_def)

lemma of_conn_handed: "of_conn j (map (\<lambda>b. (i, events b)) bs) = (if i = j then map events bs else [])"
  by (auto simp: of_conn_def filter_map comp_def)

section \<open>What a step of a task does to the server\<close>

fun running :: "conn_state \<Rightarrow> task option" where
  "running (Returned r) = None"
| "running Panicked = None"
| "running p = Some (Serving p)"

fun handing :: "conn_state \<Rightarrow> conn_event \<Rightarrow> batch list" where
  "handing (Dispatching b rx) (BatchSent ok) = (if ok then [b] else [])"
| "handing _ _ = []"

lemma settle_sel [simp]:
  "tasks (settle i old new s) = (tasks s)(i := running new)" "queue (settle i old new s) = queue s"
  "held (settle i old new s) = held s" "next_task (settle i old new s) = next_task s"
  "receiving (settle i old new s) = receiving s"
  by (cases new; simp add: settle_def end_task_def)+

lemma channel_effect_sel:
  assumes "channel_effect p ev s = Some s'"
  shows "tasks s' = tasks s" "queue s' = queue s @ handing p ev" "held s' = held s" "next_task s' = next_task s"
    "receiving s' = receiving s"
  using assms by (cases "(p, ev, s)" rule: channel_effect.cases; auto split: if_splits oneshot.splits)+

lemma task_moves_cases:
  assumes "task_moves zl cfg tls i ev f = Some f'"
  obtains p p' s where "tasks (srv f) i = Some (Serving p)" "conn_step zl cfg (next_chan (srv f)) p ev = Some p'"
    "server_step zl cfg tls (Task i (Conn ev)) (srv f) = Some s"
    "f' = f\<lparr>srv := s, owner := (owner f)(next_chan (srv f) := i),
            journal := journal f @ map (\<lambda>b. (i, events b)) (handing p ev)\<rparr>"
    "tasks s = (tasks (srv f))(i := running p')" "queue s = queue (srv f) @ handing p ev" "held s = held (srv f)"
    "next_task s = next_task (srv f)" "receiving s = receiving (srv f)"
proof -
  from assms obtain p p' s1 where *: "tasks (srv f) i = Some (Serving p)"
      "conn_step zl cfg (next_chan (srv f)) p ev = Some p'" "channel_effect p ev (srv f) = Some s1"
    "f' = f\<lparr>srv := settle i p p' s1, owner := (owner f)(next_chan (srv f) := i),
            journal := journal f @ map (\<lambda>b. (i, events b)) (drop (length (queue (srv f))) (queue (settle i p p' s1)))\<rparr>"
    by (auto simp: task_moves_def bind_eq_Some_conv split: option.splits task.splits)
  show ?thesis
    by (rule that [OF *(1,2), of "settle i p p' s1"]) (use * channel_effect_sel [OF *(3)] in simp_all)
qed


section \<open>The invariant of the fleet\<close>

fun awaiting :: "conn_state \<Rightarrow> nat option" where
  "awaiting (AwaitAck rx seq) = Some rx"
| "awaiting (SendingKeepalive rx seq) = Some rx"
| "awaiting _ = None"

text \<open>
  A batch that is queued, or held by the application, is the last one of its connection; its task waits for its
  acknowledgement, or has ended.
\<close>

definition accounted :: "'ev fleet \<Rightarrow> batch \<Rightarrow> bool" where
  "accounted f b \<longleftrightarrow>
     (\<exists>tx i. ack b = Some tx \<and> owner f tx = i \<and> i < next_task (srv f) \<and>
        (\<forall>t. tasks (srv f) i = Some t \<longrightarrow> (\<exists>p. t = Serving p \<and> awaiting p = Some tx)) \<and>
        of_conn i (journal f) \<noteq> [] \<and> events b = last (of_conn i (journal f)))"

definition in_hand :: "'ev fleet \<Rightarrow> batch list" where
  "in_hand f = queue (srv f) @ held (srv f)"

definition tagged :: "'ev fleet \<Rightarrow> batch \<Rightarrow> nat \<times> bytes list" where
  "tagged f b = (owner f (the (ack b)), events b)"

lemma tagged_frame [simp]:
  "tagged (f\<lparr>links := ls\<rparr>) = tagged f" "tagged (f\<lparr>srv := s\<rparr>) = tagged f" "tagged (f\<lparr>received := n\<rparr>) = tagged f"
  by (simp_all add: tagged_def fun_eq_iff)

text \<open>What the application has not yet received is what is queued, one batch at most for each connection.\<close>

definition unreceived_ok :: "'ev fleet \<Rightarrow> bool" where
  "unreceived_ok f \<longleftrightarrow>
     drop (received f) (journal f) = map (tagged f) (queue (srv f)) \<and>
     (\<forall>i. length (of_conn i (drop (received f) (journal f))) \<le> 1)"

definition fleet_inv :: "'ev fleet \<Rightarrow> bool" where
  "fleet_inv f \<longleftrightarrow>
     sys_inv (srv f) \<and> (\<forall>b \<in> set (in_hand f). accounted f b) \<and>
     (\<forall>i p rx. tasks (srv f) i = Some (Serving p) \<longrightarrow> receiver p = Some rx \<longrightarrow> owner f rx = i) \<and>
     received f \<le> length (journal f) \<and>
     (receiving (srv f) \<longrightarrow> unreceived_ok f)"

lemma fleet_invD:
  assumes "fleet_inv f"
  shows "sys_inv (srv f)" "b \<in> set (in_hand f) \<Longrightarrow> accounted f b"
    "tasks (srv f) i = Some (Serving p) \<Longrightarrow> receiver p = Some rx \<Longrightarrow> owner f rx = i"
    "received f \<le> length (journal f)"
    "receiving (srv f) \<Longrightarrow> unreceived_ok f"
  using assms by (auto simp: fleet_inv_def)

lemma sys_inv_sel:
  assumes "sys_inv s"
  shows "tasks s i = Some t \<Longrightarrow> i < next_task s"
    and "b \<in> set (queue s @ held s) \<Longrightarrow> \<exists>tx < next_chan s. ack b = Some tx"
    and "tasks s i = Some (Serving (Dispatching b rx)) \<Longrightarrow> ack b = Some rx"
  using assms linkedD(2) [of "queue s @ held s" "chans s" "next_chan s" "tasks s" b] sys_inv_task_ok [OF assms, of i]
  by (auto simp: sys_inv_def gauged_def)

lemma sys_inv_receiver:
  assumes "sys_inv s" and "tasks s i = Some (Serving p)" and "receiver p = Some rx"
  shows "rx < next_chan s"
  using sys_inv_task_ok [OF assms(1,2)] assms(3) by (cases p) (auto simp: await_ok_def)

text \<open>A waiting task keeps waiting for its batch, or ends, or finds the batch gone.\<close>

lemma awaiting_step:
  assumes "conn_step zl cfg tx p ev = Some p'" and "awaiting p = Some rx" and "running p' = Some t"
  shows "(\<exists>p. t = Serving p \<and> awaiting p = Some rx) \<or> (\<exists>seq r. p = AwaitAck rx seq \<and> ev = AckReceived r)"
  using assms by (cases "(zl, cfg, tx, p, ev)" rule: conn_step.cases) (auto split: if_splits sum.splits)

lemma receiver_step:
  assumes "conn_step zl cfg tx p ev = Some p'" and "receiver p' = Some rx"
  shows "rx = tx \<or> receiver p = Some rx"
  using assms
  by (cases "(zl, cfg, tx, p, ev)" rule: conn_step.cases)
    (auto simp: window_loop_def split: if_splits sum.splits option.splits frame.splits)

lemma handing_step:
  assumes "conn_step zl cfg tx p ev = Some p'" and "b \<in> set (handing p ev)"
  shows "\<exists>rx. p = Dispatching b rx \<and> ev = BatchSent True \<and> p' = AwaitAck rx (last_seq b)"
  using assms by (cases "(p, ev)" rule: handing.cases) (auto split: if_splits)

lemma task_moves_accounted:
  assumes inv: "fleet_inv f" and move: "task_moves zl cfg tls i ev f = Some f'" and b: "b \<in> set (in_hand f')"
  shows "accounted f' b"
  using move
proof (rule task_moves_cases)
  fix p p' s
  assume t: "tasks (srv f) i = Some (Serving p)" and cs: "conn_step zl cfg (next_chan (srv f)) p ev = Some p'"
    and step: "server_step zl cfg tls (Task i (Conn ev)) (srv f) = Some s"
    and f': "f' = f\<lparr>srv := s, owner := (owner f)(next_chan (srv f) := i),
            journal := journal f @ map (\<lambda>b. (i, events b)) (handing p ev)\<rparr>"
    and s: "tasks s = (tasks (srv f))(i := running p')" "queue s = queue (srv f) @ handing p ev" "held s = held (srv f)"
      "next_task s = next_task (srv f)"
  note sys = fleet_invD(1) [OF inv]
  show ?thesis
  proof (cases "b \<in> set (in_hand f)")
    case True
    from fleet_invD(2) [OF inv True] sys_inv_sel(2) [OF sys, of b] True obtain tx where tx: "tx < next_chan (srv f)" "ack b = Some tx"
      "owner f tx < next_task (srv f)" "of_conn (owner f tx) (journal f) \<noteq> []" "events b = last (of_conn (owner f tx) (journal f))"
      and w: "\<forall>t. tasks (srv f) (owner f tx) = Some t \<longrightarrow> (\<exists>p. t = Serving p \<and> awaiting p = Some tx)"
      by (auto simp: accounted_def in_hand_def)
    have "handing p ev = []" if "owner f tx = i"
      using w t that by (cases "(p, ev)" rule: handing.cases) auto
    then have jr: "of_conn (owner f tx) (journal f') = of_conn (owner f tx) (journal f)"
      using f' by (auto simp: of_conn_handed)
    have "\<exists>p. t' = Serving p \<and> awaiting p = Some tx" if "tasks s (owner f tx) = Some t'" for t'
    proof (cases "owner f tx = i")
      case own: True
      with w t have "awaiting p = Some tx" by auto
      from awaiting_step [OF cs this, of t'] own that s(1) consider "\<exists>p. t' = Serving p \<and> awaiting p = Some tx"
        | seq r where "p = AwaitAck tx seq" "ev = AckReceived r" by auto
      then show ?thesis
      proof cases
        case 2
        with ack_received_released [OF sys, of i tx seq zl cfg tls r s] t step True tx(2) show ?thesis
          by (force simp: in_hand_def)
      qed
    qed (use w s(1) that in auto)
    with tx jr f' s(4) show ?thesis by (auto simp: accounted_def)
  next
    case False
    with b s f' have "b \<in> set (handing p ev)" by (auto simp: in_hand_def)
    from handing_step [OF cs this] obtain rx where rx: "p = Dispatching b rx" "ev = BatchSent True" "p' = AwaitAck rx (last_seq b)"
      by blast
    moreover from sys_inv_sel(3) [OF sys, of i b rx] sys_inv_receiver [OF sys, of i p rx] t rx(1) have "ack b = Some rx" "rx < next_chan (srv f)" by auto
    moreover from fleet_invD(3) [OF inv] t rx(1) have "owner f rx = i" by auto
    moreover from sys_inv_sel(1) [OF sys t] have "i < next_task (srv f)" .
    ultimately show ?thesis using f' s by (auto simp: accounted_def)
  qed
qed

lemma task_moves_unreceived:
  assumes inv: "fleet_inv f" and move: "task_moves zl cfg tls i ev f = Some f'" and "receiving (srv f)"
  shows "unreceived_ok f'"
  using move
proof (rule task_moves_cases)
  fix p p' s
  assume t: "tasks (srv f) i = Some (Serving p)" and cs: "conn_step zl cfg (next_chan (srv f)) p ev = Some p'"
    and f': "f' = f\<lparr>srv := s, owner := (owner f)(next_chan (srv f) := i),
            journal := journal f @ map (\<lambda>b. (i, events b)) (handing p ev)\<rparr>"
    and s: "queue s = queue (srv f) @ handing p ev"
  note sys = fleet_invD(1) [OF inv] and un = fleet_invD(5) [OF inv assms(3)]
  have old: "tagged f' b = tagged f b" if "b \<in> set (queue (srv f))" for b
    using sys_inv_sel(2) [OF sys, of b] that f' by (auto simp: tagged_def)
  have new: "tagged f' b = (i, events b) \<and> of_conn i (drop (received f) (journal f)) = []" if "b \<in> set (handing p ev)" for b
  proof -
    from handing_step [OF cs that] t obtain rx where p: "p = Dispatching b rx" by blast
    with sys_inv_sel(3) [OF sys, of i b rx] sys_inv_receiver [OF sys, of i p rx] fleet_invD(3) [OF inv, of i p rx] t f' have "tagged f' b = (i, events b)"
      by (auto simp: tagged_def)
    moreover have "fst (tagged f b') = i \<Longrightarrow> b' \<notin> set (queue (srv f))" for b'
      using fleet_invD(2) [OF inv, of b'] t p by (auto simp: accounted_def in_hand_def tagged_def)
    then have "of_conn i (drop (received f) (journal f)) = []"
      using un by (auto simp: unreceived_ok_def of_conn_def filter_empty_conv)
    ultimately show ?thesis ..
  qed
  have "length (handing p ev) \<le> 1" by (cases "(p, ev)" rule: handing.cases) auto
  then have "length (of_conn j (drop (received f) (journal f)) @ (if i = j then map events (handing p ev) else [])) \<le> 1" for j
    using un new by (cases "handing p ev") (auto simp: unreceived_ok_def)
  then show ?thesis
    using fleet_invD(4) [OF inv] un old new s f' by (auto simp: unreceived_ok_def of_conn_handed)
qed

lemma task_moves_inv:
  assumes inv: "fleet_inv f" and move: "task_moves zl cfg tls i ev f = Some f'"
  shows "fleet_inv f'"
  using move
proof (rule task_moves_cases)
  fix p p' s
  assume t: "tasks (srv f) i = Some (Serving p)" and cs: "conn_step zl cfg (next_chan (srv f)) p ev = Some p'"
    and step: "server_step zl cfg tls (Task i (Conn ev)) (srv f) = Some s"
    and f': "f' = f\<lparr>srv := s, owner := (owner f)(next_chan (srv f) := i),
            journal := journal f @ map (\<lambda>b. (i, events b)) (handing p ev)\<rparr>"
    and s: "tasks s = (tasks (srv f))(i := running p')" "queue s = queue (srv f) @ handing p ev" "held s = held (srv f)"
      "next_task s = next_task (srv f)" "receiving s = receiving (srv f)"
  note sys = fleet_invD(1) [OF inv]
  have old: "owner f' rx = j" if "tasks (srv f) j = Some (Serving q)" "receiver q = Some rx" for j q rx
    using sys_inv_receiver [OF sys that] fleet_invD(3) [OF inv that] f' by simp
  have own: "owner f' rx = j" if "tasks (srv f') j = Some (Serving q)" "receiver q = Some rx" for j q rx
  proof (cases "j = i")
    case True
    with that(1) s(1) f' have "running p' = Some (Serving q)" by simp
    then have "p' = q" by (cases p') auto
    with receiver_step [OF cs, of rx] that(2) old [OF t] True f' show ?thesis by auto
  qed (use that s(1) f' old in auto)
  have "received f' \<le> length (journal f')" using fleet_invD(4) [OF inv] f' by simp
  moreover have "unreceived_ok f'" if "receiving (srv f')"
    using task_moves_unreceived [OF inv move] that f' s by simp
  moreover have "sys_inv (srv f')" using server_step_inv [OF step sys] f' by simp
  ultimately show ?thesis
    using task_moves_accounted [OF inv move] own unfolding fleet_inv_def by blast
qed


text \<open>The rest of the server: what it can do to the tasks, the channel and the batches in hand.\<close>

definition fresh_task :: "task option \<Rightarrow> bool" where
  "fresh_task t \<longleftrightarrow> t = Some Handshaking \<or> t = Some (Serving AwaitWindow)"

fun around :: "sys_event \<Rightarrow> bool" where
  "around (Task i (Conn ev)) = False"
| "around _ = True"

lemma around_tasks:
  assumes "server_step zl cfg tls ev s = Some s'" and "around ev"
  shows "(next_task s' = next_task s \<and>
      (tasks s' = tasks s \<or> (\<exists>i t. tasks s i = Some Handshaking \<and> tasks s' = (tasks s)(i := t) \<and> (t = None \<or> fresh_task t)))) \<or>
    (next_task s' = Suc (next_task s) \<and> (\<exists>t. tasks s' = (tasks s)(next_task s := t) \<and> fresh_task t))"
proof (cases ev)
  case (Accept e)
  with assms show ?thesis
    by (cases "(tls, e, s)" rule: accept_step.cases)
      (auto simp: leave_accept_loop_def fresh_task_def split: if_splits)
next
  case (Task i e)
  with assms obtain r where "e = Handshaken r" by (cases e) auto
  with Task assms(1) have "next_task s' = next_task s" "tasks s i = Some Handshaking"
      "tasks s' = (tasks s)(i := None) \<or> tasks s' = (tasks s)(i := Some (Serving AwaitWindow))"
    by (auto simp: end_task_def split: option.splits task.splits sum.splits)
  then show ?thesis by (auto simp: fresh_task_def)
qed (use assms in \<open>auto simp: server_recv_def server_drop_def split: if_splits list.splits\<close>)

lemma around_batches:
  assumes "server_step zl cfg tls ev s = Some s'" and "around ev"
  shows "set (queue s' @ held s') \<subseteq> set (queue s @ held s) \<and>
    (receiving s' \<longrightarrow> receiving s \<and> queue s' = (if ev = Recv then tl (queue s) else queue s))"
proof (cases ev)
  case (Accept e)
  with assms show ?thesis
    by (cases "(tls, e, s)" rule: accept_step.cases) (auto simp: leave_accept_loop_def split: if_splits)
next
  case (Task i e)
  with assms obtain r where "e = Handshaken r" by (cases e) auto
  with Task assms(1) show ?thesis
    by (auto simp: end_task_def split: option.splits task.splits sum.splits)
next
  case (Release how k)
  with assms show ?thesis
    by (auto split: if_splits dest: in_set_takeD in_set_dropD)
qed (use assms in \<open>auto simp: server_recv_def server_drop_def split: if_splits list.splits\<close>)

lemma around_inv:
  assumes inv: "fleet_inv f" and step: "server_step zl cfg tls ev (srv f) = Some s" and ev: "around ev"
  shows "fleet_inv (f\<lparr>srv := s, received := received f + (if ev = Recv \<and> queue (srv f) \<noteq> [] then 1 else 0)\<rparr>)"
    (is "fleet_inv ?f")
proof -
  note sys = fleet_invD(1) [OF inv] and ts = around_tasks [OF step ev] and bs = around_batches [OF step ev]
  have grow: "next_task (srv f) \<le> next_task s" using ts by auto
  have keep: "tasks s i = Some t \<Longrightarrow> tasks (srv f) i = Some t \<or> tasks (srv f) i = Some Handshaking \<or> next_task (srv f) \<le> i" for i t
    using ts by (auto split: if_splits)
  have "accounted ?f b" if b: "b \<in> set (in_hand ?f)" for b
  proof -
    from b bs have "b \<in> set (in_hand f)" by (auto simp: in_hand_def)
    from fleet_invD(2) [OF inv this] obtain tx where tx: "ack b = Some tx" "owner f tx < next_task (srv f)"
      "of_conn (owner f tx) (journal f) \<noteq> []" "events b = last (of_conn (owner f tx) (journal f))"
      and w: "\<forall>t. tasks (srv f) (owner f tx) = Some t \<longrightarrow> (\<exists>p. t = Serving p \<and> awaiting p = Some tx)"
      by (auto simp: accounted_def)
    have "\<exists>p. t = Serving p \<and> awaiting p = Some tx" if "tasks s (owner f tx) = Some t" for t
      using keep [OF that] w tx(2) by auto
    with tx grow show ?thesis by (auto simp: accounted_def)
  qed
  moreover have "owner f rx = i" if "tasks s i = Some (Serving p)" "receiver p = Some rx" for i p rx
  proof -
    from ts that have "tasks (srv f) i = Some (Serving p)" by (auto simp: fresh_task_def split: if_splits)
    then show ?thesis by (rule fleet_invD(3) [OF inv _ that(2)])
  qed
  moreover have "received ?f \<le> length (journal f) \<and>
      (receiving s \<longrightarrow> unreceived_ok ?f)"
  proof (cases "ev = Recv \<and> queue (srv f) \<noteq> []")
    case True
    with step have "receiving (srv f)" by (auto split: if_splits)
    with fleet_invD(5) [OF inv] have eq: "drop (received f) (journal f) = map (tagged f) (queue (srv f))"
      and one: "length (of_conn i (drop (received f) (journal f))) \<le> 1" for i by (auto simp: unreceived_ok_def)
    with True have lt: "received f < length (journal f)" by (cases "received f < length (journal f)") auto
    have more: "drop (received f) (journal f) = journal f ! received f # drop (Suc (received f)) (journal f)"
      using lt by (simp add: Cons_nth_drop_Suc)
    with eq have "queue s = tl (queue (srv f)) \<longrightarrow> drop (Suc (received f)) (journal f) = map (tagged f) (queue s)"
      by (cases "queue (srv f)") auto
    moreover have "length (of_conn i (drop (Suc (received f)) (journal f))) \<le> 1" for i
      using one [of i] more by (cases "journal f ! received f") (auto split: if_splits)
    ultimately show ?thesis using lt True bs by (auto simp: unreceived_ok_def)
  next
    case False
    with fleet_invD(4,5) [OF inv] bs show ?thesis by (auto simp: unreceived_ok_def split: if_splits)
  qed
  ultimately show ?thesis
    using server_step_inv [OF step sys] by (simp add: fleet_inv_def)
qed

lemma links_inv [simp]: "fleet_inv (f\<lparr>links := ls\<rparr>) = fleet_inv f"
  by (simp add: fleet_inv_def accounted_def in_hand_def unreceived_ok_def)

lemma around_step:
  "fleet_step zl to_vec self cfg tls (Around ev) f = Some f' \<longleftrightarrow> around ev \<and>
     (\<exists>s. server_step zl cfg tls ev (srv f) = Some s \<and>
       f' = f\<lparr>srv := s, received := received f + (if ev = Recv \<and> queue (srv f) \<noteq> [] then 1 else 0)\<rparr>)"
  by (cases ev rule: around.cases) (auto simp: bind_eq_Some_conv simp del: server_step.simps)

lemma fleet_step_inv:
  assumes "fleet_inv f" and "fleet_step zl to_vec self cfg tls e f = Some f'"
  shows "fleet_inv f'"
proof (cases e)
  case (Around ev)
  with assms show ?thesis
    by (auto simp: around_step simp del: fleet_step.simps intro: around_inv)
qed (use assms in \<open>auto simp: bind_eq_Some_conv split: conn_event.splits option.splits sum.splits
  intro: task_moves_inv [rotated]\<close>)

lemma fleet_start_inv: "fleet_inv (fleet_start (serving adm) work)"
  using serving_inv [of adm]
  by (auto simp: fleet_inv_def fleet_start_def in_hand_def unreceived_ok_def serving_def)


section \<open>Each connection is a session\<close>

text \<open>A session knows one channel only: the number of the channel is all that a shared server adds to a task.\<close>

fun erase :: "conn_state \<Rightarrow> conn_state" where
  "erase (Dispatching b rx) = Dispatching (b\<lparr>ack := Some 0\<rparr>) 0"
| "erase (AwaitAck rx seq) = AwaitAck 0 seq"
| "erase (SendingKeepalive rx seq) = SendingKeepalive 0 seq"
| "erase p = p"

lemma erase_window_loop [simp]: "erase (window_loop tx st) = window_loop 0 st"
  by (simp add: window_loop_def batch_new_def)

lemma erase_step:
  assumes "conn_step zl cfg tx p ev = Some p'"
  shows "conn_step zl cfg 0 (erase p) ev = Some (erase p')"
  using assms
  by (cases "(zl, cfg, tx, p, ev)" rule: conn_step.cases)
    (auto split: if_splits sum.splits option.splits frame.splits)

lemma erase_sel [simp]:
  "writing (erase p) = writing p" "awaiting (erase p) = None \<longleftrightarrow> awaiting p = None" "erase p = AwaitWindow \<longleftrightarrow> p = AwaitWindow"
  by (cases p; simp)+

definition session_of :: "'ev link \<Rightarrow> conn_state \<Rightarrow> bytes list list \<Rightarrow> nat \<Rightarrow> 'ev session" where
  "session_of l p del k = link.extend l \<lparr>peer = p, delivered = del, acked = k\<rparr>"

lemma session_of_sel [simp]:
  "todo (session_of l p del k) = todo l" "sending (session_of l p del k) = sending l"
  "confirmed (session_of l p del k) = confirmed l" "resumed (session_of l p del k) = resumed l" "fed (session_of l p del k) = fed l"
  "taken (session_of l p del k) = taken l" "inbox (session_of l p del k) = inbox l"
  "replies (session_of l p del k) = replies l" "returned (session_of l p del k) = returned l"
  "client_inbox (session_of l p del k) = client_inbox l" "peer (session_of l p del k) = p"
  "delivered (session_of l p del k) = del" "acked (session_of l p del k) = k"
  by (simp_all add: session_of_def link.defs)

lemma session_of_upd [simp]:
  "(session_of l p del k)\<lparr>todo := x1\<rparr> = session_of (l\<lparr>todo := x1\<rparr>) p del k"
  "(session_of l p del k)\<lparr>sending := x2\<rparr> = session_of (l\<lparr>sending := x2\<rparr>) p del k"
  "(session_of l p del k)\<lparr>confirmed := x3\<rparr> = session_of (l\<lparr>confirmed := x3\<rparr>) p del k"
  "(session_of l p del k)\<lparr>resumed := x0\<rparr> = session_of (l\<lparr>resumed := x0\<rparr>) p del k"
  "(session_of l p del k)\<lparr>fed := x4\<rparr> = session_of (l\<lparr>fed := x4\<rparr>) p del k"
  "(session_of l p del k)\<lparr>taken := x5\<rparr> = session_of (l\<lparr>taken := x5\<rparr>) p del k"
  "(session_of l p del k)\<lparr>inbox := x6\<rparr> = session_of (l\<lparr>inbox := x6\<rparr>) p del k"
  "(session_of l p del k)\<lparr>replies := x7\<rparr> = session_of (l\<lparr>replies := x7\<rparr>) p del k"
  "(session_of l p del k)\<lparr>returned := x8\<rparr> = session_of (l\<lparr>returned := x8\<rparr>) p del k"
  "(session_of l p del k)\<lparr>client_inbox := x9\<rparr> = session_of (l\<lparr>client_inbox := x9\<rparr>) p del k"
  "(session_of l p del k)\<lparr>peer := p'\<rparr> = session_of l p' del k"
  "(session_of l p del k)\<lparr>delivered := del'\<rparr> = session_of l p del' k"
  "(session_of l p del k)\<lparr>acked := k'\<rparr> = session_of l p del k'"
  by (simp_all add: session_of_def link.defs)

lemma session_of_truncate [simp]: "link.truncate (session_of l p del k) = l"
  by (simp add: session_of_def link.defs)

lemma link_step_session:
  assumes "link_step zl to_vec self e l = Some l'"
  shows "link_step zl to_vec self e (session_of l p del k) = Some (session_of l' p del k)"
  using assms
  by (cases "(zl, to_vec, self, e, l)" rule: link_step.cases)
    (auto simp: client_moves_def split: send_state.splits list.splits option.splits send_event.splits sum.splits prod.splits if_splits)

text \<open>
  The state of connection \<open>i\<close> as a session. A task that has ended is one that has returned; a connection that is not yet
  accepted, or is still in its handshake, is one that waits for its first window. \<open>k\<close> acknowledgements have come back from
  the application, fewer than there are batches while one is in hand.
\<close>

definition shows_task :: "sys \<Rightarrow> nat \<Rightarrow> conn_state \<Rightarrow> bool" where
  "shows_task s i p \<longleftrightarrow>
     (case tasks s i of
        Some (Serving p') \<Rightarrow> p = erase p'
      | Some Handshaking \<Rightarrow> p = AwaitWindow
      | None \<Rightarrow> if i < next_task s then \<exists>r. p = Returned r else p = AwaitWindow)"

definition in_hand_of :: "nat \<Rightarrow> 'ev fleet \<Rightarrow> bool" where
  "in_hand_of i f \<longleftrightarrow> (\<exists>b \<in> set (in_hand f). \<exists>tx. ack b = Some tx \<and> owner f tx = i)"

definition stands_for :: "nat \<Rightarrow> 'ev fleet \<Rightarrow> 'ev session \<Rightarrow> bool" where
  "stands_for i f s \<longleftrightarrow>
     (\<exists>p k. s = session_of (links f i) p (of_conn i (journal f)) k \<and> shows_task (srv f) i p \<and>
        k \<le> length (of_conn i (journal f)) \<and>
        (awaiting p \<noteq> None \<or> in_hand_of i f \<longrightarrow> k < length (of_conn i (journal f))))"

text \<open>A step of a task adds a batch to those in hand only for its own connection.\<close>

lemma task_moves_in_hand_of:
  assumes inv: "fleet_inv f" and move: "task_moves zl cfg tls i ev f = Some f'" and b: "in_hand_of j f'"
  shows "in_hand_of j f \<or> j = i \<and> (\<exists>p. tasks (srv f) i = Some (Serving p) \<and> handing p ev \<noteq> [])"
  using move
proof (rule task_moves_cases)
  fix p p' s
  assume t: "tasks (srv f) i = Some (Serving p)" and cs: "conn_step zl cfg (next_chan (srv f)) p ev = Some p'"
    and f': "f' = f\<lparr>srv := s, owner := (owner f)(next_chan (srv f) := i),
            journal := journal f @ map (\<lambda>b. (i, events b)) (handing p ev)\<rparr>"
    and s: "queue s = queue (srv f) @ handing p ev" "held s = held (srv f)"
  note sys = fleet_invD(1) [OF inv]
  from b obtain b tx where b: "b \<in> set (in_hand f')" "ack b = Some tx" "owner f' tx = j" by (auto simp: in_hand_of_def)
  show ?thesis
  proof (cases "b \<in> set (in_hand f)")
    case True
    with sys_inv_sel(2) [OF sys, of b] b(2,3) f' show ?thesis by (auto simp: in_hand_of_def in_hand_def)
  next
    case False
    with b(1) s f' have h: "b \<in> set (handing p ev)" by (auto simp: in_hand_def)
    from handing_step [OF cs h] t obtain rx where p: "tasks (srv f) i = Some (Serving (Dispatching b rx))" by auto
    with sys_inv_sel(3) [OF sys p] sys_inv_receiver [OF sys p] fleet_invD(3) [OF inv p] b(2,3) f' have "j = i" by auto
    with h t show ?thesis by (auto intro!: exI [of _ p])
  qed
qed

lemma task_moves_other:
  assumes "fleet_inv f" and move: "task_moves zl cfg tls j ev f = Some f'" and "i \<noteq> j" and rel: "stands_for i f s"
  shows "stands_for i f' s"
  using move
proof (rule task_moves_cases)
  fix p p' s'
  assume "tasks (srv f) j = Some (Serving p)"
    and f': "f' = f\<lparr>srv := s', owner := (owner f)(next_chan (srv f) := j),
            journal := journal f @ map (\<lambda>b. (j, events b)) (handing p ev)\<rparr>"
    and s': "tasks s' = (tasks (srv f))(j := running p')" "next_task s' = next_task (srv f)"
  from s' assms(3) have "shows_task (srv f') i q = shows_task (srv f) i q" for q by (simp add: f' shows_task_def)
  moreover from assms(3) have "of_conn i (journal f') = of_conn i (journal f)" by (simp add: f' of_conn_handed)
  moreover have "in_hand_of i f' \<Longrightarrow> in_hand_of i f" using task_moves_in_hand_of [OF assms(1,2)] assms(3) by blast
  ultimately show ?thesis using rel f' by (auto simp: stands_for_def)
qed

text \<open>A step of the task of the connection itself is a step of the session, and the counts go on as they should.\<close>

fun acks_in :: "conn_event \<Rightarrow> nat" where
  "acks_in (AckReceived r) = 1"
| "acks_in _ = 0"

lemma conn_step_acks:
  assumes "conn_step zl cfg tx p ev = Some p'" and "handing p ev = []" and "awaiting p' \<noteq> None"
  shows "awaiting p \<noteq> None" and "acks_in ev = 0"
  using assms
  by (cases "(zl, cfg, tx, p, ev)" rule: conn_step.cases;
    auto simp: window_loop_def split: if_splits sum.splits option.splits frame.splits)+

lemma task_moves_acked:
  assumes inv: "fleet_inv f" and move: "task_moves zl cfg tls i (AckReceived r) f = Some f'"
  shows "\<exists>rx seq. tasks (srv f) i = Some (Serving (AwaitAck rx seq)) \<and> r = Some seq" and "\<not> in_hand_of i f'"
proof -
  from move obtain p p' s where p: "tasks (srv f) i = Some (Serving p)"
      "conn_step zl cfg (next_chan (srv f)) p (AckReceived r) = Some p'"
    and step: "server_step zl cfg tls (Task i (Conn (AckReceived r))) (srv f) = Some s"
    by (rule task_moves_cases)
  from p(2) obtain rx seq where aw: "p = AwaitAck rx seq"
    by (cases "(zl, cfg, next_chan (srv f), p, AckReceived r)" rule: conn_step.cases) auto
  note gone = ack_received_released [OF fleet_invD(1) [OF inv], of i rx seq zl cfg tls r s]
  from gone p(1) aw step show "\<exists>rx seq. tasks (srv f) i = Some (Serving (AwaitAck rx seq)) \<and> r = Some seq" by auto
  show "\<not> in_hand_of i f'"
  proof
    assume "in_hand_of i f'"
    with task_moves_in_hand_of [OF inv move] p(1) have "in_hand_of i f" by auto
    then obtain b tx where b: "b \<in> set (in_hand f)" "ack b = Some tx" "owner f tx = i" by (auto simp: in_hand_of_def)
    from fleet_invD(2) [OF inv b(1)] b(2,3) p(1) aw have "tx = rx" by (auto simp: accounted_def)
    with gone p(1) aw step b(1,2) show False by (force simp: in_hand_def)
  qed
qed

lemma task_moves_shows:
  assumes inv: "fleet_inv f" and move: "task_moves zl cfg tls i ev f = Some f'"
    and p: "tasks (srv f) i = Some (Serving p)" and k: "k \<le> length (of_conn i (journal f))"
    and kw: "awaiting p \<noteq> None \<or> in_hand_of i f \<longrightarrow> k < length (of_conn i (journal f))"
  obtains p' where "conn_step zl cfg 0 (erase p) ev = Some (erase p')"
    "stands_for i f' (session_of (links f i) (erase p') (of_conn i (journal f) @ map events (handing p ev)) (k + acks_in ev))"
  using move
proof (rule task_moves_cases)
  fix q p' s
  assume q: "tasks (srv f) i = Some (Serving q)" and cs: "conn_step zl cfg (next_chan (srv f)) q ev = Some p'"
    and f': "f' = f\<lparr>srv := s, owner := (owner f)(next_chan (srv f) := i),
            journal := journal f @ map (\<lambda>b. (i, events b)) (handing q ev)\<rparr>"
    and s: "tasks s = (tasks (srv f))(i := running p')" "next_task s = next_task (srv f)"
  from p q have pq: "q = p" by simp
  have vis: "shows_task (srv f') i (erase p')"
    using s f' sys_inv_sel(1) [OF fleet_invD(1) [OF inv] p] conn_step_no_panic [OF cs]
    by (cases p') (auto simp: shows_task_def)
  let ?n = "length (of_conn i (journal f))" and ?h = "handing p ev"
  have "k + acks_in ev \<le> ?n + length ?h \<and>
      (awaiting (erase p') \<noteq> None \<or> in_hand_of i f' \<longrightarrow> k + acks_in ev < ?n + length ?h)"
  proof (cases "\<exists>r. ev = AckReceived r")
    case True
    then obtain r where r: "ev = AckReceived r" by blast
    from task_moves_acked [OF inv, of zl cfg tls i r f'] move r p obtain rx seq where "p = AwaitAck rx seq" "r = Some seq"
      "\<not> in_hand_of i f'" by auto
    with kw cs r pq show ?thesis by auto
  next
    case False
    then have z: "acks_in ev = 0" by (cases ev) auto
    show ?thesis
    proof (cases "?h = []")
      case True
      with conn_step_acks(1) [OF cs] task_moves_in_hand_of [OF inv move, of i] k kw z p pq show ?thesis by auto
    next
      case False
      then have "0 < length ?h" by simp
      with k z show ?thesis by linarith
    qed
  qed
  then have "stands_for i f' (session_of (links f i) (erase p') (of_conn i (journal f) @ map events ?h) (k + acks_in ev))"
    unfolding stands_for_def
    by (intro exI [of _ "erase p'"] exI [of _ "k + acks_in ev"]) (use vis f' pq in \<open>simp add: of_conn_handed\<close>)
  with erase_step [OF cs] pq show ?thesis by (intro that [of p']) simp_all
qed

lemma links_frame [simp]:
  "in_hand_of j (f\<lparr>links := ls\<rparr>) = in_hand_of j f"
  "j \<noteq> i \<Longrightarrow> stands_for j (f\<lparr>links := (links f)(i := l)\<rparr>) s = stands_for j f s"
  by (simp_all add: in_hand_of_def in_hand_def stands_for_def)

lemma own_step:
  assumes inv: "fleet_inv f" and rel: "stands_for i f s"
    and move: "task_moves zl cfg tls i ev (f\<lparr>links := (links f)(i := l)\<rparr>) = Some f'"
  obtains p p' del k where "tasks (srv f) i = Some (Serving p)" "s = session_of (links f i) (erase p) del k"
    "conn_step zl cfg 0 (erase p) ev = Some (erase p')"
    "stands_for i f' (session_of l (erase p') (del @ map events (handing p ev)) (k + acks_in ev))"
proof -
  let ?f = "f\<lparr>links := (links f)(i := l)\<rparr>"
  from move obtain p where p: "tasks (srv ?f) i = Some (Serving p)" by (rule task_moves_cases)
  from rel obtain q k where s: "s = session_of (links f i) q (of_conn i (journal f)) k" "shows_task (srv f) i q"
      "k \<le> length (of_conn i (journal f))" "awaiting q \<noteq> None \<or> in_hand_of i f \<longrightarrow> k < length (of_conn i (journal f))"
    unfolding stands_for_def by blast
  from s(2) p have q: "q = erase p" by (simp add: shows_task_def)
  have k: "k \<le> length (of_conn i (journal ?f))" "awaiting p \<noteq> None \<or> in_hand_of i ?f \<longrightarrow> k < length (of_conn i (journal ?f))"
    using s(3,4) q by simp_all
  have inv': "fleet_inv ?f" using inv by simp
  obtain p' where "conn_step zl cfg 0 (erase p) ev = Some (erase p')"
    "stands_for i f' (session_of (links ?f i) (erase p') (of_conn i (journal ?f) @ map events (handing p ev)) (k + acks_in ev))"
    by (rule task_moves_shows [OF inv' move p k])
  with that [of p "of_conn i (journal f)" k p'] p s(1) q show ?thesis by simp
qed

lemma unchanged_links: "f\<lparr>links := (links f)(i := links f i)\<rparr> = f"
  by simp

lemma wakes_simulates:
  assumes inv: "fleet_inv f" and rel: "stands_for i f s"
    and step: "fleet_step zl to_vec self cfg tls (Wakes i ev) f = Some f'"
  shows "\<exists>s'. session_moves zl to_vec (self i) cfg s s' \<and> stands_for i f' s'"
proof -
  from step have move: "task_moves zl cfg tls i ev (f\<lparr>links := (links f)(i := links f i)\<rparr>) = Some f'"
    and ev: "\<forall>g. ev \<noteq> NextItem (Some (Inr g))" "\<forall>r. ev \<noteq> FrameSent r"
    by (auto split: conn_event.splits option.splits sum.splits)
  from inv rel move obtain p p' del k where p: "tasks (srv f) i = Some (Serving p)"
    "s = session_of (links f i) (erase p) del k" "conn_step zl cfg 0 (erase p) ev = Some (erase p')" and
    rel': "stands_for i f' (session_of (links f i) (erase p') (del @ map events (handing p ev)) (k + acks_in ev))"
    by (rule own_step)
  have "\<exists>e. session_step zl to_vec (self i) cfg e s =
      Some (session_of (links f i) (erase p') (del @ map events (handing p ev)) (k + acks_in ev))"
  proof (cases ev)
    case (NextItem item)
    with ev(1) p show ?thesis
      by (cases item rule: option.exhaust; cases "the item")
        (auto simp: peer_moves_def intro!: exI [of _ "PeerFails (map_option projl item)"])
  next
    case (BatchSent ok)
    with p(3) obtain b rx where "p = Dispatching b rx" by (cases p) auto
    with BatchSent p show ?thesis by (intro exI [of _ "PeerHands ok"]) (auto simp: peer_moves_def)
  next
    case (AckReceived r)
    with task_moves_acked(1) [OF inv, of zl cfg tls i r f'] move p(1) obtain rx seq where "p = AwaitAck rx seq" "r = Some seq"
      by auto
    with AckReceived p show ?thesis by (intro exI [of _ PeerAcked]) (auto simp: peer_moves_def)
  next
    case KeepaliveElapsed
    with p show ?thesis by (intro exI [of _ PeerTimer]) (simp add: peer_moves_def)
  qed (use ev in simp)
  with rel' show ?thesis unfolding session_moves_def by blast
qed

lemma reads_simulates:
  assumes inv: "fleet_inv f" and rel: "stands_for i f s"
    and step: "fleet_step zl to_vec self cfg tls (Reads i) f = Some f'"
  shows "\<exists>s'. session_moves zl to_vec (self i) cfg s s' \<and> stands_for i f' s'"
proof -
  from step obtain item buf where item: "peer_item zl cfg (links f i) = Some (item, buf)"
    and move: "task_moves zl cfg tls i (NextItem (Some item))
      (f\<lparr>links := (links f)(i := (links f i)\<lparr>inbox := buf\<rparr>)\<rparr>) = Some f'"
    by (auto simp: bind_eq_Some_conv)
  from inv rel move obtain p p' del k where
    p: "s = session_of (links f i) (erase p) del k" "conn_step zl cfg 0 (erase p) (NextItem (Some item)) = Some (erase p')" and
    rel': "stands_for i f' (session_of ((links f i)\<lparr>inbox := buf\<rparr>) (erase p')
      (del @ map events (handing p (NextItem (Some item)))) (k + acks_in (NextItem (Some item))))"
    by (rule own_step)
  have "session_step zl to_vec (self i) cfg PeerReads s = Some (session_of ((links f i)\<lparr>inbox := buf\<rparr>) (erase p') del k)"
    using item p by (simp add: peer_item_def peer_moves_def)
  moreover from rel' have "stands_for i f' (session_of ((links f i)\<lparr>inbox := buf\<rparr>) (erase p') del k)" by simp
  ultimately show ?thesis unfolding session_moves_def by blast
qed

lemma writes_simulates:
  assumes inv: "fleet_inv f" and rel: "stands_for i f s"
    and step: "fleet_step zl to_vec self cfg tls (Writes i r got_out) f = Some f'"
  shows "\<exists>s'. session_moves zl to_vec (self i) cfg s s' \<and> stands_for i f' s'"
proof -
  from step obtain q l where l: "serving_state i f = Some q" "peer_output zl q r got_out (links f i) = Some l"
    and move: "task_moves zl cfg tls i (FrameSent r) (f\<lparr>links := (links f)(i := l)\<rparr>) = Some f'"
    by (auto simp: bind_eq_Some_conv)
  from inv rel move obtain p p' del k where p: "tasks (srv f) i = Some (Serving p)"
    "s = session_of (links f i) (erase p) del k" "conn_step zl cfg 0 (erase p) (FrameSent r) = Some (erase p')" and
    rel': "stands_for i f' (session_of l (erase p') (del @ map events (handing p (FrameSent r))) (k + acks_in (FrameSent r)))"
    by (rule own_step)
  from l(1) p(1) have q: "q = p" by (simp add: serving_state_def)
  have "session_step zl to_vec (self i) cfg (PeerWrites r got_out) s = Some (session_of l (erase p') del k)"
    using l(2) p(2,3) q by (auto simp: peer_output_def peer_moves_def bind_eq_Some_conv split: if_splits)
  moreover from rel' have "stands_for i f' (session_of l (erase p') del k)" by simp
  ultimately show ?thesis unfolding session_moves_def by blast
qed

lemma around_simulates:
  assumes inv: "fleet_inv f" and rel: "stands_for i f s" and step: "server_step zl cfg tls ev (srv f) = Some s1" and ev: "around ev"
    and f': "f' = f\<lparr>srv := s1, received := n\<rparr>"
  shows "\<exists>s'. (session_moves zl to_vec self cfg)\<^sup>=\<^sup>= s s' \<and> stands_for i f' s'"
proof -
  have bs: "in_hand_of i f' \<Longrightarrow> in_hand_of i f"
    using around_batches [OF step ev] f' by (auto simp: in_hand_of_def in_hand_def)
  from rel obtain q k where s: "s = session_of (links f i) q (of_conn i (journal f)) k" "shows_task (srv f) i q"
      "k \<le> length (of_conn i (journal f))" "awaiting q \<noteq> None \<or> in_hand_of i f \<longrightarrow> k < length (of_conn i (journal f))"
    unfolding stands_for_def by blast
  have same: "stands_for i f' s" if "shows_task s1 i q" using that s bs f' by (auto simp: stands_for_def)
  note lt = sys_inv_sel(1) [OF fleet_invD(1) [OF inv], of i]
  have "shows_task s1 i q \<or> q = AwaitWindow \<and> (\<forall>r. shows_task s1 i (Returned r))"
    using around_tasks [OF step ev] s(2) lt by (auto simp: shows_task_def fresh_task_def split: if_splits option.splits task.splits)
  then show ?thesis
  proof
    assume *: "q = AwaitWindow \<and> (\<forall>r. shows_task s1 i (Returned r))"
    let ?s = "session_of (links f i) (Returned (Inr ())) (of_conn i (journal f)) k"
    from * s(1) have "session_step zl to_vec self cfg (PeerFails None) s = Some ?s" by (simp add: peer_moves_def)
    moreover have "stands_for i f' ?s" unfolding stands_for_def
      by (intro exI [of _ "Returned (Inr ())"] exI [of _ k]) (use * s(3,4) bs f' in auto)
    ultimately show ?thesis unfolding session_moves_def by blast
  qed (use same in blast)
qed

lemma fleet_simulates:
  assumes inv: "fleet_inv f" and rel: "stands_for i f s" and move: "fleet_moves zl to_vec self cfg tls f f'"
  shows "\<exists>s'. (session_moves zl to_vec (self i) cfg)\<^sup>=\<^sup>= s s' \<and> stands_for i f' s'"
proof -
  from move obtain e where step: "fleet_step zl to_vec self cfg tls e f = Some f'" unfolding fleet_moves_def by blast
  have other: "stands_for i f' s" if "i \<noteq> j" "task_moves zl cfg tls j ev (f\<lparr>links := (links f)(j := l)\<rparr>) = Some f'" for j ev l
    using task_moves_other [of "f\<lparr>links := (links f)(j := l)\<rparr>" zl cfg tls j ev f' i s] that inv rel by simp
  show ?thesis
  proof (cases e)
    case (Client j le)
    with step obtain l where l: "link_step zl to_vec (self j) le (links f j) = Some l" "f' = f\<lparr>links := (links f)(j := l)\<rparr>"
      by (auto simp: bind_eq_Some_conv)
    show ?thesis
    proof (cases "j = i")
      case True
      from rel obtain q k where s: "s = session_of (links f i) q (of_conn i (journal f)) k" unfolding stands_for_def by blast
      have "session_step zl to_vec (self i) cfg (Link le) s = Some (session_of l q (of_conn i (journal f)) k)"
        using link_step_session [OF l(1)] True s by simp
      moreover from rel s have "stands_for i f' (session_of l q (of_conn i (journal f)) k)"
        using l(2) True by (auto simp: stands_for_def session_of_def link.defs)
      ultimately show ?thesis unfolding session_moves_def by blast
    qed (use l(2) rel in auto)
  next
    case (Reads j)
    with reads_simulates [OF inv rel, of zl to_vec self cfg tls f'] other step show ?thesis
      by (cases "i = j") (fastforce simp: bind_eq_Some_conv)+
  next
    case (Writes j r g)
    with writes_simulates [OF inv rel, of zl to_vec self cfg tls r g f'] other step show ?thesis
      by (cases "i = j") (fastforce simp: bind_eq_Some_conv)+
  next
    case (Wakes j ev)
    show ?thesis
    proof (cases "i = j")
      case False
      from Wakes step have "task_moves zl cfg tls j ev (f\<lparr>links := (links f)(j := links f j)\<rparr>) = Some f'"
        by (auto split: conn_event.splits option.splits sum.splits)
      with other [OF False] show ?thesis by blast
    qed (use Wakes wakes_simulates [OF inv rel] step in blast)
  next
    case (Around ev)
    with step obtain s1 where "server_step zl cfg tls ev (srv f) = Some s1" "around ev"
      "f' = f\<lparr>srv := s1, received := received f + (if ev = Recv \<and> queue (srv f) \<noteq> [] then 1 else 0)\<rparr>"
      unfolding around_step Around by blast
    then show ?thesis by (rule around_simulates [OF inv rel])
  qed
qed

interpretation fleet: simulation "fleet_moves zl to_vec self cfg tls" "session_moves zl to_vec (self i) cfg" fleet_inv "stands_for i"
  for zl to_vec self cfg tls i
proof
  show "fleet_inv f'" if "fleet_inv f" "fleet_moves zl to_vec self cfg tls f f'" for f f'
    using that fleet_step_inv unfolding fleet_moves_def by blast
qed (rule fleet_simulates)

section \<open>Reachable fleets\<close>

lemma shows_start: "stands_for i (fleet_start (serving adm) work) (session_start (work i))"
  unfolding stands_for_def
  by (intro exI [of _ AwaitWindow] exI [of _ 0])
    (auto simp: fleet_start_def session_of_def session_start_def shows_task_def in_hand_of_def in_hand_def serving_def)

lemma fleet_reach_session:
  assumes "fleet_reach zl to_vec self cfg tls adm work f"
  shows "fleet_inv f \<and> (\<exists>s. session_reach zl to_vec (self i) cfg (work i) s \<and> stands_for i f s)"
  using fleet.simulates_run [OF assms [unfolded fleet_reach_def] fleet_start_inv shows_start, of i]
    session_moves_reach [OF _ session_reach.start] by blast

text \<open>The counts of one connection in a reachable fleet.\<close>

lemma fleet_reach_counts:
  assumes build: "crate_build zl" and reach: "fleet_reach zl to_vec self cfg tls adm work f"
    and good: "good_work zl to_vec (self i) cfg (work i) ds" and first: "\<not> resumed (links f i)"
  shows "of_conn i (journal f) = take (length (of_conn i (journal f))) ds"
    and "length (of_conn i (journal f)) \<le> length ds"
    and "confirmed (links f i) \<le> length (of_conn i (journal f))"
    and "length (of_conn i (journal f)) \<le> Suc (confirmed (links f i))"
    and "in_hand_of i f \<Longrightarrow> confirmed (links f i) < length (of_conn i (journal f))"
proof -
  from fleet_reach_session [OF reach, of i] obtain s where s: "session_reach zl to_vec (self i) cfg (work i) s"
      and rel: "stands_for i f s" by blast
  from rel have eqs: "delivered s = of_conn i (journal f)" "confirmed s = confirmed (links f i)" "resumed s = resumed (links f i)"
      and hand: "in_hand_of i f \<Longrightarrow> acked s < length (delivered s)"
    by (auto simp: stands_for_def)
  from first have "\<not> resumed s" by (simp add: eqs)
  note box = session_reach_box [OF build good s this] and inv = session_reach_inv [OF s build good this]
  from box_reach [OF box]
  show "of_conn i (journal f) = take (length (of_conn i (journal f))) ds" "length (of_conn i (journal f)) \<le> length ds"
    "confirmed (links f i) \<le> length (of_conn i (journal f))" "length (of_conn i (journal f)) \<le> Suc (confirmed (links f i))"
    by (simp_all add: box_of_def eqs)
  from session_inv_counts(3) [OF inv] hand
  show "in_hand_of i f \<Longrightarrow> confirmed (links f i) < length (of_conn i (journal f))" by (simp add: eqs)
qed

lemma of_conn_take_drop: "of_conn i js = of_conn i (take n js) @ of_conn i (drop n js)"
  by (metis append_take_drop_id of_conn_simps(3))

section \<open>Example\<close>

fun fleet_run ::
    "'d flate2 option \<Rightarrow> ('ev \<Rightarrow> string + bytes) \<Rightarrow> (nat \<Rightarrow> 's client) \<Rightarrow> connection_config \<Rightarrow> bool \<Rightarrow> fleet_event list \<Rightarrow>
     'ev fleet \<Rightarrow> 'ev fleet option" where
  "fleet_run zl to_vec self cfg tls [] f = Some f"
| "fleet_run zl to_vec self cfg tls (e # es) f =
     do { f \<leftarrow> fleet_step zl to_vec self cfg tls e f; fleet_run zl to_vec self cfg tls es f }"

lemma fleet_run_moves:
  "fleet_run zl to_vec self cfg tls es f = Some f' \<Longrightarrow> (fleet_moves zl to_vec self cfg tls)\<^sup>*\<^sup>* f f'"
proof (induction es arbitrary: f)
  case (Cons e es)
  then obtain f1 where "fleet_step zl to_vec self cfg tls e f = Some f1" "(fleet_moves zl to_vec self cfg tls)\<^sup>*\<^sup>* f1 f'"
    by (auto simp: bind_eq_Some_conv)
  then show ?case by (meson converse_rtranclp_into_rtranclp fleet_moves_def)
qed simp

text \<open>
  Two clients, each with one batch of one event. The batch of the second arrives first; the application receives both,
  acknowledges the first client's, and that client is told; the other batch is still with the application.
\<close>

definition example_fleet_events :: "fleet_event list" where
  "example_fleet_events =
     [Around (Accept (Accepted (Inr ()))), Around (Accept (Accepted (Inr ())))] @
     concat (map (\<lambda>i. [Client i SendNext, Client i (Await (Fed (Inr ()))), Client i (Await (Fed (Inr ()))),
       Client i (Await (Flushed (Inr ()))), Client i (ToServer 18), Reads i, Reads i, Wakes i (BatchSent True)]) [1, 0]) @
     [Around Recv, Around Recv, Around (Release ByAck 1), Wakes 0 (AckReceived (Some 1)), Writes 0 (Inr ()) True,
      Client 0 (ToClient 6), Client 0 ReadReply]"

definition example_work :: "nat \<Rightarrow> bytes list list" where
  "example_work i = (if i = 0 then [[[123, 125]]] else [[[91, 93]]])"

lemma example_fleet_run:
  "map_option (\<lambda>f. (confirmed (links f 0), resumed (links f 0), resumed (links f 1), journal f, received f, held (srv f), owner f 0))
     (fleet_run no_zlib Inr (\<lambda>_. example_client 0) example_cfg False example_fleet_events
        (fleet_start (serving (room_below 4)) example_work)) =
   Some (1, False, False, [(1, [[91, 93]]), (0, [[123, 125]])], 2, [batch_new [[91, 93]] 1 0], 1)"
  by (simp add: example_fleet_events_def room_below_def fleet_start_def serving_def guard_new_def link_start_def example_work_def
      client_moves_def send_start_def feed_then_def json_loop_def decode_with_limit_parse decode_def task_moves_def
      peer_item_def peer_output_def serving_state_def codec_decode_parse codec_encode_def encode_wire example_cfg_def
      to_be_bytes_def DEFAULT_MAX_FRAME_SIZE_def with_max_frame_size_def codec_new_def start_window_def window_loop_def
      push_json_def batch_new_def server_recv_def batch_ack_def batch_drop_def oneshot_send_def)

lemma example_fleet:
  obtains f where "fleet_reach no_zlib Inr (\<lambda>_. example_client 0) example_cfg False (room_below 4) example_work f"
    "confirmed (links f 0) = 1" "\<not> resumed (links f 0)" "\<not> resumed (links f 1)"
      "journal f = [(1, [[91, 93]]), (0, [[123, 125]])]"
    "received f = 2" "held (srv f) = [batch_new [[91, 93]] 1 0]" "owner f 0 = 1"
proof -
  from example_fleet_run obtain f where
    run: "fleet_run no_zlib Inr (\<lambda>_. example_client 0) example_cfg False example_fleet_events
        (fleet_start (serving (room_below 4)) example_work) = Some f" and
    f: "confirmed (links f 0) = 1" "\<not> resumed (links f 0)" "\<not> resumed (links f 1)"
      "journal f = [(1, [[91, 93]]), (0, [[123, 125]])]"
      "received f = 2" "held (srv f) = [batch_new [[91, 93]] 1 0]" "owner f 0 = 1"
    by (auto simp del: fleet_run.simps)
  have "fleet_reach no_zlib Inr (\<lambda>_. example_client 0) example_cfg False (room_below 4) example_work f"
    unfolding fleet_reach_def by (rule fleet_run_moves [OF run])
  with f that show ?thesis by blast
qed

lemma example_fleet_good: "good_work no_zlib Inr (example_client 0) example_cfg (example_work i) (example_work i)"
  by (simp add: good_batch_def example_work_def serialized_def deliverable_def events_fit_def example_cfg_def)

section \<open>Properties\<close>

text \<open>C7. One server, many clients: each connection of a shared server behaves as a session with a server of its own. Whatever
  the other clients, their tasks, the accept loop and the application do, the client, the network and the task of a
  connection are in a state that a session can reach, and the batches that the application's channel has accepted from it are
  those that the session has delivered.\<close>

theorem fleet_refines_session:
  assumes "fleet_reach zl to_vec self cfg tls adm work f"
  shows "\<exists>s. session_reach zl to_vec (self i) cfg (work i) s \<and> link.truncate s = links f i \<and>
    delivered s = of_conn i (journal f) \<and> shows_task (srv f) i (peer s)"
proof -
  from fleet_reach_session [OF assms, of i] obtain s where s: "session_reach zl to_vec (self i) cfg (work i) s" "stands_for i f s"
    by blast
  from s(2) have "link.truncate s = links f i \<and> delivered s = of_conn i (journal f) \<and> shows_task (srv f) i (peer s)"
    by (auto simp: stands_for_def)
  with s(1) show ?thesis by blast
qed

theorem fleet_refines_session_witness:
  "\<exists>s. session_reach no_zlib Inr (example_client 0) example_cfg (example_work 0) s \<and> confirmed s = 1 \<and>
    delivered s = [[[123, 125]]]"
proof -
  obtain f where f: "fleet_reach no_zlib Inr (\<lambda>_. example_client 0) example_cfg False (room_below 4) example_work f"
    "confirmed (links f 0) = 1" "journal f = [(1, [[91, 93]]), (0, [[123, 125]])]"
    by (rule example_fleet)
  from fleet_refines_session [OF f(1), of 0] f(3) obtain s where
    s: "session_reach no_zlib Inr (example_client 0) example_cfg (example_work 0) s" "link.truncate s = links f 0"
      "delivered s = [[[123, 125]]]"
    by auto
  from s(2) f(2) have "confirmed s = 1" by (metis link.select_convs(3) link.defs(4))
  with s show ?thesis by blast
qed

text \<open>C1. Delivery to a shared application. Any number of clients send to one server, over a bounded channel that all
  connections share: for each of them that has batches that fit and has not sent again after a send that failed, whatever the
  others do, what the channel has accepted, and what the application has received, is a beginning
  of the client's batches, each once, complete and in the client's order; it holds every batch whose send returned \<open>Ok\<close> and at
  most one more. As long as the server handle lives, every confirmed batch has already been received.\<close>

theorem fleet_exactly_once:
  assumes "crate_build zl" and "list_all2 (good_batch zl to_vec (self i) (conn_max_frame_size cfg)) (work i) dss"
    and "fleet_reach zl to_vec self cfg tls adm work f" and "\<not> resumed (links f i)"
  shows "\<exists>j k. of_conn i (take (received f) (journal f)) = take j dss \<and> of_conn i (journal f) = take k dss \<and>
    j \<le> k \<and> k \<le> length dss \<and> confirmed (links f i) \<le> k \<and> k \<le> Suc (confirmed (links f i)) \<and>
    (receiving (srv f) \<longrightarrow> confirmed (links f i) \<le> j)"
proof -
  note counts = fleet_reach_counts [OF assms(1,3,2,4)]
  let ?all = "of_conn i (journal f)" and ?got = "of_conn i (take (received f) (journal f))"
  let ?rest = "of_conn i (drop (received f) (journal f))"
  have split: "?all = ?got @ ?rest" by (rule of_conn_take_drop)
  then have le: "length ?got \<le> length ?all" by simp
  from split have "?got = take (length ?got) ?all" by simp
  also have "\<dots> = take (length ?got) dss" 
    using counts(1) le by (metis min.absorb1 take_take)
  finally have got: "?got = take (length ?got) dss" .
  have "confirmed (links f i) \<le> length ?got" if rec: "receiving (srv f)"
  proof (cases "?rest = []")
    case False
    have inv: "fleet_inv f" using fleet_reach_session [OF assms(3)] by blast
    note un = fleet_invD(5) [OF inv rec, unfolded unreceived_ok_def]
    from un False obtain b where "b \<in> set (queue (srv f))" "fst (tagged f b) = i"
      by (auto simp: of_conn_def filter_empty_conv)
    with sys_inv_sel(2) [OF fleet_invD(1) [OF inv], of b] have "in_hand_of i f"
      by (auto simp: in_hand_of_def in_hand_def tagged_def intro!: bexI [of _ b])
    moreover from un have "length ?rest \<le> 1" by blast
    moreover have "length ?all = length ?got + length ?rest" using split by (metis length_append)
    ultimately show ?thesis using counts(5) by linarith
  qed (use split counts(3) in simp)
  then show ?thesis
    by (intro exI [of _ "length ?got"] exI [of _ "length ?all"] conjI impI got le counts(1-4))
qed

theorem fleet_exactly_once_witness:
  "\<exists>f j k. fleet_reach no_zlib Inr (\<lambda>_. example_client 0) example_cfg False (room_below 4) example_work f \<and> confirmed (links f 0) = 1 \<and>
    \<not> resumed (links f 0) \<and> of_conn 0 (take (received f) (journal f)) = take j (example_work 0) \<and> of_conn 0 (journal f) = take k (example_work 0) \<and>
    j \<le> k \<and> k \<le> length (example_work 0) \<and> confirmed (links f 0) \<le> k"
proof -
  obtain f where f: "fleet_reach no_zlib Inr (\<lambda>_. example_client 0) example_cfg False (room_below 4) example_work f"
    "confirmed (links f 0) = 1" "\<not> resumed (links f 0)"
    by (rule example_fleet)
  from fleet_exactly_once [OF plain_build.crate_build_axioms example_fleet_good [of 0] f(1,3)] f show ?thesis by blast
qed

text \<open>C6. No confirmation before its time: a batch that is still in the server's channel or in the hands of the application
  is exactly the one that its own client has not been told about, and no \<open>Ok\<close> covers it. Its own client is the one whose
  connection created the batch's one-shot channel; no other task waits at that channel, and the task of that connection waits
  there unless it has ended. The client is one that has not sent again after a send that failed; of the others nothing is
  asked.\<close>

theorem confirmed_means_released:
  assumes "crate_build zl" and "fleet_reach zl to_vec self cfg tls adm work f" and "b \<in> set (queue (srv f) @ held (srv f))"
    and "i = owner f (the (ack b))" and "list_all2 (good_batch zl to_vec (self i) (conn_max_frame_size cfg)) (work i) dss"
    and "\<not> resumed (links f i)"
  shows "confirmed (links f i) < length dss \<and> events b = dss ! confirmed (links f i) \<and>
    of_conn i (journal f) = take (Suc (confirmed (links f i))) dss \<and> ack b \<noteq> None \<and>
    (\<forall>j p. tasks (srv f) j = Some (Serving p) \<longrightarrow> receiver p = ack b \<longrightarrow> j = i) \<and>
    (\<forall>t. tasks (srv f) i = Some t \<longrightarrow> (\<exists>p. t = Serving p \<and> awaiting p = ack b))"
proof -
  have inv: "fleet_inv f" using fleet_reach_session [OF assms(2)] by blast
  from fleet_invD(2) [OF inv, of b] assms(3,4) obtain tx where tx: "ack b = Some tx" "owner f tx = i"
      "of_conn i (journal f) \<noteq> []" "events b = last (of_conn i (journal f))"
    and own: "\<forall>t. tasks (srv f) i = Some t \<longrightarrow> (\<exists>p. t = Serving p \<and> awaiting p = ack b)"
    by (auto simp: accounted_def in_hand_def)
  with assms(3) have hand: "in_hand_of i f" by (auto simp: in_hand_of_def in_hand_def)
  note counts = fleet_reach_counts [OF assms(1,2,5,6)]
  from counts(4) counts(5) [OF hand] have n: "length (of_conn i (journal f)) = Suc (confirmed (links f i))" by simp
  with counts(1,2) have "of_conn i (journal f) = take (Suc (confirmed (links f i))) dss"
    "confirmed (links f i) < length dss" by simp_all
  moreover have "\<forall>j p. tasks (srv f) j = Some (Serving p) \<longrightarrow> receiver p = ack b \<longrightarrow> j = i"
    using fleet_invD(3) [OF inv] tx(1,2) by auto
  ultimately show ?thesis using tx own by (auto simp: take_Suc_conv_app_nth)
qed

theorem confirmed_means_released_witness:
  "\<exists>f. fleet_reach no_zlib Inr (\<lambda>_. example_client 0) example_cfg False (room_below 4) example_work f \<and>
    batch_new [[91, 93]] 1 0 \<in> set (held (srv f)) \<and> owner f 0 = 1 \<and> \<not> resumed (links f 1) \<and>
    confirmed (links f 1) < length (example_work 1) \<and> [[91, 93]] = example_work 1 ! confirmed (links f 1) \<and>
    of_conn 1 (journal f) = take (Suc (confirmed (links f 1))) (example_work 1)"
proof -
  obtain f where f: "fleet_reach no_zlib Inr (\<lambda>_. example_client 0) example_cfg False (room_below 4) example_work f"
    "\<not> resumed (links f 1)" "held (srv f) = [batch_new [[91, 93]] 1 0]" "owner f 0 = 1"
    by (rule example_fleet)
  let ?b = "batch_new [[91, 93]] 1 0"
  have b: "?b \<in> set (queue (srv f) @ held (srv f))" "1 = owner f (the (ack ?b))"
    using f(3,4) by (simp_all add: batch_new_def)
  from confirmed_means_released [OF plain_build.crate_build_axioms f(1) b example_fleet_good [of 1] f(2)] f
  show ?thesis by (auto simp: batch_new_def)
qed

end
