(* ===== verification/Progress.thy ===== *)
theory Progress
  imports Session
begin

text \<open>
  A session without failures finishes, whatever the schedule. The steps of a session are either smooth (the client, the
  network, the server and the application do some of their work), a keepalive timer that fires, or a failure (a stream that
  ends or breaks, a write timeout, a receiver that has gone). In every state that smooth steps and timers lead to, a smooth
  step is possible unless every batch has been delivered and confirmed; and the number of smooth steps is bounded by the
  size of the work and the number of keepalives. No fairness between the parts is assumed.
\<close>

section \<open>Smooth steps\<close>

fun smooth :: "session_event \<Rightarrow> bool" where
  "smooth (Link SendNext) = True"
| "smooth (Link (Await (Fed r))) = (r = Inr ())"
| "smooth (Link (Await (Flushed r))) = (r = Inr ())"
| "smooth (Link (Await (Arrived r))) = False"
| "smooth (Link (Await Elapsed)) = False"
| "smooth (Link ReadReply) = True"
| "smooth (Link (ToServer k)) = (0 < k)"
| "smooth (Link (ToClient k)) = (0 < k)"
| "smooth PeerReads = True"
| "smooth (PeerFails r) = False"
| "smooth (PeerHands ok) = ok"
| "smooth PeerAcked = True"
| "smooth PeerTimer = False"
| "smooth (PeerWrites r got_out) = (r = Inr ())"

text \<open>A client that is still feeding or flushing its batch, one that goes on at all, and a task that has not returned.\<close>

fun writing_out :: "send_state \<Rightarrow> bool" where
  "writing_out (FeedingWindow n payload) = True"
| "writing_out (FeedingCompressed n payload) = True"
| "writing_out (FeedingJson n f buf) = True"
| "writing_out (Flushing n) = True"
| "writing_out _ = False"

fun going :: "send_state \<Rightarrow> bool" where
  "going (SendReturned (Inl e)) = False"
| "going SendPanicked = False"
| "going _ = True"

definition untroubled :: "'ev session \<Rightarrow> bool" where
  "untroubled s \<longleftrightarrow> going (sending s) \<and> (\<forall>r. peer s \<noteq> Returned r) \<and> \<not> resumed s"

text \<open>A step of such a session is not a send after an error.\<close>

lemma untroubled_first:
  assumes "session_step zl to_vec self cfg e s = Some s'" and "untroubled s"
  shows "\<not> resumed s'"
  using assms(2) by (auto simp: untroubled_def resumed_iff [OF assms(1)])

lemma going_cases:
  assumes "going st"
  obtains (feeding) "\<forall>out ev. \<exists>f k. send_step zl self (st, out) ev = feed_then zl self f k out ev" "writing_out st"
  | (flushing) n where "st = Flushing n" | (awaiting) n where "st = AwaitingAck n" | (idle) m where "st = SendReturned (Inr m)"
  using assms by (cases st rule: going.cases) auto

section \<open>The client writes its batch\<close>

lemma json_loop_going:
  assumes "events_fit DEFAULT_MAX_FRAME_SIZE js"
  shows "writing_out (json_loop zl n (json_wire js))"
proof -
  from assms have "events_short js" by (auto simp: events_fit_def)
  then show ?thesis
    by (cases rule: json_loop_cases [of js zl n]) (use assms in \<open>auto simp: events_fit_def\<close>)
qed

lemma fed_step:
  assumes send: "sendable zl self js" and inv: "send_inv zl self out0 n js (st, out)"
    and step: "send_step zl self (st, out) (Fed (Inr ())) = Some (st', out')"
  shows "writing_out st \<and> writing_out st' \<and> length out < length out'"
proof (cases st)
  case (FeedingWindow m payload)
  with send inv have "writing_out (if cl_compression_level self > 0 then FeedingCompressed m payload else json_loop zl m payload)"
    by (auto simp: sendable_def word_gt_0 intro: json_loop_going)
  with FeedingWindow step show ?thesis by (auto split del: if_split)
next
  case (FeedingCompressed m payload)
  with send inv have "encodable zl (Compressed payload)" by (auto simp: sendable_def)
  with FeedingCompressed step wire_nonempty [of zl "Compressed payload"] show ?thesis by auto
next
  case (FeedingJson m f buf)
  with inv obtain js1 seq data js2 where js: "js = js1 @ (seq, data) # js2" "f = Json seq data" "buf = json_wire js2"
      "cl_compression_level self = 0" by auto
  with send have "writing_out (json_loop zl m buf)"
    by (auto simp: sendable_def events_fit_def intro!: json_loop_going)
  with FeedingJson step js(2) show ?thesis by auto
qed (use step in auto)

section \<open>What remains to be done\<close>

definition total_bytes :: "'d flate2 option \<Rightarrow> 's client \<Rightarrow> bytes list list \<Rightarrow> nat" where
  "total_bytes zl self dss = length (concat (map (\<lambda>ds. stream zl (frames_of self ds)) dss))"

text \<open>
  In turn: batches to start, batches to flush, bytes to write, to bring to the server and to read there, batches to hand to the
  application, acknowledgements to get from it and to write, a keepalive to write, bytes to bring to the client and to read
  there. An acknowledgement or keepalive still to be written counts for its own step and for its six bytes twice.
\<close>

definition to_reply :: "nat \<Rightarrow> 'ev session \<Rightarrow> nat" where
  "to_reply n s = (n + of_bool (\<exists>a. peer s = SendingAck a) - acked s) + of_bool (\<exists>rx seq. peer s = SendingKeepalive rx seq)"

definition remaining :: "nat \<Rightarrow> nat \<Rightarrow> 'ev session \<Rightarrow> nat" where
  "remaining b n s =
     length (todo s) + (length (todo s) + of_bool (writing_out (sending s))) +
     (b - length (fed s)) + (b - taken s) + (b + length (inbox s) - taken s) +
     (n - length (delivered s)) + (n - acked s) + 13 * to_reply n s +
     (length (replies s) - returned s) + (length (replies s) + length (client_inbox s) - returned s)"

lemma sent_frames_all:
  assumes "c \<le> length dss"
  shows "length (stream zl (sent_frames self dss c)) \<le> total_bytes zl self dss"
proof -
  have "stream zl (sent_frames self dss c) = concat (map (\<lambda>ds. stream zl (frames_of self ds)) (take c dss))" for c
    by (induction dss arbitrary: c) (auto simp: sent_frames_def stream_def take_Cons split: nat.split)
  moreover have "concat (map h dss) = concat (map h (take c dss)) @ concat (map h (drop c dss))" for h :: "bytes list \<Rightarrow> bytes"
    by (metis append_take_drop_id concat_append map_append)
  ultimately show ?thesis by (simp add: total_bytes_def)
qed

lemma session_inv_bounds:
  assumes "session_inv zl self cfg work dss s"
  shows "length (fed s) \<le> total_bytes zl self dss" "taken s \<le> length (fed s)" "returned s \<le> length (replies s)"
proof -
  from assms obtain fs where c: "client_side zl self work dss fs s" and le: "taken s \<le> length (fed s)"
      "returned s \<le> length (replies s)"
    by (auto elim: session_invE)
  show "taken s \<le> length (fed s)" "returned s \<le> length (replies s)" using le .
  show "length (fed s) \<le> total_bytes zl self dss"
  proof (cases "\<exists>m. sending s = SendReturned (Inr m)")
    case True
    with c have "fed s = stream zl (sent_frames self dss (confirmed s))" "confirmed s \<le> length dss"
      by (auto simp: client_side_def Let_def)
    with sent_frames_all show ?thesis by metis
  next
    case False
    with c obtain fs' where "confirmed s < length dss" "frames_of self (dss ! confirmed s) = fs @ fs'"
        "fed s = stream zl (sent_frames self dss (confirmed s)) @ stream zl fs"
      by (auto simp: client_side_def Let_def)
    with sent_frames_all [of "Suc (confirmed s)" dss zl self] show ?thesis by (simp add: sent_frames_Suc)
  qed
qed

lemma length_ack [simp]: "length (wire zl (Ack seq)) = 6"
  by simp

section \<open>Smooth steps make progress\<close>

lemmas progress_defs = untroubled_def remaining_def to_reply_def

text \<open>The steps of the client.\<close>

lemma fed_progress:
  assumes send: "\<forall>ds \<in> set dss. sendable zl self (numbered 0 ds)"
    and inv: "session_inv zl self cfg work dss s" and inv': "session_inv zl self cfg work dss s'" and ok: "untroubled s"
    and step: "client_moves zl self (Fed (Inr ())) s = Some s'"
  shows "untroubled s' \<and> remaining (total_bytes zl self dss) n s' < remaining (total_bytes zl self dss) n s"
proof -
  from step obtain st out where st: "send_step zl self (sending s, fed s) (Fed (Inr ())) = Some (st, out)"
      "s' = s\<lparr>sending := st, fed := out, confirmed := confirmed s + counts st\<rparr>"
    by (auto simp: client_moves_def split: option.splits)
  have busy: "\<not> (\<exists>m. sending s = SendReturned (Inr m))" using st(1) by auto
  from inv obtain fs where "client_side zl self work dss fs s" by (rule session_invE)
  with busy obtain out0 n' where c: "confirmed s < length dss"
      "send_inv zl self out0 n' (numbered 0 (dss ! confirmed s)) (sending s, fed s)"
    unfolding client_side_def Let_def by auto
  from send c(1) have "sendable zl self (numbered 0 (dss ! confirmed s))" by simp
  from fed_step [OF this c(2) st(1)] have w: "writing_out (sending s)" "writing_out st" "length (fed s) < length out" by auto
  from w(2) have "going st" by (cases st) auto
  moreover from st(2) session_inv_bounds(1) [OF inv'] w(3) obtain i j where "length out = Suc (length (fed s)) + i"
      "total_bytes zl self dss = Suc (length (fed s)) + i + j"
    by (auto simp: le_iff_add less_iff_Suc_add)
  ultimately show ?thesis using st(2) ok w by (auto simp: progress_defs)
qed

lemma flushed_progress:
  assumes ok: "untroubled s" and step: "client_moves zl self (Flushed (Inr ())) s = Some s'"
  shows "untroubled s' \<and> remaining b n s' < remaining b n s"
proof -
  from step obtain m where "sending s = Flushing m" "s' = s\<lparr>sending := AwaitingAck m\<rparr>"
    by (cases "sending s") (auto simp: client_moves_def feed_then_def split: option.splits)
  with ok show ?thesis by (auto simp: progress_defs)
qed

lemma link_progress:
  assumes build: "crate_build zl" and good: "good_work zl to_vec self cfg work dss"
    and send: "\<forall>ds \<in> set dss. sendable zl self (numbered 0 ds)"
    and inv: "session_inv zl self cfg work dss s" and ok: "untroubled s"
    and step: "session_step zl to_vec self cfg (Link e) s = Some s'" and sm: "smooth (Link e)"
    and inv': "session_inv zl self cfg work dss s'"
  shows "untroubled s' \<and> remaining (total_bytes zl self dss) n s' < remaining (total_bytes zl self dss) n s"
proof -
  note bounds = session_inv_bounds [OF inv] and bounds' = session_inv_bounds [OF inv']
  show ?thesis
  proof (cases e)
    case SendNext
    with step ok obtain m evs rest where st: "sending s = SendReturned (Inr m)" "todo s = evs # rest"
      by (cases "sending s" rule: going.cases; cases "todo s") (auto simp: untroubled_def)
    from inv have "todo s = drop (confirmed s) work"
      by (rule session_invE) (use st(1) in \<open>auto simp: client_side_def Let_def\<close>)
    with st(2) have "evs \<in> set work" by (metis in_set_dropD list.set_intros(1))
    with good obtain ds where "good_batch zl to_vec self (conn_max_frame_size cfg) evs ds"
      by (auto simp: list_all2_conv_all_nth in_set_conv_nth)
    from good_batchD(9) [OF this] st step SendNext ok show ?thesis
      by (auto simp: progress_defs)
  next
    case (Await ev)
    with sm step consider "client_moves zl self (Fed (Inr ())) s = Some s'" | "client_moves zl self (Flushed (Inr ())) s = Some s'"
      by (cases ev) auto
    then show ?thesis by cases (rule fed_progress [OF send inv inv' ok] flushed_progress [OF ok]; assumption)+
  next
    case ReadReply
    from client_reads_inv [OF build good inv] step ReadReply obtain buf where
      s': "s' = s\<lparr>client_inbox := buf, sending := sending s', confirmed := confirmed s'\<rparr>" "length buf < length (client_inbox s)" and
      st: "\<exists>m. sending s' = AwaitingAck m \<or> sending s' = SendReturned (Inr m)" by blast
    obtain st k where "s' = s\<lparr>client_inbox := buf, sending := st, confirmed := k\<rparr>" "going st" "\<not> writing_out st"
      using s'(1) st by (cases "sending s'") auto
    moreover from bounds(3) obtain r where "length (replies s) = returned s + r" by (auto simp: le_iff_add)
    ultimately show ?thesis using s'(2) ok by (auto simp: progress_defs)
  next
    case (ToServer k)
    with step have s': "s' = s\<lparr>inbox := inbox s @ take k (drop (taken s) (fed s)), taken := taken s + k\<rparr>"
        "taken s + k \<le> length (fed s)" by (auto split: if_splits)
    from s'(2) bounds(1) obtain j where "total_bytes zl self dss = taken s + k + j"
      using le_trans [of "taken s + k" "length (fed s)" "total_bytes zl self dss"] by (auto simp: le_iff_add)
    with s' ok sm ToServer show ?thesis by (simp add: progress_defs)
  next
    case (ToClient k)
    with step have s': "s' = s\<lparr>client_inbox := client_inbox s @ take k (drop (returned s) (replies s)), returned := returned s + k\<rparr>"
        "returned s + k \<le> length (replies s)" by (auto split: if_splits)
    from s'(2) obtain j where "length (replies s) = returned s + k + j" by (auto simp: le_iff_add)
    with s' ok sm ToClient show ?thesis by (simp add: progress_defs)
  qed
qed

text \<open>The steps of the task and the application.\<close>

lemma peer_progress:
  assumes build: "crate_build zl" and good: "good_work zl to_vec self cfg work dss"
    and inv: "session_inv zl self cfg work dss s" and ok: "untroubled s"
    and step: "session_step zl to_vec self cfg e s = Some s'" and sm: "smooth e" and e: "\<forall>l. e \<noteq> Link l"
    and inv': "session_inv zl self cfg work dss s'"
  shows "untroubled s' \<and> remaining (total_bytes zl self dss) (length dss) s' < remaining (total_bytes zl self dss) (length dss) s"
proof -
  note bounds = session_inv_bounds [OF inv] and counts = session_inv_counts [OF inv] and counts' = session_inv_counts [OF inv']
  show ?thesis
  proof (cases e)
    case PeerReads
    with peer_reads_inv [OF build good inv] step obtain buf p where
      "s' = s\<lparr>inbox := buf, peer := p\<rparr>" "length buf < length (inbox s)" "(\<exists>st. p = Collecting st) \<or> (\<exists>b rx. p = Dispatching b rx)"
      by blast
    moreover from bounds(1,2) obtain j where "total_bytes zl self dss = taken s + j"
      using le_trans [of "taken s" "length (fed s)" "total_bytes zl self dss"] by (auto simp: le_iff_add)
    ultimately show ?thesis using ok by (auto simp: progress_defs)
  next
    case (PeerHands h)
    with step sm obtain b rx where "peer s = Dispatching b rx"
      "s' = s\<lparr>delivered := delivered s @ [events b], peer := AwaitAck rx (last_seq b)\<rparr>"
      by (auto simp: peer_moves_def split: conn_state.splits)
    moreover from this(2) counts'(2) obtain j where "length dss = Suc (length (delivered s)) + j" by (auto simp: le_iff_add)
    ultimately show ?thesis using ok by (auto simp: progress_defs)
  next
    case PeerAcked
    with step obtain rx seq where "peer s = AwaitAck rx seq" "s' = s\<lparr>acked := Suc (acked s), peer := SendingAck seq\<rparr>"
      by (auto simp: peer_moves_def split: conn_state.splits)
    moreover from this(2) counts'(2,4) obtain j where "length dss = Suc (acked s) + j"
      using le_trans [of "Suc (acked s)" "length (delivered s)" "length dss"] by (auto simp: le_iff_add)
    ultimately show ?thesis using ok by (auto simp: progress_defs)
  next
    case (PeerWrites r g)
    from sm PeerWrites have r: "r = Inr ()" by simp
    from step [unfolded PeerWrites] obtain x p where
      x: "writing (peer s) = Some (Ack x)" "conn_step zl cfg 0 (peer s) (FrameSent r) = Some p"
        "s' = s\<lparr>replies := (if r = Inr () \<or> g then replies s @ wire zl (Ack x) else replies s), peer := p\<rparr>"
      by (rule peer_writes_cases)
    then consider rx seq where "peer s = SendingKeepalive rx seq" "p = AwaitAck rx seq" | "peer s = SendingAck x" "p = AwaitWindow"
      using r by (cases "peer s") auto
    moreover from bounds(3) obtain t where "length (replies s) = returned s + t" by (auto simp: le_iff_add)
    moreover from counts(2,4) obtain j where "length dss = acked s + j"
      using le_trans [of "acked s" "length (delivered s)" "length dss"] by (auto simp: le_iff_add)
    ultimately show ?thesis
      using x(3) ok r by cases (simp_all add: progress_defs del: wire.simps)
  qed (use sm e in auto)
qed

lemma smooth_progress:
  assumes "crate_build zl" and "good_work zl to_vec self cfg work dss" and "\<forall>ds \<in> set dss. sendable zl self (numbered 0 ds)"
    and "session_inv zl self cfg work dss s" and "untroubled s"
    and "session_step zl to_vec self cfg e s = Some s'" and "smooth e"
  shows "session_inv zl self cfg work dss s'" and "untroubled s'"
    and "remaining (total_bytes zl self dss) (length dss) s' < remaining (total_bytes zl self dss) (length dss) s"
proof -
  show inv': "session_inv zl self cfg work dss s'" by (rule session_step_inv [OF assms(1,2,4,6) untroubled_first [OF assms(6,5)]])
  have "untroubled s' \<and> remaining (total_bytes zl self dss) (length dss) s' < remaining (total_bytes zl self dss) (length dss) s"
  proof (cases "\<exists>l. e = Link l")
    case True
    with link_progress [OF assms(1-5) _ _ inv'] assms(6,7) show ?thesis by blast
  next
    case False
    with peer_progress [OF assms(1,2,4-7) _ inv'] show ?thesis by blast
  qed
  then show "untroubled s'"
    and "remaining (total_bytes zl self dss) (length dss) s' < remaining (total_bytes zl self dss) (length dss) s" by blast+
qed

text \<open>A timer only adds the keepalive to what is to be written.\<close>

lemma timer_progress:
  assumes "crate_build zl" and "good_work zl to_vec self cfg work dss" and "session_inv zl self cfg work dss s" and "untroubled s"
    and "session_step zl to_vec self cfg PeerTimer s = Some s'"
  shows "session_inv zl self cfg work dss s'" and "untroubled s'" and "remaining b n s' \<le> remaining b n s + 13"
proof -
  show "session_inv zl self cfg work dss s'" by (rule session_step_inv [OF assms(1-3,5) untroubled_first [OF assms(5,4)]])
  from assms(5) obtain rx seq where "peer s = AwaitAck rx seq" "s' = s\<lparr>peer := SendingKeepalive rx seq\<rparr>"
    by (cases "peer s") (auto simp: peer_moves_def split: if_splits)
  with assms(4) show "untroubled s'" and "remaining b n s' \<le> remaining b n s + 13"
    by (auto simp: progress_defs)
qed

lemma smooth_run:
  assumes "crate_build zl" and "good_work zl to_vec self cfg work dss" and "\<forall>ds \<in> set dss. sendable zl self (numbered 0 ds)"
  shows "session_run zl to_vec self cfg es s = Some s' \<Longrightarrow> \<forall>e \<in> set es. smooth e \<or> e = PeerTimer \<Longrightarrow>
    session_inv zl self cfg work dss s \<Longrightarrow> untroubled s \<Longrightarrow>
    session_inv zl self cfg work dss s' \<and> untroubled s' \<and>
    length es + remaining (total_bytes zl self dss) (length dss) s' \<le>
      remaining (total_bytes zl self dss) (length dss) s + 14 * length (filter (\<lambda>e. e = PeerTimer) es)"
proof (induction es arbitrary: s)
  case (Cons e es)
  let ?m = "remaining (total_bytes zl self dss) (length dss)"
  from Cons.prems(1) obtain s1 where s1: "session_step zl to_vec self cfg e s = Some s1" "session_run zl to_vec self cfg es s1 = Some s'"
    by (auto simp: bind_eq_Some_conv)
  have step: "session_inv zl self cfg work dss s1 \<and> untroubled s1 \<and> Suc (?m s1) \<le> ?m s + (if e = PeerTimer then 14 else 0)"
  proof (cases "e = PeerTimer")
    case True
    with s1(1) have "session_step zl to_vec self cfg PeerTimer s = Some s1" by simp
    note timer_progress [OF assms(1,2) Cons.prems(3,4) this]
    from this(1,2) this(3) [of "total_bytes zl self dss" "length dss"] True show ?thesis by simp
  next
    case False
    with Cons.prems(2) have "smooth e" by simp
    from smooth_progress [OF assms Cons.prems(3,4) s1(1) this] show ?thesis by simp
  qed
  with Cons.IH [OF s1(2)] Cons.prems(2) show ?case by (auto split: if_splits)
qed simp

section \<open>No state is stuck\<close>

text \<open>A read half that holds whole frames yields one.\<close>

lemma reads_enabled:
  assumes "crate_build zl" and "fits zl (conn_max_frame_size cfg) g" and "inbox s = wire zl g @ w"
    and "peer s = AwaitWindow \<or> (\<exists>st. peer s = Collecting st)"
  shows "session_step zl to_vec self cfg PeerReads s \<noteq> None"
  using assms(4) crate_build.parse_frame_wire [OF assms(1,2), of w] assms(3)
  by (auto simp: peer_item_def codec_decode_parse with_max_frame_size_def peer_moves_def)

lemma reply_enabled:
  assumes "crate_build zl" and "client_inbox s = wire zl (Ack x) @ w" and "sending s = AwaitingAck m"
  shows "session_step zl to_vec self cfg (Link ReadReply) s \<noteq> None"
  using crate_build.parse_frame_wire [OF assms(1), of "max_frame_size (cl_codec self)" "Ack x" w] assms(2,3)
  by (simp add: codec_decode_parse client_moves_def del: wire.simps)

text \<open>A task that reads nothing can always go on.\<close>

lemma task_enabled:
  assumes "\<forall>r. peer s \<noteq> Returned r" and "peer s \<noteq> Panicked" and "peer s \<noteq> AwaitWindow" and "\<forall>st. peer s \<noteq> Collecting st"
  shows "\<exists>e. smooth e \<and> session_step zl to_vec self cfg e s \<noteq> None"
proof (cases "peer s")
  case (Dispatching b rx)
  then show ?thesis by (intro exI [of _ "PeerHands True"]) (simp add: peer_moves_def)
next
  case (AwaitAck rx seq)
  then show ?thesis by (intro exI [of _ PeerAcked]) (simp add: peer_moves_def)
next
  case (SendingKeepalive rx seq)
  then show ?thesis
    by (intro exI [of _ "PeerWrites (Inr ()) True"]) (simp add: peer_output_def peer_moves_def encode_wire del: wire.simps)
next
  case (SendingAck x)
  then show ?thesis
    by (intro exI [of _ "PeerWrites (Inr ()) True"]) (simp add: peer_output_def peer_moves_def encode_wire del: wire.simps)
qed (use assms in auto)

text \<open>A task that collects while the whole batch is under way has frames left to read.\<close>

lemma frames_to_read:
  assumes gb: "good_batch zl to_vec self (conn_max_frame_size cfg) evs (dss ! c)" and full: "fs = frames_of self (dss ! c)"
    and side: "server_side zl self cfg dss c fs qs [] d del p" and p: "p = AwaitWindow \<or> (\<exists>st. p = Collecting st)"
  shows "\<exists>g gs. qs = g # gs \<and> fits zl (conn_max_frame_size cfg) g"
proof -
  have "qs \<noteq> [] \<and> set qs \<subseteq> set fs"
    using p
  proof
    assume "\<exists>st. p = Collecting st"
    with side obtain st hs where hs: "hs \<noteq> []" "fs = hs @ qs" "conn_run zl cfg AwaitWindow (arriving 0 hs) = Some (Collecting st)"
      by auto
    with batch_prefix_run [OF gb, of hs qs 0] full have "qs \<noteq> []" by (auto split: if_splits)
    with hs(2) show ?thesis by simp
  qed (use side full good_batchD(8) [OF gb] in auto)
  with good_batchD(6) [OF gb] full show ?thesis by (cases qs) auto
qed

text \<open>While the client waits and everything sent has arrived on both sides, some part has something to do.\<close>

lemma waiting_not_stuck:
  assumes build: "crate_build zl" and good: "good_work zl to_vec self cfg work dss"
    and inv: "session_inv zl self cfg work dss s" and ok: "untroubled s" and m: "sending s = AwaitingAck m"
    and arrived: "taken s = length (fed s)" "returned s = length (replies s)"
  shows "\<exists>e. smooth e \<and> session_step zl to_vec self cfg e s \<noteq> None"
  using inv
proof (rule session_invE)
  fix fs qs k a
  assume *: "client_side zl self work dss fs s"
    "server_side zl self cfg dss (confirmed s) fs qs a (acked s) (delivered s) (peer s)"
    "inbox s @ drop (taken s) (fed s) = stream zl qs"
    "client_inbox s @ drop (returned s) (replies s) = stream zl (map Ack (replicate k 0 @ a))"
  note batch = awaiting_batch [OF good *(1) m]
  consider (reply) x xs where "replicate k 0 @ a = x # xs" | (read) "a = []" "peer s = AwaitWindow \<or> (\<exists>st. peer s = Collecting st)"
    | (task) "peer s \<noteq> AwaitWindow" "\<forall>st. peer s \<noteq> Collecting st"
    by (cases "replicate k 0 @ a") auto
  then show ?thesis
  proof cases
    case reply
    with *(4) arrived(2) have "client_inbox s = wire zl (Ack x) @ stream zl (map Ack xs)"
      by (simp del: wire.simps map_append)
    from reply_enabled [OF build this m] show ?thesis by (intro exI [of _ "Link ReadReply"]) (simp del: session_step.simps)
  next
    case read
    with frames_to_read [OF batch(4,5)] *(2) obtain g gs where "qs = g # gs" "fits zl (conn_max_frame_size cfg) g" by blast
    moreover from this *(3) arrived(1) have "inbox s = wire zl g @ stream zl gs" by simp
    ultimately show ?thesis using reads_enabled [OF build _ _ read(2)] by (intro exI [of _ PeerReads]) auto
  next
    case task
    with *(2) ok show ?thesis by (intro task_enabled) (auto simp: untroubled_def)
  qed
qed

lemma smooth_not_stuck:
  assumes build: "crate_build zl" and good: "good_work zl to_vec self cfg work dss"
    and inv: "session_inv zl self cfg work dss s" and ok: "untroubled s"
  shows "confirmed s = length work \<and> delivered s = dss \<or> (\<exists>e. smooth e \<and> session_step zl to_vec self cfg e s \<noteq> None)"
proof -
  from ok have "going (sending s)" by (simp add: untroubled_def)
  then show ?thesis
  proof (cases rule: going_cases [where zl = zl and self = self])
    case feeding
    then obtain f k where "send_step zl self (sending s, fed s) (Fed (Inr ())) = feed_then zl self f k (fed s) (Fed (Inr ()))"
      by blast
    then have "session_step zl to_vec self cfg (Link (Await (Fed (Inr ())))) s \<noteq> None"
      by (auto simp: client_moves_def feed_then_def split: option.split sum.split prod.split)
    then show ?thesis by (intro disjI2 exI [of _ "Link (Await (Fed (Inr ())))"]) simp
  next
    case (flushing n)
    then show ?thesis
      by (intro disjI2 exI [of _ "Link (Await (Flushed (Inr ())))"]) (simp add: client_moves_def)
  next
    case (awaiting m)
    consider "taken s < length (fed s)" | "returned s < length (replies s)" |
      "taken s = length (fed s)" "returned s = length (replies s)"
      using session_inv_bounds(2,3) [OF inv] by linarith
    then show ?thesis
    proof cases
      case 1
      then show ?thesis by (intro disjI2 exI [of _ "Link (ToServer 1)"]) simp
    next
      case 2
      then show ?thesis by (intro disjI2 exI [of _ "Link (ToClient 1)"]) simp
    next
      case 3
      then show ?thesis using waiting_not_stuck [OF build good inv ok awaiting] by blast
    qed
  next
    case (idle m)
    from inv obtain fs where "client_side zl self work dss fs s" by (rule session_invE)
    with idle have todo: "todo s = drop (confirmed s) work" "confirmed s \<le> length dss" by (auto simp: client_side_def Let_def)
    show ?thesis
    proof (cases "todo s")
      case Nil
      with todo list_all2_lengthD [OF good] have "confirmed s = length work" by simp
      moreover from this session_inv_counts [OF inv] list_all2_lengthD [OF good] have "delivered s = dss" by auto
      ultimately show ?thesis by blast
    next
      case (Cons evs rest)
      with idle show ?thesis by (intro disjI2 exI [of _ "Link SendNext"]) simp
    qed
  qed
qed

section \<open>Properties\<close>

text \<open>C5. A session without failures finishes under every schedule. However the client, the network, the server and the
  application take turns, and however often keepalives interrupt: as long as nothing fails, some part can go on until every
  send has returned \<open>Ok\<close> and the application has been handed every batch; and it comes to that within a number of steps given
  by the number of batches, their bytes on the wire and the number of keepalives.\<close>

theorem session_always_completes:
  assumes "crate_build zl" and "list_all2 (good_batch zl to_vec self (conn_max_frame_size cfg)) work dss"
    and "\<forall>ds \<in> set dss. sendable zl self (numbered 0 ds)"
    and "session_run zl to_vec self cfg es (session_start work) = Some s" and "\<forall>e \<in> set es. smooth e \<or> e = PeerTimer"
  shows "(confirmed s = length work \<and> delivered s = dss \<or> (\<exists>e. smooth e \<and> session_step zl to_vec self cfg e s \<noteq> None)) \<and>
    length es \<le> 17 * length work + 3 * total_bytes zl self dss + 14 * length (filter (\<lambda>e. e = PeerTimer) es)"
proof -
  have start: "session_inv zl self cfg work dss (session_start work)" by (rule session_start_inv)
  have "untroubled (session_start work)"
    by (simp add: untroubled_def session_start_def link_start_def link.defs)
  from smooth_run [OF assms(1-3) assms(4,5) start this] have s: "session_inv zl self cfg work dss s" "untroubled s"
    and len: "length es + remaining (total_bytes zl self dss) (length dss) s \<le>
      remaining (total_bytes zl self dss) (length dss) (session_start work) + 14 * length (filter (\<lambda>e. e = PeerTimer) es)"
    by blast+
  have "remaining (total_bytes zl self dss) (length dss) (session_start work) = 17 * length work + 3 * total_bytes zl self dss"
    using list_all2_lengthD [OF assms(2)] by (simp add: remaining_def to_reply_def session_start_def link_start_def link.defs)
  with len have "length es \<le> 17 * length work + 3 * total_bytes zl self dss + 14 * length (filter (\<lambda>e. e = PeerTimer) es)"
    by linarith
  with smooth_not_stuck [OF assms(1,2) s] show ?thesis by blast
qed

theorem session_always_completes_witness:
  "\<exists>s. session_run (Some stored_flate2) Inr (example_client 3) example_cfg [Link SendNext]
      (session_start [example_batch, example_batch]) = Some s \<and>
    (\<exists>e. smooth e \<and> session_step (Some stored_flate2) Inr (example_client 3) example_cfg e s \<noteq> None)"
proof -
  obtain s where s: "session_run (Some stored_flate2) Inr (example_client 3) example_cfg [Link SendNext]
      (session_start [example_batch, example_batch]) = Some s" "confirmed s = 0"
    using good_batchD(9) [of "Some stored_flate2" Inr "example_client 3" "conn_max_frame_size example_cfg" example_batch example_batch]
      example_work_good
    by (auto simp: session_start_def link_start_def link.defs)
  from session_always_completes [OF stored_build.crate_build_axioms example_work_good _ s(1)] s show ?thesis by auto
qed

end
