(* ===== verification/Keepalive_Timing.thy ===== *)
theory Keepalive_Timing
  imports Conversation
begin

text \<open>
  Keepalives and timeouts against the clock. While the application works on a batch, the connection task of the server
  (\<^verbatim>\<open>src/server.rs\<close>, the loop around \<open>select!\<close>) sends \<open>Ack(0)\<close> every keepalive interval, and the client (\<^verbatim>\<open>src/client.rs\<close>, the
  loop around \<open>timeout\<close>) starts its acknowledgement timeout anew with each frame it reads. The timed system runs the steps of
  \<open>Connection\<close> and \<open>Client\<close> with a clock: a timer fires no earlier than its duration after its \<open>await\<close> began, and \<open>D\<close> bounds how late
  anything may be, that is a timer that is due, a write that has begun, a frame that is under way.
\<close>

section \<open>The timed system\<close>

text \<open>\<open>task_since\<close> and \<open>client_since\<close> are the times at which the current \<open>await\<close>s began; a frame carries the time of its write.\<close>

record timed =
  now :: nat
  task :: conn_state
  task_since :: nat
  flight :: "(frame \<times> nat) list"
  client :: "send_state \<times> bytes"
  client_since :: nat

datatype timed_event =
    Passes nat
  | HandsOver
  | Answered
  | TimerFires
  | TaskWrites
  | FrameArrives
  | ClientTimesOut

text \<open>How late the task may be in a state: not at all bound while it waits for the application.\<close>

fun task_deadline :: "connection_config \<Rightarrow> nat \<Rightarrow> conn_state \<Rightarrow> nat \<Rightarrow> nat option" where
  "task_deadline cfg D (AwaitAck rx seq) since = map_option (\<lambda>K. since + K + D) (conn_keepalive cfg)"
| "task_deadline cfg D (SendingKeepalive rx seq) since = Some (since + D)"
| "task_deadline cfg D (SendingAck acked) since = Some (since + D)"
| "task_deadline cfg D _ since = None"

definition punctual :: "connection_config \<Rightarrow> nat \<Rightarrow> timed \<Rightarrow> bool" where
  "punctual cfg D s \<longleftrightarrow>
     (case task_deadline cfg D (task s) (task_since s) of Some t \<Rightarrow> now s \<le> t | None \<Rightarrow> True) \<and>
     list_all (\<lambda>(f, w). now s \<le> w + D) (flight s)"

definition task_acts ::
    "'d flate2 option \<Rightarrow> connection_config \<Rightarrow> conn_event \<Rightarrow> timed \<Rightarrow> timed option" where
  "task_acts zl cfg ev s = do { p \<leftarrow> conn_step zl cfg 0 (task s) ev; Some (s\<lparr>task := p, task_since := now s\<rparr>) }"

fun timed_step ::
    "'d flate2 option \<Rightarrow> connection_config \<Rightarrow> 's client \<Rightarrow> nat \<Rightarrow> timed_event \<Rightarrow> timed \<Rightarrow> timed option" where
  "timed_step zl cfg self D (Passes d) s =
     (if punctual cfg D (s\<lparr>now := now s + d\<rparr>) then Some (s\<lparr>now := now s + d\<rparr>) else None)"
| "timed_step zl cfg self D HandsOver s = task_acts zl cfg (BatchSent True) s"
| "timed_step zl cfg self D Answered s =
     (case task s of AwaitAck rx seq \<Rightarrow> task_acts zl cfg (AckReceived (Some seq)) s | _ \<Rightarrow> None)"
| "timed_step zl cfg self D TimerFires s =
     (case conn_keepalive cfg of
        Some K \<Rightarrow> if task_since s + K \<le> now s then task_acts zl cfg KeepaliveElapsed s else None
      | None \<Rightarrow> None)"
| "timed_step zl cfg self D TaskWrites s =
     do { f \<leftarrow> writing (task s);
          task_acts zl cfg (FrameSent (Inr ())) (s\<lparr>flight := flight s @ [(f, now s)]\<rparr>) }"
| "timed_step zl cfg self D FrameArrives s =
     (case flight s of
        (f, w) # fl \<Rightarrow>
          do { c \<leftarrow> send_step zl self (client s) (Arrived (Some (Inr f)));
               Some (s\<lparr>flight := fl, client := c, client_since := now s\<rparr>) }
      | [] \<Rightarrow> None)"
| "timed_step zl cfg self D ClientTimesOut s =
     (case cl_ack_timeout self of
        Some T \<Rightarrow>
          if client_since s + T \<le> now s
          then do { c \<leftarrow> send_step zl self (client s) Elapsed; Some (s\<lparr>client := c\<rparr>) }
          else None
      | None \<Rightarrow> None)"

fun timed_run ::
    "'d flate2 option \<Rightarrow> connection_config \<Rightarrow> 's client \<Rightarrow> nat \<Rightarrow> timed_event list \<Rightarrow> timed \<Rightarrow> timed option" where
  "timed_run zl cfg self D [] s = Some s"
| "timed_run zl cfg self D (e # es) s = do { s \<leftarrow> timed_step zl cfg self D e s; timed_run zl cfg self D es s }"

text \<open>The client has waited for its acknowledgement since \<open>c\<close>; at \<open>t\<close> the task is in state \<open>p\<close> and nothing is under way.\<close>

definition waiting_since :: "conn_state \<Rightarrow> nat \<Rightarrow> nat \<Rightarrow> u32 \<Rightarrow> bytes \<Rightarrow> timed" where
  "waiting_since p t c n out =
     \<lparr>now = t, task = p, task_since = t, flight = [], client = (AwaitingAck n, out), client_since = c\<rparr>"

section \<open>Every wait of the client is short\<close>

text \<open>The latest time at which the next frame reaches the client, when none is under way.\<close>

fun next_frame :: "nat \<Rightarrow> nat \<Rightarrow> conn_state \<Rightarrow> nat \<Rightarrow> nat" where
  "next_frame K D (AwaitAck rx seq) since = since + K + 3 * D"
| "next_frame K D _ since = since + 2 * D"

fun busy_with :: "u32 \<Rightarrow> conn_state \<Rightarrow> bool" where
  "busy_with n (AwaitAck rx seq) = (seq = n)"
| "busy_with n (SendingKeepalive rx seq) = (seq = n)"
| "busy_with n (SendingAck acked) = (acked = n)"
| "busy_with n _ = False"

definition wait_ok :: "nat \<Rightarrow> nat \<Rightarrow> nat \<Rightarrow> timed \<Rightarrow> bool" where
  "wait_ok K D L s \<longleftrightarrow>
     (case flight s of
        [] \<Rightarrow> next_frame K D (task s) (task_since s) \<le> client_since s + L
      | (f, w) # fl \<Rightarrow> w + D \<le> client_since s + L)"

definition timed_inv :: "connection_config \<Rightarrow> nat \<Rightarrow> nat \<Rightarrow> nat \<Rightarrow> u32 \<Rightarrow> bytes \<Rightarrow> timed \<Rightarrow> bool" where
  "timed_inv cfg K D L n out s \<longleftrightarrow>
     client s = (SendReturned (Inr n), out) \<or>
     client s = (AwaitingAck n, out) \<and> punctual cfg D s \<and> task_since s \<le> now s \<and>
     (\<forall>(f, w) \<in> set (flight s). w \<le> now s \<and> (f = Ack 0 \<or> f = Ack n)) \<and>
     (busy_with n (task s) \<or> task s = AwaitWindow \<and> Ack n \<in> fst ` set (flight s)) \<and> wait_ok K D L s"

lemma timed_invE:
  assumes "timed_inv cfg K D L n out s"
  obtains (finished) "client s = (SendReturned (Inr n), out)"
  | (waiting) "client s = (AwaitingAck n, out)" "punctual cfg D s" "task_since s \<le> now s"
      "\<forall>(f, w) \<in> set (flight s). w \<le> now s \<and> (f = Ack 0 \<or> f = Ack n)"
      "busy_with n (task s) \<or> task s = AwaitWindow \<and> Ack n \<in> fst ` set (flight s)" "wait_ok K D L s"
  using assms unfolding timed_inv_def by blast

lemma punctual_sel:
  assumes "punctual cfg D s"
  shows "task_deadline cfg D (task s) (task_since s) = Some t \<Longrightarrow> now s \<le> t" and "(f, w) \<in> set (flight s) \<Longrightarrow> now s \<le> w + D"
  using assms by (auto simp: punctual_def list_all_iff)

text \<open>A step of the task, with what it writes put under way.\<close>

lemma task_acts_inv:
  assumes inv: "timed_inv cfg K D L n out s" and K: "conn_keepalive cfg = Some K"
    and act: "task_acts zl cfg ev (s\<lparr>flight := flight s @ fl\<rparr>) = Some s'"
    and ev: "ev = KeepaliveElapsed \<and> fl = [] \<or> (\<exists>rx seq. task s = AwaitAck rx seq \<and> ev = AckReceived (Some seq) \<and> fl = []) \<or>
      ev = FrameSent (Inr ()) \<and> (\<exists>f. writing (task s) = Some f \<and> fl = [(f, now s)])"
  shows "timed_inv cfg K D L n out s'"
  using inv
proof (cases rule: timed_invE)
  case finished
  with act show ?thesis by (auto simp: timed_inv_def task_acts_def bind_eq_Some_conv)
next
  case waiting
  from act obtain p where p: "conn_step zl cfg 0 (task s) ev = Some p"
      "s' = s\<lparr>flight := flight s @ fl, task := p, task_since := now s\<rparr>"
    by (auto simp: task_acts_def bind_eq_Some_conv)
  from ev p(1) waiting(5) consider
    (timer) rx where "task s = AwaitAck rx n" "p = SendingKeepalive rx n" "fl = []"
    | (answer) rx where "task s = AwaitAck rx n" "p = SendingAck n" "fl = []"
    | (alive) rx where "task s = SendingKeepalive rx n" "p = AwaitAck rx n" "fl = [(Ack 0, now s)]"
    | (ack) "task s = SendingAck n" "p = AwaitWindow" "fl = [(Ack n, now s)]"
    by (cases "task s") (auto split: if_splits)
  then show ?thesis
    by cases (use waiting K punctual_sel(1) [OF waiting(2)] p(2) in
      \<open>auto simp: timed_inv_def punctual_def wait_ok_def split: list.splits\<close>)
qed

lemma now_in_time:
  assumes "timed_inv cfg K D L n out s" and "client s = (AwaitingAck n, out)" and "conn_keepalive cfg = Some K"
  shows "now s \<le> client_since s + L"
  using assms(1)
proof (cases rule: timed_invE)
  case waiting
  show ?thesis
  proof (cases "flight s")
    case Nil
    with waiting(5) have "busy_with n (task s)" by auto
    with Nil punctual_sel(1) [OF waiting(2)] waiting(6) assms(3) show ?thesis
      by (cases "task s") (auto simp: wait_ok_def)
  next
    case (Cons fw fl)
    with punctual_sel(2) [OF waiting(2), of "fst fw" "snd fw"] waiting(6) show ?thesis
      by (auto simp: wait_ok_def split: prod.splits)
  qed
qed (use assms(2) in simp)

lemma arrives_inv:
  assumes inv: "timed_inv cfg K D L n out s" and K: "K + 3 * D \<le> L" and n: "0 < n"
    and step: "timed_step zl cfg self D FrameArrives s = Some s'"
  shows "timed_inv cfg K D L n out s'"
  using inv
proof (cases rule: timed_invE)
  case finished
  with step show ?thesis by (auto split: list.splits)
next
  case waiting
  with step obtain f w fl where fl: "flight s = (f, w) # fl" "f = Ack 0 \<or> f = Ack n"
    and s': "\<exists>c. send_step zl self (client s) (Arrived (Some (Inr f))) = Some c \<and>
      s' = s\<lparr>flight := fl, client := c, client_since := now s\<rparr>"
    by (auto simp: bind_eq_Some_conv split: list.splits)
  show ?thesis
  proof (cases "f = Ack n")
    case True
    with s' waiting(1) show ?thesis by (auto simp: timed_inv_def)
  next
    case False
    with fl(2) s' waiting(1) n have s': "s' = s\<lparr>flight := fl, client_since := now s\<rparr>" by auto
    have busy: "busy_with n (task s) \<or> task s = AwaitWindow \<and> Ack n \<in> fst ` set fl"
      using waiting(5) fl False by auto
    moreover have "wait_ok K D L s'"
    proof (cases fl)
      case Nil
      with busy have "busy_with n (task s)" by auto
      with Nil s' K waiting(3) show ?thesis by (cases "task s") (auto simp: wait_ok_def)
    next
      case (Cons g gl)
      with waiting(4) fl(1) K s' show ?thesis by (cases g) (auto simp: wait_ok_def)
    qed
    ultimately show ?thesis
      using waiting fl(1) s' by (auto simp: timed_inv_def punctual_def split: option.splits)
  qed
qed

lemma timed_step_inv:
  assumes inv: "timed_inv cfg K D L n out s" and K: "conn_keepalive cfg = Some K" "K + 3 * D \<le> L" and n: "0 < n"
    and T: "cl_ack_timeout self = Some T" "L < T" and step: "timed_step zl cfg self D e s = Some s'"
  shows "timed_inv cfg K D L n out s'"
proof (cases e)
  case (Passes d)
  with step have "s' = s\<lparr>now := now s + d\<rparr>" "punctual cfg D s'" by (auto split: if_splits)
  with inv show ?thesis by (fastforce simp: timed_inv_def wait_ok_def split: list.splits)
next
  case HandsOver
  with inv step show ?thesis
    by (cases rule: timed_invE; cases "task s") (auto simp: task_acts_def timed_inv_def)
next
  case Answered
  with step obtain rx seq where "task s = AwaitAck rx seq" "task_acts zl cfg (AckReceived (Some seq)) s = Some s'"
    by (auto split: conn_state.splits)
  with task_acts_inv [OF inv K(1), of zl "AckReceived (Some seq)" "[]" s'] show ?thesis by simp
next
  case TimerFires
  with step have "task_acts zl cfg KeepaliveElapsed s = Some s'" by (auto split: option.splits if_splits)
  with task_acts_inv [OF inv K(1), of zl KeepaliveElapsed "[]" s'] show ?thesis by simp
next
  case TaskWrites
  with step obtain f where "writing (task s) = Some f"
      "task_acts zl cfg (FrameSent (Inr ())) (s\<lparr>flight := flight s @ [(f, now s)]\<rparr>) = Some s'"
    by (auto simp: bind_eq_Some_conv)
  with task_acts_inv [OF inv K(1), of zl "FrameSent (Inr ())" "[(f, now s)]" s'] show ?thesis by simp
next
  case FrameArrives
  with arrives_inv [OF inv K(2) n] step show ?thesis by blast
next
  case ClientTimesOut
  with step T(1) have late: "client_since s + T \<le> now s" and out: "send_step zl self (client s) Elapsed \<noteq> None"
    by (auto simp: bind_eq_Some_conv split: if_splits)
  from inv out have "client s = (AwaitingAck n, out)" by (auto simp: timed_inv_def)
  from now_in_time [OF inv this K(1)] late T(2) show ?thesis by simp
qed

lemma timed_run_inv:
  assumes "conn_keepalive cfg = Some K" "K + 3 * D \<le> L" "0 < n" "cl_ack_timeout self = Some T" "L < T"
  shows "timed_run zl cfg self D es s = Some s' \<Longrightarrow> timed_inv cfg K D L n out s \<Longrightarrow> timed_inv cfg K D L n out s'"
proof (induction es arbitrary: s)
  case (Cons e es)
  then obtain s1 where "timed_step zl cfg self D e s = Some s1" "timed_run zl cfg self D es s1 = Some s'"
    by (auto simp: bind_eq_Some_conv)
  with Cons.IH [of s1] timed_step_inv [OF Cons.prems(2) assms] show ?case by blast
qed simp

text \<open>The promptness that is assumed leaves time to go on, or something to be done at once.\<close>

lemma timed_not_stuck:
  assumes inv: "timed_inv cfg K D L n out s" and K: "conn_keepalive cfg = Some K"
    and waits: "client s = (AwaitingAck n, out)"
  shows "timed_step zl cfg self D (Passes 1) s \<noteq> None \<or>
    (\<exists>e. e \<in> {TimerFires, TaskWrites, FrameArrives} \<and> timed_step zl cfg self D e s \<noteq> None)"
  using inv
proof (cases rule: timed_invE)
  case waiting
  show ?thesis
  proof (cases "flight s")
    case (Cons fw fl)
    with waiting(1) have "timed_step zl cfg self D FrameArrives s \<noteq> None" by (cases fw) simp
    then show ?thesis by blast
  next
    case Nil
    with waiting(5) have busy: "busy_with n (task s)" by auto
    show ?thesis
    proof (cases "task s")
      case (AwaitAck rx seq)
      show ?thesis
      proof (cases "now s < task_since s + K + D")
        case True
        then show ?thesis using AwaitAck Nil K by (auto simp: punctual_def)
      next
        case False
        then have "timed_step zl cfg self D TimerFires s \<noteq> None" using AwaitAck K by (auto simp: task_acts_def)
        then show ?thesis by blast
      qed
    qed (use busy in \<open>auto simp: task_acts_def\<close>)
  qed
qed (use waits in simp)

lemma waiting_since_inv:
  assumes "conn_keepalive cfg = Some K" and "t \<le> c + G"
  shows "timed_inv cfg K D (G + K + 3 * D) n out (waiting_since (AwaitAck rx n) t c n out)"
  using assms by (simp add: timed_inv_def waiting_since_def punctual_def wait_ok_def)

section \<open>A full channel\<close>

text \<open>A task that waits for room in the channel has no other event.\<close>

lemma dispatching_events:
  "conn_step zl cfg tx (Dispatching b rx) ev \<noteq> None \<longleftrightarrow> (\<exists>ok. ev = BatchSent ok)"
  by (cases ev) simp_all

text \<open>A second connection collects a batch while the first one's fills the channel.\<close>

definition example_full :: sys where
  "example_full = example_delivered
     \<lparr>tasks := [0 \<mapsto> Serving (AwaitAck 0 1), 1 \<mapsto> Serving (Dispatching (batch_new [[123, 125]] 1 1) 1)], next_task := 2,
      active := 2, senders := 3, next_chan := 2\<rparr>"

lemma example_full_reachable: "reachable no_zlib example_cfg False (room_below 1) example_full"
proof (rule reachable_run [OF example_reachable])
  show "server_run no_zlib example_cfg False
      [Accept (Accepted (Inr ())), Task 1 (Conn (NextItem (Some (Inr (Window 1))))),
       Task 1 (Conn (NextItem (Some (Inr (Json 1 [123, 125])))))] example_delivered = Some example_full"
    by (simp add: example_full_def example_delivered_def start_window_def window_loop_def push_json_def guard_new_def
        batch_new_def settle_def fun_eq_iff)
qed

section \<open>Properties\<close>

text \<open>C16. Keepalives do what they are for. From the moment the application's channel has the batch: if the keepalive interval,
  three times the worst delay of a timer, a write or a frame, and the time the client had already waited together stay below
  the client's acknowledgement timeout, then, however long the application takes, the send never times out; it is waiting
  or has returned \<open>Ok\<close>. And the delays that are assumed never bring the clock to a halt.\<close>

theorem keepalive_prevents_timeout:
  assumes "conn_keepalive cfg = Some K" and "cl_ack_timeout self = Some T" and "G + K + 3 * D < T" and "t \<le> c + G" and "0 < n"
    and "timed_run zl cfg self D es (waiting_since (AwaitAck rx n) t c n out) = Some s"
  shows "client s = (SendReturned (Inr n), out) \<or>
    client s = (AwaitingAck n, out) \<and> now s < client_since s + T \<and>
    (timed_step zl cfg self D (Passes 1) s \<noteq> None \<or>
     (\<exists>e. e \<in> {TimerFires, TaskWrites, FrameArrives} \<and> timed_step zl cfg self D e s \<noteq> None))"
proof -
  have "K + 3 * D \<le> G + K + 3 * D" by simp
  from timed_run_inv [OF assms(1) this assms(5,2,3,6) waiting_since_inv [OF assms(1,4)]]
  have inv: "timed_inv cfg K D (G + K + 3 * D) n out s" .
  show ?thesis
  proof (cases "client s = (SendReturned (Inr n), out)")
    case False
    with inv have waits: "client s = (AwaitingAck n, out)" by (simp add: timed_inv_def)
    from now_in_time [OF inv waits assms(1)] assms(3) timed_not_stuck [OF inv assms(1) waits] waits show ?thesis by auto
  qed blast
qed

text \<open>With the default settings, an interval of 15 seconds and a timeout of 30, delays of up to 4 seconds are covered.\<close>

theorem keepalive_prevents_timeout_witness:
  "\<exists>s. timed_run no_zlib \<lparr>conn_max_frame_size = 64, conn_keepalive = Some (from_secs 15)\<rparr> (example_client 0) (from_secs 4)
      [Passes (from_secs 18), TimerFires, TaskWrites, Passes (from_secs 1), FrameArrives, Passes (from_secs 15)]
      (waiting_since (AwaitAck 0 1) 0 0 1 []) = Some s \<and>
    client s = (AwaitingAck 1, []) \<and> now s < client_since s + from_secs 30 \<and> from_secs 30 < now s"
proof -
  let ?cfg = "\<lparr>conn_max_frame_size = 64, conn_keepalive = Some (from_secs 15)\<rparr>"
  obtain s where s: "timed_run no_zlib ?cfg (example_client 0) (from_secs 4)
      [Passes (from_secs 18), TimerFires, TaskWrites, Passes (from_secs 1), FrameArrives, Passes (from_secs 15)]
      (waiting_since (AwaitAck 0 1) 0 0 1 []) = Some s" "client s = (AwaitingAck 1, [])" "from_secs 30 < now s"
    by (simp add: waiting_since_def punctual_def task_acts_def from_secs_def)
  have "from_secs 1 + from_secs 15 + 3 * from_secs 4 < from_secs 30" by (simp add: from_secs_def)
  from keepalive_prevents_timeout [OF _ _ this _ _ s(1)] s show ?thesis by auto
qed

text \<open>C32. But not under backpressure. While the channel to the application is full (it has room, as \<^verbatim>\<open>tokio\<close> documents it,
  while it holds fewer batches than its capacity), a task that has collected a batch waits
  for room and can do nothing else: no keepalive is sent, whatever the interval. A client whose acknowledgement timeout
  passes meanwhile gets an error; when the application makes room the batch is handed to it all the same.\<close>

theorem backpressure_silences_keepalive:
  assumes "reachable zl cfg tls (room_below cap) s" and "0 < cap" and "length (queue s) = cap"
    and "tasks s i = Some (Serving (Dispatching b rx))" and "receiving s" and "cl_ack_timeout self = Some T" and "t \<le> c + T"
  shows "(\<forall>ev. server_step zl cfg tls (Task i ev) s = None) \<and>
    (\<exists>s'. timed_run zl cfg self D [Passes (c + T - t), ClientTimesOut] (waiting_since (Dispatching b rx) t c n out) = Some s' \<and>
       client s' = (SendReturned (Inl AckTimeout), out) \<and> task s' = Dispatching b rx) \<and>
    (\<exists>s'. server_run zl cfg tls [Recv, Task i (Conn (BatchSent True))] s = Some s' \<and> b \<in> set (queue s'))"
proof (intro conjI)
  have adm: "admits s = room_below cap" by (rule reachable_admits [OF assms(1)])
  show "\<forall>ev. server_step zl cfg tls (Task i ev) s = None"
  proof
    fix ev
    show "server_step zl cfg tls (Task i ev) s = None"
    proof (cases ev)
      case (Conn e)
      show ?thesis
      proof (cases "\<exists>ok. e = BatchSent ok")
        case False
        with dispatching_events [of zl cfg "next_chan s" b rx e] Conn assms(4) show ?thesis by auto
      qed (use Conn assms(3-5) adm in \<open>auto simp: room_below_def\<close>)
    qed (use assms(4) in auto)
  qed
  show "\<exists>s'. timed_run zl cfg self D [Passes (c + T - t), ClientTimesOut] (waiting_since (Dispatching b rx) t c n out) = Some s' \<and>
      client s' = (SendReturned (Inl AckTimeout), out) \<and> task s' = Dispatching b rx"
    using assms(6,7) by (simp add: waiting_since_def punctual_def)
  from assms(2,3) obtain b' q where q: "queue s = b' # q" by (cases "queue s") auto
  with assms(3-5) adm show "\<exists>s'. server_run zl cfg tls [Recv, Task i (Conn (BatchSent True))] s = Some s' \<and> b \<in> set (queue s')"
    by (auto simp: server_recv_def settle_def room_below_def)
qed

theorem backpressure_silences_keepalive_witness:
  "(\<forall>ev. server_step no_zlib example_cfg False (Task 1 ev) example_full = None) \<and>
    (\<exists>s'. timed_run no_zlib example_cfg (example_client 0) 0 [Passes (0 + from_secs 30 - 0), ClientTimesOut]
        (waiting_since (Dispatching (batch_new [[123, 125]] 1 1) 1) 0 0 1 []) = Some s' \<and>
       client s' = (SendReturned (Inl AckTimeout), []) \<and> task s' = Dispatching (batch_new [[123, 125]] 1 1) 1) \<and>
    (\<exists>s'. server_run no_zlib example_cfg False [Recv, Task 1 (Conn (BatchSent True))] example_full = Some s' \<and>
       batch_new [[123, 125]] 1 1 \<in> set (queue s'))"
  by (rule backpressure_silences_keepalive [OF example_full_reachable]) (simp_all add: example_full_def example_delivered_def)

end
