(* ===== verification/Tls.thy ===== *)
theory Tls
  imports Lumberjack_Error
begin

text \<open>
  The convenience constructors of \<^verbatim>\<open>src/tls.rs\<close>. The file system, the PEM parser and \<^verbatim>\<open>rustls\<close> are the parameter
  \<open>tls_library\<close>; a PEM parser yields its certificates one by one, each of them possibly an error. What the module itself
  does is the order of the calls, the collection of the certificates and the mapping of the errors.
\<close>

record ('w, 'cert, 'key, 'roots, 'acceptor, 'connector) tls_library =
  fs_read :: "string \<Rightarrow> 'w \<Rightarrow> (io_error + bytes) \<times> 'w"
  pem_certs :: "bytes \<Rightarrow> (io_error + 'cert) list"
  pem_private_key :: "bytes \<Rightarrow> io_error + 'key option"
  with_single_cert :: "'cert list \<Rightarrow> 'key \<Rightarrow> string + 'acceptor"
  load_native_certs :: "'w \<Rightarrow> 'cert list \<times> 'w"
  roots_empty :: 'roots
  roots_add :: "'cert \<Rightarrow> 'roots \<Rightarrow> (string + unit) \<times> 'roots"
  connector_of :: "'roots \<Rightarrow> 'connector"

text \<open>\<open>collect::<io::Result<Vec<_>>>()\<close>: the first error, or all the values.\<close>

fun collect_results :: "(io_error + 'cert) list \<Rightarrow> io_error + 'cert list" where
  "collect_results [] = Inr []"
| "collect_results (Inl e # rs) = Inl e"
| "collect_results (Inr c # rs) = (case collect_results rs of Inl e \<Rightarrow> Inl e | Inr cs \<Rightarrow> Inr (c # cs))"

definition server_acceptor_from_pem ::
    "('w, 'cert, 'key, 'roots, 'acceptor, 'connector) tls_library \<Rightarrow> string \<Rightarrow> string \<Rightarrow> 'w \<Rightarrow> 'acceptor result \<times> 'w" where
  "server_acceptor_from_pem lib cert key w =
     (case fs_read lib cert w of
        (Inl e, w) \<Rightarrow> (Inl (Io e), w)
      | (Inr cert_pem, w) \<Rightarrow>
          (case fs_read lib key w of
             (Inl e, w) \<Rightarrow> (Inl (Io e), w)
           | (Inr key_pem, w) \<Rightarrow>
               (case collect_results (pem_certs lib cert_pem) of
                  Inl e \<Rightarrow> Inl (Io e)
                | Inr certs \<Rightarrow>
                    (case pem_private_key lib key_pem of
                       Inl e \<Rightarrow> Inl (Io e)
                     | Inr None \<Rightarrow> Inl (InvalidConfig ''no private key in PEM file'')
                     | Inr (Some key) \<Rightarrow>
                         (case with_single_cert lib certs key of
                            Inl e \<Rightarrow> Inl (Tls e)
                          | Inr acceptor \<Rightarrow> Inr acceptor)), w)))"

fun add_roots ::
    "('w, 'cert, 'key, 'roots, 'acceptor, 'connector) tls_library \<Rightarrow> 'cert list \<Rightarrow> 'roots \<Rightarrow> 'roots" where
  "add_roots lib [] roots = roots"
| "add_roots lib (cert # certs) roots = add_roots lib certs (snd (roots_add lib cert roots))"

definition client_connector_with_native_roots ::
    "('w, 'cert, 'key, 'roots, 'acceptor, 'connector) tls_library \<Rightarrow> 'w \<Rightarrow> 'connector result \<times> 'w" where
  "client_connector_with_native_roots lib w =
     (let (certs, w) = load_native_certs lib w
      in (Inr (connector_of lib (add_roots lib certs (roots_empty lib))), w))"

lemma collect_results_ok: "collect_results rs = Inr cs \<longleftrightarrow> rs = map Inr cs"
proof
  show "collect_results rs = Inr cs \<Longrightarrow> rs = map Inr cs"
    by (induction rs arbitrary: cs rule: collect_results.induct) (auto split: sum.splits)
  have "collect_results (map Inr cs) = Inr cs" by (induction cs) auto
  then show "rs = map Inr cs \<Longrightarrow> collect_results rs = Inr cs" by simp
qed

section \<open>Properties\<close>

text \<open>An acceptor is built from exactly what the files hold: all the certificates of the one file, none of them
  unreadable, and the private key of the other; every failure is an error of its kind.\<close>

theorem server_acceptor_outcome:
  "case server_acceptor_from_pem lib cert key w of
     (Inr acceptor, w') \<Rightarrow>
       \<exists>cert_pem key_pem w1 certs k.
         fs_read lib cert w = (Inr cert_pem, w1) \<and> fs_read lib key w1 = (Inr key_pem, w') \<and>
         pem_certs lib cert_pem = map Inr certs \<and> pem_private_key lib key_pem = Inr (Some k) \<and>
         with_single_cert lib certs k = Inr acceptor
   | (Inl e, w') \<Rightarrow>
       (\<exists>io. e = Io io) \<or> e = InvalidConfig ''no private key in PEM file'' \<or> (\<exists>t. e = Tls t)"
  by (auto simp: server_acceptor_from_pem_def collect_results_ok
      split: prod.splits sum.splits option.splits)

end
