(* ===== verification/Baseline.thy ===== *)
theory Baseline
  imports Server Client "HOL-Library.Sublist"
begin

text \<open>
  The throughput harness \<^verbatim>\<open>examples/baseline.rs\<close>: its command line (\<open>Args::parse\<close>), its synthetic events (\<open>make_event\<close>),
  its reading of \<^verbatim>\<open>/proc/self/status\<close> (\<open>peak_rss_kib\<close>), the draining server and the sending workers of its \<open>main\<close>,
  and the counters it reports.

  Strings are ASCII here, as the command lines and files in question are. The shared counters and the stop flag are accessed
  with \<open>Ordering::Relaxed\<close>, and that is what is modelled: a counter is its modification order, a \<open>fetch_add\<close> extends it, a
  load may yield any entry that is not before the last one its task has read; accesses of a task to different atomics with no
  \<open>await\<close> between them take effect in any order. Of the clock and of the floating-point rates computed from it nothing is modelled.
\<close>

type_synonym u64 = "64 word"

section \<open>Unsigned integers from strings\<close>

text \<open>\<open>str::parse\<close> for an unsigned type with largest value \<open>mx\<close>: an optional plus sign and digits, no overflow.\<close>

fun parse_digits :: "nat \<Rightarrow> nat \<Rightarrow> string \<Rightarrow> nat option" where
  "parse_digits mx acc [] = Some acc"
| "parse_digits mx acc (c # cs) =
     (if 48 \<le> (of_char c :: nat) \<and> of_char c \<le> (57 :: nat)
      then let v = 10 * acc + (of_char c - 48) in if v > mx then None else parse_digits mx v cs
      else None)"

definition parse_unsigned :: "nat \<Rightarrow> string \<Rightarrow> nat option" where
  "parse_unsigned mx s =
     (if s = [] \<or> s = ''+'' then None
      else if hd s = CHR ''+'' then parse_digits mx 0 (tl s)
      else parse_digits mx 0 s)"

abbreviation u64_max :: nat where
  "u64_max \<equiv> 2 ^ 64 - 1"

lemma parse_digits_append:
  "parse_digits mx acc (s @ s') = (case parse_digits mx acc s of None \<Rightarrow> None | Some v \<Rightarrow> parse_digits mx v s')"
  by (induction s arbitrary: acc) (auto simp: Let_def)

lemma of_char_digit [simp]: "d < 10 \<Longrightarrow> (of_char (char_of (48 + d :: nat) :: char) :: nat) = 48 + d"
  by simp

lemma parse_digits_decimal: "n \<le> mx \<Longrightarrow> parse_digits mx 0 (decimal n) = Some n"
proof (induction n rule: decimal.induct)
  case (1 n)
  show ?case
  proof (cases "n < 10")
    case True
    with 1 show ?thesis by (subst decimal.simps) (simp add: Let_def)
  next
    case False
    with 1 have "parse_digits mx 0 (decimal (n div 10)) = Some (n div 10)" by simp
    with False 1(2) show ?thesis
      by (subst decimal.simps) (simp add: parse_digits_append Let_def)
  qed
qed

lemma decimal_not_sign: "decimal n \<noteq> []" "hd (decimal n) \<noteq> CHR ''+''" "CHR ''+'' \<notin> set (decimal n)"
proof -
  show ne: "decimal n \<noteq> []" by (subst decimal.simps) simp
  show "CHR ''+'' \<notin> set (decimal n)" using decimal_digits [of "CHR ''+''" n] by auto
  then show "hd (decimal n) \<noteq> CHR ''+''" using ne by (metis hd_in_set)
qed

lemma parse_unsigned_decimal: "n \<le> mx \<Longrightarrow> parse_unsigned mx (decimal n) = Some n"
  using decimal_not_sign [of n] by (auto simp: parse_unsigned_def parse_digits_decimal)

section \<open>The command line of the harness\<close>

text \<open>What a program does: it panics, it exits, or it goes on with a value.\<close>

datatype 'a outcome = Panics | Exits int | Yields 'a

record args =
  arg_clients :: usize
  arg_duration :: duration
  arg_event_size :: usize
  arg_batch :: usize

record arg_values =
  v_clients :: usize
  v_duration_s :: nat
  v_event_size :: usize
  v_batch :: usize

definition arg_defaults :: arg_values where
  "arg_defaults = \<lparr>v_clients = 1, v_duration_s = 10, v_event_size = 250, v_batch = 128\<rparr>"

text \<open>\<open>args.next().unwrap().parse().unwrap()\<close> on the remaining arguments.\<close>

definition next_number :: "string list \<Rightarrow> (nat \<times> string list) option" where
  "next_number rest =
     (case rest of [] \<Rightarrow> None | v # rest \<Rightarrow> map_option (\<lambda>n. (n, rest)) (parse_unsigned u64_max v))"

lemma next_number_shorter: "next_number rest = Some (n, rest') \<Longrightarrow> length rest' < length rest"
  by (auto simp: next_number_def split: list.splits)

function args_loop :: "string list \<Rightarrow> arg_values \<Rightarrow> arg_values outcome" where
  "args_loop [] st = Yields st"
| "args_loop (a # rest) st =
     (if a = ''--clients'' then
        (case next_number rest of None \<Rightarrow> Panics | Some (n, rest) \<Rightarrow> args_loop rest (st\<lparr>v_clients := n\<rparr>))
      else if a = ''--duration'' then
        (case next_number rest of None \<Rightarrow> Panics | Some (n, rest) \<Rightarrow> args_loop rest (st\<lparr>v_duration_s := n\<rparr>))
      else if a = ''--event-size'' then
        (case next_number rest of None \<Rightarrow> Panics | Some (n, rest) \<Rightarrow> args_loop rest (st\<lparr>v_event_size := n\<rparr>))
      else if a = ''--batch'' then
        (case next_number rest of None \<Rightarrow> Panics | Some (n, rest) \<Rightarrow> args_loop rest (st\<lparr>v_batch := n\<rparr>))
      else if a = ''--help'' \<or> a = ''-h'' then Exits 0
      else Panics)"
  by pat_completeness auto
termination
  by (relation "measure (\<lambda>(rest, st). length rest)") (auto dest: next_number_shorter)

definition args_parse :: "string list \<Rightarrow> args outcome" where
  "args_parse argv =
     (case args_loop (drop 1 argv) arg_defaults of
        Panics \<Rightarrow> Panics
      | Exits code \<Rightarrow> Exits code
      | Yields st \<Rightarrow>
          Yields \<lparr>arg_clients = v_clients st, arg_duration = from_secs (v_duration_s st),
                  arg_event_size = v_event_size st, arg_batch = v_batch st\<rparr>)"

text \<open>A command line written out from the settings it makes.\<close>

datatype setting = SetClients nat | SetDuration nat | SetEventSize nat | SetBatch nat

fun setting_value :: "setting \<Rightarrow> nat" where
  "setting_value (SetClients n) = n"
| "setting_value (SetDuration n) = n"
| "setting_value (SetEventSize n) = n"
| "setting_value (SetBatch n) = n"

fun setting_args :: "setting \<Rightarrow> string list" where
  "setting_args (SetClients n) = [''--clients'', decimal n]"
| "setting_args (SetDuration n) = [''--duration'', decimal n]"
| "setting_args (SetEventSize n) = [''--event-size'', decimal n]"
| "setting_args (SetBatch n) = [''--batch'', decimal n]"

fun apply_setting :: "setting \<Rightarrow> arg_values \<Rightarrow> arg_values" where
  "apply_setting (SetClients n) st = st\<lparr>v_clients := n\<rparr>"
| "apply_setting (SetDuration n) st = st\<lparr>v_duration_s := n\<rparr>"
| "apply_setting (SetEventSize n) st = st\<lparr>v_event_size := n\<rparr>"
| "apply_setting (SetBatch n) st = st\<lparr>v_batch := n\<rparr>"

lemma args_loop_settings:
  "\<forall>x \<in> set xs. setting_value x \<le> u64_max \<Longrightarrow>
   args_loop (concat (map setting_args xs) @ rest) st = args_loop rest (fold apply_setting xs st)"
proof (induction xs arbitrary: st)
  case (Cons x xs)
  then show ?case by (cases x) (simp_all add: next_number_def parse_unsigned_decimal)
qed simp

section \<open>Synthetic events and the memory gauge\<close>

text \<open>An object of the harness: its fields in the order they are written.\<close>

definition skeleton :: string where
  "skeleton = ''{\"timestamp\":\"2026-04-09T08:30:00Z\",\"level\":\"info\",\"host\":\"server-01\",\"msg\":\"\"}''"

definition make_event :: "usize \<Rightarrow> (string \<times> string) list" where
  "make_event target =
     [(''timestamp'', ''2026-04-09T08:30:00Z''), (''level'', ''info''), (''host'', ''server-01''),
      (''msg'', replicate (target - length skeleton) (CHR ''x''))]"

definition newline :: char where "newline = CHR 0x0A"

text \<open>\<open>str::lines\<close>: lines end at a newline, a carriage return before it goes with it, the last line may lack it.\<close>

definition strip_cr :: "string \<Rightarrow> string" where
  "strip_cr l = (if l \<noteq> [] \<and> last l = CHR 0x0D then butlast l else l)"

fun lines_from :: "string \<Rightarrow> string \<Rightarrow> string list" where
  "lines_from line [] = (if line = [] then [] else [line])"
| "lines_from line (c # cs) = (if c = newline then strip_cr line # lines_from [] cs else lines_from (line @ [c]) cs)"

definition str_lines :: "string \<Rightarrow> string list" where
  "str_lines s = lines_from [] s"

definition is_whitespace :: "char \<Rightarrow> bool" where
  "is_whitespace c \<longleftrightarrow> c \<in> {CHR '' '', CHR 0x09, CHR 0x0A, CHR 0x0B, CHR 0x0C, CHR 0x0D}"

definition trim :: "string \<Rightarrow> string" where
  "trim s = rev (dropWhile is_whitespace (rev (dropWhile is_whitespace s)))"

definition first_word :: "string \<Rightarrow> string option" where
  "first_word s =
     (case dropWhile is_whitespace s of [] \<Rightarrow> None | w \<Rightarrow> Some (takeWhile (\<lambda>c. \<not> is_whitespace c) w))"

definition strip_prefix :: "string \<Rightarrow> string \<Rightarrow> string option" where
  "strip_prefix p s = (if take (length p) s = p then Some (drop (length p) s) else None)"

fun rss_of_lines :: "string list \<Rightarrow> nat" where
  "rss_of_lines [] = 0"
| "rss_of_lines (line # ls) =
     (case strip_prefix ''VmHWM:'' line of
        None \<Rightarrow> rss_of_lines ls
      | Some rest \<Rightarrow>
          (case first_word (trim rest) of
             None \<Rightarrow> 0
           | Some n \<Rightarrow> (case parse_unsigned u64_max n of None \<Rightarrow> 0 | Some n \<Rightarrow> n)))"

text \<open>The argument is what reading \<^verbatim>\<open>/proc/self/status\<close> yields.\<close>

definition peak_rss_kib :: "(io_error + string) \<Rightarrow> nat" where
  "peak_rss_kib status = (let s = (case status of Inl e \<Rightarrow> [] | Inr s \<Rightarrow> s) in rss_of_lines (str_lines s))"


text \<open>
  \<open>cpu_time\<close>, over what \<open>getrusage\<close> has filled in; on a system without it there is nothing to read. A \<open>Duration\<close> is its number of
  nanoseconds; \<open>None\<close> is the panic of \<open>Duration::new\<close> or of the addition.
\<close>

record timeval =
  tv_sec :: int
  tv_usec :: int

record rusage =
  ru_utime :: timeval
  ru_stime :: timeval

definition duration_new :: "u64 \<Rightarrow> u32 \<Rightarrow> nat option" where
  "duration_new secs nanos =
     (if unat secs + unat nanos div 1000000000 < 2 ^ 64 then Some (unat secs * 1000000000 + unat nanos) else None)"

definition duration_add :: "nat \<Rightarrow> nat \<Rightarrow> nat option" where
  "duration_add a b = (if a + b < 2 ^ 64 * 1000000000 then Some (a + b) else None)"

definition timeval_duration :: "timeval \<Rightarrow> nat option" where
  "timeval_duration tv = duration_new (word_of_int (tv_sec tv)) (word_of_int (tv_usec tv) * 1000)"

definition cpu_time :: "rusage option \<Rightarrow> nat option" where
  "cpu_time ru =
     (case ru of
        None \<Rightarrow> Some 0
      | Some ru \<Rightarrow>
          do { user \<leftarrow> timeval_duration (ru_utime ru);
               sys \<leftarrow> timeval_duration (ru_stime ru);
               duration_add user sys })"

section \<open>Setting up\<close>

text \<open>
  The batch of \<open>main\<close> and the size of its first event; \<open>None\<close> is a panic: of \<open>batch[0]\<close>, or of the \<open>unwrap\<close> after it.
\<close>

definition baseline_batch ::
    "((string \<times> string) list \<Rightarrow> string + bytes) \<Rightarrow> args \<Rightarrow> ((string \<times> string) list list \<times> usize) option" where
  "baseline_batch to_vec args =
     (let batch = map (\<lambda>_. make_event (arg_event_size args)) [0..<arg_batch args] in
      case index batch 0 of
        None \<Rightarrow> None
      | Some ev \<Rightarrow> (case to_vec ev of Inl e \<Rightarrow> None | Inr d \<Rightarrow> Some (batch, length d)))"

definition baseline_server :: "'acceptor server_builder" where
  "baseline_server = channel_capacity 2048 (no_keepalive server_builder_new)"

text \<open>Binding it; \<open>None\<close> is a panic, of \<open>bind\<close> or of the \<open>unwrap\<close>.\<close>

definition baseline_bind ::
    "('w, string, 'l) listening \<Rightarrow> 'w \<Rightarrow> ((socket_addr \<times> 'acceptor server \<times> sys) \<times> 'w) option" where
  "baseline_bind net w =
     (case builder_bind net baseline_server ''127.0.0.1:0'' w of
        Some (Inr (server, s), w) \<Rightarrow> Some ((local_addr server, server, s), w)
      | _ \<Rightarrow> None)"

text \<open>The counts of the report.\<close>

definition report_counts :: "args \<Rightarrow> usize \<Rightarrow> u64 \<Rightarrow> u64 \<Rightarrow> string list" where
  "report_counts args serialized_event_bytes evs batches =
     [''event_bytes     : '' @ decimal serialized_event_bytes, ''batch_size      : '' @ decimal (arg_batch args),
      ''total_events    : '' @ decimal (unat evs), ''total_batches   : '' @ decimal (unat batches)]"

definition baseline_client :: "'conn client_builder" where
  "baseline_client = ack_timeout (from_secs 30) (compression_level 0 client_builder_new)"

text \<open>One turn of \<open>while let Some(b) = server.recv().await { b.ack(); }\<close>: \<open>None\<close> while \<open>recv\<close> waits. When the channel has ended the
  task ends, which drops the server.\<close>

definition drain_turn :: "sys \<Rightarrow> sys option" where
  "drain_turn s =
     (case server_recv s of
        None \<Rightarrow> None
      | Some (None, s) \<Rightarrow> Some (server_drop s)
      | Some (Some b, s) \<Rightarrow> Some (s\<lparr>chans := batch_ack b (chans s)\<rparr>))"

fun drain_turns :: "nat \<Rightarrow> sys \<Rightarrow> sys option" where
  "drain_turns 0 s = Some s"
| "drain_turns (Suc k) s = do { s \<leftarrow> drain_turn s; drain_turns k s }"

section \<open>Workers and counters\<close>

text \<open>
  The tasks of \<open>clients_set\<close> and \<open>main\<close> share two counters and the stop flag. A worker is at the head of its loop, in
  \<open>client.send\<close>, or has returned from it with one or both of its \<open>fetch_add\<close>s still to be done (\<open>Counting\<close>). \<open>main\<close> is in
  the loop that connects the clients, asleep, about to load the counter for the first time, in its last accesses
  (\<open>Closing\<close>, with what it has loaded so far and whether it has stored the flag), or waiting for the workers; with the first
  load goes the place of the entry it has read, before which it will not read again.

  An event names the outcome: \<open>ReadsStop i v\<close> is a load of the flag by worker \<open>i\<close> that yields \<open>v\<close> (a stale \<open>False\<close> is
  possible at any time), \<open>LoadEvents j\<close> and \<open>LoadBatches j\<close> are loads by \<open>main\<close> that yield entry \<open>j\<close> of the counter.
\<close>

datatype worker = AtHead | InSend | Counting bool bool | Finished

datatype main_state =
    Spawning nat
  | WarmingUp
  | Warm
  | Measuring nat u64
  | Closing nat u64 "u64 option" "u64 option" bool
  | JoiningAll u64 u64
  | Reporting u64 u64
  | MainPanicked

record harness =
  stop :: bool
  total_events :: "u64 list"
  total_batches :: "u64 list"
  workers :: "worker list"
  main_at :: main_state

datatype harness_event =
    ReadsStop nat bool
  | SendDone nat "u32 result"
  | AddsEvents nat
  | AddsBatch nat
  | ConnectDone "unit result"
  | SleepDone
  | LoadEvents nat
  | LoadBatches nat
  | StoreStop
  | AllJoined

definition spawning :: "nat \<Rightarrow> main_state" where
  "spawning k = (if k = 0 then WarmingUp else Spawning k)"

definition harness_start :: "usize \<Rightarrow> harness" where
  "harness_start clients =
     \<lparr>stop = False, total_events = [0], total_batches = [0], workers = [], main_at = spawning clients\<rparr>"

definition fetch_add :: "u64 \<Rightarrow> u64 list \<Rightarrow> u64 list" where
  "fetch_add v order = order @ [last order + v]"

definition counting :: "bool \<Rightarrow> bool \<Rightarrow> worker" where
  "counting evs batch = (if evs \<or> batch then Counting evs batch else AtHead)"

fun worker_step :: "usize \<Rightarrow> nat \<Rightarrow> harness_event \<Rightarrow> worker \<Rightarrow> harness \<Rightarrow> harness option" where
  "worker_step n i ev AtHead h =
     (case ev of
        ReadsStop _ True \<Rightarrow> if stop h then Some (h\<lparr>workers := (workers h)[i := Finished]\<rparr>) else None
      | ReadsStop _ False \<Rightarrow> Some (h\<lparr>workers := (workers h)[i := InSend]\<rparr>)
      | _ \<Rightarrow> None)"
| "worker_step n i ev InSend h =
     (case ev of
        SendDone _ (Inl e) \<Rightarrow> Some (h\<lparr>workers := (workers h)[i := Finished]\<rparr>)
      | SendDone _ (Inr _) \<Rightarrow> Some (h\<lparr>workers := (workers h)[i := Counting True True]\<rparr>)
      | _ \<Rightarrow> None)"
| "worker_step n i ev (Counting evs batch) h =
     (case ev of
        AddsEvents _ \<Rightarrow>
          if evs then Some (h\<lparr>total_events := fetch_add (word_of_nat n) (total_events h),
                              workers := (workers h)[i := counting False batch]\<rparr>)
          else None
      | AddsBatch _ \<Rightarrow>
          if batch then Some (h\<lparr>total_batches := fetch_add 1 (total_batches h),
                                workers := (workers h)[i := counting evs False]\<rparr>)
          else None
      | _ \<Rightarrow> None)"
| "worker_step n i ev Finished h = None"

fun closing :: "nat \<Rightarrow> u64 \<Rightarrow> u64 option \<Rightarrow> u64 option \<Rightarrow> bool \<Rightarrow> main_state" where
  "closing j events_start (Some evs) (Some batches) True = JoiningAll evs batches"
| "closing j events_start evs batches stored = Closing j events_start evs batches stored"

fun main_step :: "harness_event \<Rightarrow> main_state \<Rightarrow> harness \<Rightarrow> harness option" where
  "main_step ev (Spawning k) h =
     (case ev of
        ConnectDone (Inr _) \<Rightarrow> Some (h\<lparr>workers := workers h @ [AtHead], main_at := spawning (k - 1)\<rparr>)
      | ConnectDone (Inl e) \<Rightarrow> Some (h\<lparr>main_at := MainPanicked\<rparr>)
      | _ \<Rightarrow> None)"
| "main_step ev WarmingUp h = (if ev = SleepDone then Some (h\<lparr>main_at := Warm\<rparr>) else None)"
| "main_step ev Warm h =
     (case ev of
        LoadEvents j \<Rightarrow>
          if j < length (total_events h) then Some (h\<lparr>main_at := Measuring j (total_events h ! j)\<rparr>) else None
      | _ \<Rightarrow> None)"
| "main_step ev (Measuring j events_start) h =
     (if ev = SleepDone then Some (h\<lparr>main_at := Closing j events_start None None False\<rparr>) else None)"
| "main_step ev (Closing j events_start evs batches stored) h =
     (case ev of
        LoadEvents j' \<Rightarrow>
          if evs = None \<and> j \<le> j' \<and> j' < length (total_events h)
          then Some (h\<lparr>main_at := closing j events_start (Some (total_events h ! j' - events_start)) batches stored\<rparr>)
          else None
      | LoadBatches j' \<Rightarrow>
          if batches = None \<and> j' < length (total_batches h)
          then Some (h\<lparr>main_at := closing j events_start evs (Some (total_batches h ! j')) stored\<rparr>) else None
      | StoreStop \<Rightarrow>
          if stored then None else Some (h\<lparr>stop := True, main_at := closing j events_start evs batches True\<rparr>)
      | _ \<Rightarrow> None)"
| "main_step ev (JoiningAll evs batches) h =
     (if ev = AllJoined \<and> list_all (\<lambda>w. w = Finished) (workers h) then Some (h\<lparr>main_at := Reporting evs batches\<rparr>)
      else None)"
| "main_step ev _ h = None"

fun worker_of :: "harness_event \<Rightarrow> nat option" where
  "worker_of (ReadsStop i v) = Some i"
| "worker_of (SendDone i r) = Some i"
| "worker_of (AddsEvents i) = Some i"
| "worker_of (AddsBatch i) = Some i"
| "worker_of _ = None"

definition harness_step :: "usize \<Rightarrow> harness_event \<Rightarrow> harness \<Rightarrow> harness option" where
  "harness_step n ev h =
     (case worker_of ev of
        Some i \<Rightarrow> if i < length (workers h) then worker_step n i ev (workers h ! i) h else None
      | None \<Rightarrow> main_step ev (main_at h) h)"

fun harness_run :: "usize \<Rightarrow> harness_event list \<Rightarrow> harness \<Rightarrow> harness option" where
  "harness_run n [] h = Some h"
| "harness_run n (ev # evs) h = do { h \<leftarrow> harness_step n ev h; harness_run n evs h }"


section \<open>Lemmas\<close>

text \<open>What the kernel reports is converted exactly: microseconds below a million do not overflow the product.\<close>

definition timeval_ok :: "timeval \<Rightarrow> bool" where
  "timeval_ok tv \<longleftrightarrow> 0 \<le> tv_sec tv \<and> tv_sec tv < 2 ^ 62 \<and> 0 \<le> tv_usec tv \<and> tv_usec tv < 1000000"

lemma timeval_duration_exact:
  assumes "timeval_ok tv"
  shows "timeval_duration tv = Some (nat (tv_sec tv) * 1000000000 + nat (tv_usec tv) * 1000)"
proof -
  from assms have tv: "0 \<le> tv_sec tv" "tv_sec tv < 2 ^ 62" "0 \<le> tv_usec tv" "tv_usec tv < 1000000"
    by (auto simp: timeval_ok_def)
  then have sec: "unat (word_of_int (tv_sec tv) :: u64) = nat (tv_sec tv)"
    by (simp add: unsigned_of_int take_bit_int_eq_self)
  from tv have us: "word_of_int (tv_usec tv) * 1000 = (word_of_nat (nat (tv_usec tv) * 1000) :: u32)" by simp
  from tv have "nat (tv_usec tv) * 1000 < 1000000000" by linarith
  with us have usec: "unat (word_of_int (tv_usec tv) * 1000 :: u32) = nat (tv_usec tv) * 1000"
    by (simp only: us unat_of_nat) (simp)
  have "nat (tv_sec tv) < 2 ^ 62" using tv(1,2) by (simp add: nat_less_iff)
  with \<open>nat (tv_usec tv) * 1000 < 1000000000\<close> show ?thesis by (simp add: timeval_duration_def duration_new_def sec usec)
qed

lemma cpu_time_exact:
  assumes "timeval_ok (ru_utime ru)" and "timeval_ok (ru_stime ru)"
  shows "cpu_time (Some ru) = Some ((nat (tv_sec (ru_utime ru)) + nat (tv_sec (ru_stime ru))) * 1000000000 +
    (nat (tv_usec (ru_utime ru)) + nat (tv_usec (ru_stime ru))) * 1000)"
proof -
  from assms have "nat (tv_sec (ru_utime ru)) < 2 ^ 62" "nat (tv_sec (ru_stime ru)) < 2 ^ 62"
      "nat (tv_usec (ru_utime ru)) < 1000000" "nat (tv_usec (ru_stime ru)) < 1000000"
    by (auto simp: timeval_ok_def nat_less_iff)
  then show ?thesis
    by (simp add: cpu_time_def timeval_duration_exact assms duration_add_def)
qed

text \<open>The harness binds its server whenever the socket can be bound and a channel of its capacity can be made.\<close>

lemma baseline_bind_ok:
  assumes "tcp_bind net ''127.0.0.1:0'' w = (Inr l, w1)" and "listener_addr net l w1 = (Inr a, w2)"
    and "mpsc_channel net 2048 = Some adm"
  shows "\<exists>server. baseline_bind net w = Some ((a, server, serving adm), w2) \<and> conn_keepalive (srv_cfg server) = None"
  using assms
  by (simp add: baseline_bind_def builder_bind_def baseline_server_def server_builder_new_def server_builder_default_def
      channel_capacity_def no_keepalive_def local_addr_def)

text \<open>An object written as compact JSON, its strings without characters that need escapes.\<close>

definition compact_field :: "string \<times> string \<Rightarrow> string" where
  "compact_field kv = [CHR 0x22] @ fst kv @ [CHR 0x22, CHR '':'', CHR 0x22] @ snd kv @ [CHR 0x22]"

fun joined :: "string list \<Rightarrow> string" where
  "joined [] = []"
| "joined [x] = x"
| "joined (x # y # xs) = x @ CHR '','' # joined (y # xs)"

definition compact_object :: "(string \<times> string) list \<Rightarrow> string" where
  "compact_object fds = CHR ''{'' # joined (map compact_field fds) @ ''}''"

lemma length_joined: "xs \<noteq> [] \<Longrightarrow> length (joined xs) + 1 = sum_list (map length xs) + length xs"
  by (induction xs rule: joined.induct) auto

lemma length_compact_field: "length (compact_field kv) = length (fst kv) + length (snd kv) + 5"
  by (simp add: compact_field_def)

lemma length_compact_object:
  assumes "fds \<noteq> []"
  shows "length (compact_object fds) = 1 + (\<Sum>kv \<leftarrow> fds. length (fst kv) + length (snd kv) + 6)"
  using length_joined [of "map compact_field fds"] assms
  by (simp add: compact_object_def comp_def length_compact_field sum_list_addf sum_list_triv sum_list_Suc)

lemma length_compact_perm:
  assumes "mset fs = mset fds" and "fds \<noteq> []"
  shows "length (compact_object fs) = length (compact_object fds)"
proof -
  let ?w = "\<lambda>kv. length (fst kv) + length (snd kv) + 6"
  have "fs \<noteq> []" using assms by auto
  have "sum_mset (mset (map ?w fs)) = sum_mset (mset (map ?w fds))" by (simp only: mset_map assms(1))
  then have "sum_list (map ?w fs) = sum_list (map ?w fds)" by (simp only: sum_mset_sum_list)
  then show ?thesis by (simp only: length_compact_object [OF \<open>fs \<noteq> []\<close>] length_compact_object [OF assms(2)])
qed

lemma make_event_size: "length (compact_object (make_event n)) = max n (length skeleton)"
  by (simp add: length_compact_object make_event_def skeleton_def)

text \<open>Draining is receiving and acknowledging.\<close>

lemma drain_turn_steps:
  assumes "queue s = b # q" and "receiving s" and "held s = []"
  shows "server_run zl cfg tls [Recv, Release ByAck 0] s = drain_turn s"
    and "drain_turn s = Some (s\<lparr>queue := q, chans := batch_ack b (chans s)\<rparr>)"
  using assms by (simp_all add: server_recv_def drain_turn_def)

lemma drain_all:
  assumes "reachable zl cfg tls adm s" and "held s = []"
  shows "\<exists>s'. drain_turns (length (queue s)) s = Some s' \<and> reachable zl cfg tls adm s' \<and>
    queue s' = [] \<and> held s' = [] \<and> tasks s' = tasks s"
  using assms
proof (induction "queue s" arbitrary: s)
  case Nil
  then show ?case by (intro exI [of _ s]) simp
next
  case (Cons b q)
  from reachable_inv [OF Cons.prems(1)] Cons.hyps(2) have "receiving s"
    by (auto simp: sys_inv_def gauged_def)
  with Cons.hyps(2) Cons.prems(2) obtain s1 where s1: "drain_turn s = Some s1"
      "s1 = s\<lparr>queue := q, chans := batch_ack b (chans s)\<rparr>" "server_run zl cfg tls [Recv, Release ByAck 0] s = Some s1"
    using drain_turn_steps [of s b q] by metis
  from Cons.hyps(1) [of s1] reachable_run [OF Cons.prems(1) s1(3)] s1(2) Cons.prems(2)
  obtain s' where "drain_turns (length q) s1 = Some s'" "reachable zl cfg tls adm s'" "queue s' = []" "held s' = []"
      "tasks s' = tasks s"
    by auto
  with s1(1) Cons.hyps(2) [symmetric] show ?case by auto
qed

text \<open>Successful sends among the events of a run, and the workers with an addition still to be done.\<close>

fun is_sent :: "harness_event \<Rightarrow> bool" where
  "is_sent (SendDone i (Inr _)) = True"
| "is_sent _ = False"

definition sends :: "harness_event list \<Rightarrow> nat" where
  "sends evs = length (filter is_sent evs)"

lemma sends_simps [simp]:
  "sends [] = 0" "sends (evs @ evs') = sends evs + sends evs'" "sends (ev # evs) = (if is_sent ev then 1 else 0) + sends evs"
  by (simp_all add: sends_def)

fun owes_events :: "worker \<Rightarrow> bool" where
  "owes_events (Counting a b) = a"
| "owes_events _ = False"

fun owes_batch :: "worker \<Rightarrow> bool" where
  "owes_batch (Counting a b) = b"
| "owes_batch _ = False"

lemma counting_owes [simp]:
  "owes_events (counting a b) = a" "owes_batch (counting a b) = b" "counting a b \<noteq> Counting False False"
  by (simp_all add: counting_def)

abbreviation owing :: "(worker \<Rightarrow> bool) \<Rightarrow> harness \<Rightarrow> nat" where
  "owing P h \<equiv> length (filter P (workers h))"

lemma filter_update:
  assumes "i < length ws"
  shows "length (filter P (ws[i := w])) + (if P (ws ! i) then 1 else 0) = length (filter P ws) + (if P w then 1 else 0)"
proof -
  obtain xs x ys where "ws = xs @ x # ys" "length xs = i" using assms by (metis id_take_nth_drop length_take min.absorb4)
  then show ?thesis by (auto simp: list_update_append)
qed

text \<open>The modification order of a counter to which \<open>n\<close> has been added \<open>m\<close> times.\<close>

definition order_of :: "usize \<Rightarrow> nat \<Rightarrow> u64 list" where
  "order_of n m = map (\<lambda>j. word_of_nat (n * j)) [0..<Suc m]"

lemma order_of_sel [simp]: "length (order_of n m) = Suc m" "j \<le> m \<Longrightarrow> order_of n m ! j = word_of_nat (n * j)"
  by (simp_all add: order_of_def less_Suc_eq_le nth_append del: upt_Suc)

lemma fetch_add_order: "fetch_add (word_of_nat n) (order_of n m) = order_of n (Suc m)"
  by (simp add: fetch_add_def order_of_def distrib_left add.commute)

definition counters_ok :: "usize \<Rightarrow> harness_event list \<Rightarrow> harness \<Rightarrow> bool" where
  "counters_ok n evs h \<longleftrightarrow>
     (\<exists>m q. total_events h = order_of n m \<and> total_batches h = order_of 1 q \<and>
        m + owing owes_events h = sends evs \<and> q + owing owes_batch h = sends evs) \<and>
     Counting False False \<notin> set (workers h)"

fun_cases worker_step_SomeE: "worker_step n i ev w h = Some h'"

fun_cases main_step_SomeE: "main_step ev m h = Some h'"

lemma harness_step_cases:
  assumes "harness_step n ev h = Some h'"
  obtains (worker) i where "i < length (workers h)" "worker_step n i ev (workers h ! i) h = Some h'"
  | (main) "main_step ev (main_at h) h = Some h'" "\<not> is_sent ev"
  using assms by (cases ev) (auto simp: harness_step_def split: if_splits)

lemma worker_step_keeps:
  "worker_step n i ev w h = Some h' \<Longrightarrow> main_at h' = main_at h \<and> stop h' = stop h \<and> length (workers h') = length (workers h)"
  by (elim worker_step_SomeE) (auto split: harness_event.splits sum.splits bool.splits if_splits)

lemma worker_step_cases:
  assumes "worker_step n i ev w h = Some h'"
  obtains (leaves) j where "ev = ReadsStop j True" "w = AtHead" "stop h" "h' = h\<lparr>workers := (workers h)[i := Finished]\<rparr>"
  | (starts) j where "ev = ReadsStop j False" "w = AtHead" "h' = h\<lparr>workers := (workers h)[i := InSend]\<rparr>"
  | (fails) j e where "ev = SendDone j (Inl e)" "w = InSend" "h' = h\<lparr>workers := (workers h)[i := Finished]\<rparr>"
  | (sent) j x where "ev = SendDone j (Inr x)" "w = InSend" "h' = h\<lparr>workers := (workers h)[i := Counting True True]\<rparr>"
  | (adds_events) j batch where "ev = AddsEvents j" "w = Counting True batch"
      "h' = h\<lparr>total_events := fetch_add (word_of_nat n) (total_events h), workers := (workers h)[i := counting False batch]\<rparr>"
  | (adds_batch) j evs where "ev = AddsBatch j" "w = Counting evs True"
      "h' = h\<lparr>total_batches := fetch_add 1 (total_batches h), workers := (workers h)[i := counting evs False]\<rparr>"
  using assms by (cases "(n, i, ev, w, h)" rule: worker_step.cases) (auto split: harness_event.splits sum.splits bool.splits if_splits)

lemma counters_okI:
  assumes "total_events h = order_of n m" and "total_batches h = order_of 1 q"
    and "m + owing owes_events h = sends evs" and "q + owing owes_batch h = sends evs"
    and "Counting False False \<notin> set (workers h)"
  shows "counters_ok n evs h"
  using assms unfolding counters_ok_def by blast

lemma worker_step_counters:
  assumes "worker_step n i ev (workers h ! i) h = Some h'" and i: "i < length (workers h)" and ok: "counters_ok n evs h"
  shows "counters_ok n (evs @ [ev]) h'"
proof -
  from ok obtain m q where mq: "total_events h = order_of n m" "total_batches h = order_of 1 q"
      "m + owing owes_events h = sends evs" "q + owing owes_batch h = sends evs" and
    no: "Counting False False \<notin> set (workers h)" by (auto simp: counters_ok_def)
  note e = filter_update [OF i, of owes_events] and b = filter_update [OF i, of owes_batch]
  have keep: "w \<noteq> Counting False False \<Longrightarrow> Counting False False \<notin> set ((workers h)[i := w])" for w
    using no set_update_subset_insert [of "workers h" i w] by auto
  from assms(1) show ?thesis
  proof (cases rule: worker_step_cases)
    case (adds_events j batch)
    have "Suc m + owing owes_events h' = sends (evs @ [ev])" "q + owing owes_batch h' = sends (evs @ [ev])"
      using mq(3,4) e [of "counting False batch"] b [of "counting False batch"] adds_events by simp_all
    with adds_events(3) mq(1,2) keep show ?thesis by (intro counters_okI [of h' n "Suc m" q]) (simp_all add: fetch_add_order)
  next
    case (adds_batch j evs')
    have "m + owing owes_events h' = sends (evs @ [ev])" "Suc q + owing owes_batch h' = sends (evs @ [ev])"
      using mq(3,4) e [of "counting evs' False"] b [of "counting evs' False"] adds_batch by simp_all
    with adds_batch(3) mq(1,2) keep fetch_add_order [of 1 q] show ?thesis
      by (intro counters_okI [of h' n m "Suc q"]) simp_all
  qed (use mq e [of Finished] e [of InSend] e [of "Counting True True"] b [of Finished] b [of InSend] b [of "Counting True True"]
      keep in \<open>(intro counters_okI [of h' n m q]; simp)+\<close>)
qed

lemma main_step_counters:
  assumes "main_step ev (main_at h) h = Some h'" and "counters_ok n evs h" and "\<not> is_sent ev"
  shows "counters_ok n (evs @ [ev]) h'"
proof -
  have "total_events h' = total_events h \<and> total_batches h' = total_batches h \<and>
      (workers h' = workers h \<or> workers h' = workers h @ [AtHead])"
    using assms(1) by (elim main_step_SomeE) (auto split: harness_event.splits sum.splits bool.splits if_splits)
  moreover from assms(2) obtain m q where "total_events h = order_of n m" "total_batches h = order_of 1 q"
      "m + owing owes_events h = sends evs" "q + owing owes_batch h = sends evs" "Counting False False \<notin> set (workers h)"
    by (auto simp: counters_ok_def)
  ultimately show ?thesis using assms(3) by (intro counters_okI [of h' n m q]) auto
qed

lemma counters_bound:
  assumes "counters_ok n evs h"
  shows "j < length (total_events h) \<Longrightarrow> j \<le> sends evs \<and> total_events h ! j = word_of_nat (n * j)"
    and "j < length (total_batches h) \<Longrightarrow> j \<le> sends evs \<and> total_batches h ! j = word_of_nat j"
  using assms by (auto simp: counters_ok_def less_Suc_eq_le)

text \<open>What \<open>main\<close> has read, in terms of the run \<open>evs\<close> so far: \<open>marked\<close> is its first reading of \<open>total_events\<close>, \<open>measured\<close> the
  difference of the two, \<open>tallied\<close> the reading of \<open>total_batches\<close>.\<close>

definition marked :: "usize \<Rightarrow> harness_event list \<Rightarrow> nat \<Rightarrow> u64 \<Rightarrow> bool" where
  "marked n evs j e0 \<longleftrightarrow> (\<exists>before after. evs = before @ LoadEvents j # after \<and> j \<le> sends before) \<and> e0 = word_of_nat (n * j)"

definition measured :: "usize \<Rightarrow> harness_event list \<Rightarrow> u64 \<Rightarrow> bool" where
  "measured n evs e \<longleftrightarrow>
     (\<exists>before j between j' after. evs = before @ LoadEvents j # between @ LoadEvents j' # after \<and>
        j \<le> j' \<and> j \<le> sends before \<and> j' \<le> sends (before @ between) \<and> e = word_of_nat (n * (j' - j)))"

definition tallied :: "harness_event list \<Rightarrow> u64 \<Rightarrow> bool" where
  "tallied evs b \<longleftrightarrow> (\<exists>before j after. evs = before @ LoadBatches j # after \<and> j \<le> sends before \<and> b = word_of_nat j)"

fun timeline :: "usize \<Rightarrow> harness_event list \<Rightarrow> main_state \<Rightarrow> bool" where
  "timeline n evs (Measuring j e0) \<longleftrightarrow> marked n evs j e0"
| "timeline n evs (Closing j e0 oe ob stored) \<longleftrightarrow>
     marked n evs j e0 \<and> (\<forall>e. oe = Some e \<longrightarrow> measured n evs e) \<and> (\<forall>b. ob = Some b \<longrightarrow> tallied evs b)"
| "timeline n evs (JoiningAll e b) \<longleftrightarrow> measured n evs e \<and> tallied evs b"
| "timeline n evs (Reporting e b) \<longleftrightarrow> measured n evs e \<and> tallied evs b"
| "timeline n evs _ \<longleftrightarrow> True"

lemma marked_snoc: "marked n evs j e0 \<Longrightarrow> marked n (evs @ [ev]) j e0"
  unfolding marked_def by (metis append_Cons append_assoc)

lemma measured_snoc: "measured n evs e \<Longrightarrow> measured n (evs @ [ev]) e"
  unfolding measured_def by (metis append_Cons append_assoc)

lemma tallied_snoc: "tallied evs b \<Longrightarrow> tallied (evs @ [ev]) b"
  unfolding tallied_def by (metis append_Cons append_assoc)

lemmas snocs = marked_snoc measured_snoc tallied_snoc

lemma timeline_snoc: "timeline n evs m \<Longrightarrow> timeline n (evs @ [ev]) m"
  by (cases m) (auto intro: snocs)

lemma timeline_closing:
  "timeline n evs (closing j e0 oe ob stored) \<longleftrightarrow> timeline n evs (Closing j e0 oe ob stored) \<or>
     (oe \<noteq> None \<and> ob \<noteq> None \<and> stored \<and> measured n evs (the oe) \<and> tallied evs (the ob))"
  by (cases "(j, e0, oe, ob, stored)" rule: closing.cases) auto

text \<open>The second reading does not go behind the first.\<close>

lemma marked_measured:
  assumes "marked n evs j e0" and "j \<le> j'" and "j' \<le> sends evs"
  shows "measured n (evs @ [LoadEvents j']) (word_of_nat (n * j') - e0)"
proof -
  from assms(1) obtain before after where m: "evs = before @ LoadEvents j # after" "j \<le> sends before" "e0 = word_of_nat (n * j)"
    by (auto simp: marked_def)
  have "word_of_nat (n * j') - e0 = (word_of_nat (n * (j' - j)) :: u64)"
    using assms(2) m(3) by (simp add: of_nat_diff right_diff_distrib)
  moreover from assms(3) m(1) have "j' \<le> sends (before @ after)" by simp
  ultimately show ?thesis using assms(2) m unfolding measured_def
    by (intro exI [of _ before] exI [of _ j] exI [of _ after] exI [of _ j'] exI [of _ "[]"]) simp
qed

lemma main_step_timeline:
  assumes step: "main_step ev (main_at h) h = Some h'" and t: "timeline n evs (main_at h)" and ok: "counters_ok n evs h"
  shows "timeline n (evs @ [ev]) (main_at h')"
proof (cases "main_at h")
  case Warm
  with step obtain j where j: "ev = LoadEvents j" "j < length (total_events h)" "main_at h' = Measuring j (total_events h ! j)"
    by (auto elim!: main_step_SomeE split: harness_event.splits sum.splits bool.splits if_splits)
  with counters_bound(1) [OF ok j(2)] have "marked n (evs @ [ev]) j (total_events h ! j)"
    unfolding marked_def by (intro conjI exI [of _ evs] exI [of _ "[]"]) simp_all
  with j(3) show ?thesis by simp
next
  case (Closing j e0 oe ob stored)
  with t have m: "marked n evs j e0" "\<forall>e. oe = Some e \<longrightarrow> measured n (evs @ [ev]) e" "\<forall>b. ob = Some b \<longrightarrow> tallied (evs @ [ev]) b"
    by (auto intro: snocs)
  from step Closing consider
      (le) j' where "ev = LoadEvents j'" "j \<le> j'" "j' < length (total_events h)"
        "main_at h' = closing j e0 (Some (total_events h ! j' - e0)) ob stored"
    | (lb) j' where "ev = LoadBatches j'" "j' < length (total_batches h)"
        "main_at h' = closing j e0 oe (Some (total_batches h ! j')) stored"
    | (st) "main_at h' = closing j e0 oe ob True"
    by (auto elim!: main_step_SomeE split: harness_event.splits sum.splits bool.splits if_splits)
  then show ?thesis
  proof cases
    case le
    with counters_bound(1) [OF ok le(3)] marked_measured [OF m(1) le(2)] marked_snoc [OF m(1)] m(2,3) show ?thesis
      by (simp add: timeline_closing)
  next
    case lb
    with counters_bound(2) [OF ok lb(2)] have "tallied (evs @ [ev]) (total_batches h ! j')" by (auto simp: tallied_def)
    with lb marked_snoc [OF m(1)] m(2,3) show ?thesis by (simp add: timeline_closing)
  next
    case st
    with marked_snoc [OF m(1)] m(2,3) show ?thesis by (simp add: timeline_closing)
  qed
next
  case (Spawning k)
  with step show ?thesis by (auto simp: spawning_def elim!: main_step_SomeE split: harness_event.splits sum.splits bool.splits if_splits)
qed (use step t in \<open>auto intro: snocs elim!: main_step_SomeE split: harness_event.splits sum.splits bool.splits if_splits\<close>)

fun still_to_spawn :: "main_state \<Rightarrow> nat" where
  "still_to_spawn (Spawning k) = k"
| "still_to_spawn _ = 0"

fun stored_stop :: "main_state \<Rightarrow> bool" where
  "stored_stop (Closing j e0 oe ob stored) \<longleftrightarrow> stored"
| "stored_stop (JoiningAll e b) \<longleftrightarrow> True"
| "stored_stop (Reporting e b) \<longleftrightarrow> True"
| "stored_stop _ \<longleftrightarrow> False"

lemma closing_sel [simp]:
  "stored_stop (closing j e0 oe ob stored) = stored" "still_to_spawn (closing j e0 oe ob stored) = 0"
  "closing j e0 oe ob stored \<noteq> Spawning k"
  by (cases "(j, e0, oe, ob, stored)" rule: closing.cases; simp)+

definition harness_inv :: "usize \<Rightarrow> usize \<Rightarrow> harness_event list \<Rightarrow> harness \<Rightarrow> bool" where
  "harness_inv n k evs h \<longleftrightarrow>
     counters_ok n evs h \<and> timeline n evs (main_at h) \<and> stop h = stored_stop (main_at h) \<and>
     length (workers h) + still_to_spawn (main_at h) \<le> k \<and> main_at h \<noteq> Spawning 0"

lemma main_step_shape:
  assumes "main_step ev (main_at h) h = Some h'" and "stop h = stored_stop (main_at h)"
    and "length (workers h) + still_to_spawn (main_at h) \<le> k" and "main_at h \<noteq> Spawning 0"
  shows "stop h' = stored_stop (main_at h') \<and> length (workers h') + still_to_spawn (main_at h') \<le> k \<and> main_at h' \<noteq> Spawning 0"
  using assms by (elim main_step_SomeE) (auto simp: spawning_def split: harness_event.splits sum.splits bool.splits if_splits)

lemma harness_run_append:
  "harness_run n (evs @ evs') h = do { h \<leftarrow> harness_run n evs h; harness_run n evs' h }"
  by (induction evs arbitrary: h) (auto split: bind_splits)

lemma harness_start_inv: "harness_inv n k [] (harness_start k)"
  by (cases k) (auto simp: harness_start_def harness_inv_def spawning_def counters_ok_def order_of_def)

lemma harness_step_inv:
  assumes "harness_step n ev h = Some h'" and inv: "harness_inv n k evs h"
  shows "harness_inv n k (evs @ [ev]) h'"
  using assms(1)
proof (cases rule: harness_step_cases)
  case (worker i)
  with worker_step_counters [OF worker(2,1)] worker_step_keeps [OF worker(2)] inv show ?thesis
    by (simp add: harness_inv_def timeline_snoc)
next
  case main
  with main_step_counters main_step_timeline main_step_shape inv show ?thesis unfolding harness_inv_def by blast
qed

lemma harness_run_inv: "harness_run n evs (harness_start k) = Some h \<Longrightarrow> harness_inv n k evs h"
proof (induction evs arbitrary: h rule: rev_induct)
  case Nil
  then show ?case using harness_start_inv by auto
next
  case (snoc ev evs)
  then show ?case using harness_step_inv by (auto simp: harness_run_append bind_eq_Some_conv)
qed

text \<open>Once \<open>main\<close> waits for the workers, each step brings the harness closer to its end, but for a worker that still reads the
  flag as \<open>False\<close>.\<close>

fun worker_left :: "worker \<Rightarrow> nat" where
  "worker_left InSend = 4"
| "worker_left (Counting a b) = 1 + of_bool a + of_bool b"
| "worker_left AtHead = 1"
| "worker_left Finished = 0"

fun main_left :: "main_state \<Rightarrow> nat" where
  "main_left (JoiningAll e b) = 1"
| "main_left _ = 0"

definition harness_left :: "harness \<Rightarrow> nat" where
  "harness_left h = sum_list (map worker_left (workers h)) + main_left (main_at h)"

lemma sum_update:
  assumes i: "i < length ws"
    and "worker_left w < worker_left (ws ! i)"
  shows "sum_list (map worker_left (ws[i := w])) < sum_list (map worker_left ws)"
proof -
  obtain xs x ys where "ws = xs @ x # ys" "length xs = i" using i by (metis id_take_nth_drop length_take min.absorb4)
  with assms(2) show ?thesis by (auto simp: list_update_append)
qed

lemma worker_left_le: "worker_left w \<le> 4"
  by (cases w) auto

lemma harness_left_le: "main_at h = JoiningAll e b \<Longrightarrow> harness_left h \<le> 4 * length (workers h) + 1"
  using sum_list_mono [of "workers h" worker_left "\<lambda>_. 4"] worker_left_le
  by (simp add: harness_left_def sum_list_triv)

lemma worker_step_left:
  assumes "worker_step n i ev (workers h ! i) h = Some h'" and "i < length (workers h)" and "\<forall>j. ev \<noteq> ReadsStop j False"
  shows "sum_list (map worker_left (workers h')) < sum_list (map worker_left (workers h))"
  using assms(1)
  by (cases rule: worker_step_cases) (use assms(3) in \<open>auto simp: counting_def intro!: sum_update [OF assms(2)]\<close>)

lemma harness_step_left:
  assumes "harness_step n ev h = Some h'" and "main_at h = JoiningAll e b \<or> main_at h = Reporting e b"
    and "\<forall>j. ev \<noteq> ReadsStop j False"
  shows "harness_left h' < harness_left h \<and> (main_at h' = JoiningAll e b \<or> main_at h' = Reporting e b)"
  using assms(1)
proof (cases rule: harness_step_cases)
  case (worker i)
  with worker_step_left [OF worker(2,1) assms(3)] worker_step_keeps [OF worker(2)] assms(2) show ?thesis
    by (simp add: harness_left_def)
next
  case main
  with assms(2) show ?thesis by (auto simp: harness_left_def elim!: main_step_SomeE split: harness_event.splits sum.splits bool.splits if_splits)
qed

lemma harness_run_left:
  assumes "harness_run n evs h = Some h'" and "main_at h = JoiningAll e b \<or> main_at h = Reporting e b"
    and "\<forall>j. ReadsStop j False \<notin> set evs"
  shows "length evs + harness_left h' \<le> harness_left h \<and> (main_at h' = JoiningAll e b \<or> main_at h' = Reporting e b)"
  using assms
proof (induction evs arbitrary: h)
  case (Cons ev evs)
  then obtain h1 where h1: "harness_step n ev h = Some h1" "harness_run n evs h1 = Some h'"
    by (auto simp: bind_eq_Some_conv)
  with Cons.IH [OF h1(2)] harness_step_left [OF h1(1) Cons.prems(2)] Cons.prems(3) show ?case by force
qed simp

lemma harness_not_stuck:
  assumes "main_at h = JoiningAll e b" and "stop h" and "Counting False False \<notin> set (workers h)"
  shows "\<exists>ev. harness_step n ev h \<noteq> None \<and> (\<forall>j. ev \<noteq> ReadsStop j False)"
proof (cases "list_all (\<lambda>w. w = Finished) (workers h)")
  case True
  with assms(1) show ?thesis by (intro exI [of _ AllJoined]) (simp add: harness_step_def)
next
  case False
  then obtain i where i: "i < length (workers h)" "workers h ! i \<noteq> Finished" by (auto simp: list_all_length)
  show ?thesis
  proof (cases "workers h ! i")
    case AtHead
    with i(1) assms(2) show ?thesis by (intro exI [of _ "ReadsStop i True"]) (simp add: harness_step_def)
  next
    case InSend
    with i(1) show ?thesis by (intro exI [of _ "SendDone i (Inr 0)"]) (simp add: harness_step_def)
  next
    case (Counting a c)
    moreover from this i(1) assms(3) have "a \<or> c" by (metis nth_mem)
    ultimately show ?thesis using i(1)
      by (cases a) (auto simp: harness_step_def intro: exI [of _ "AddsEvents i"] exI [of _ "AddsBatch i"])
  qed (use i(2) in simp)
qed

text \<open>A status line of the kernel is read back.\<close>

lemma decimal_no_space: "c \<in> set (decimal n) \<Longrightarrow> \<not> is_whitespace c"
  using decimal_digits [of c n] by (auto simp: is_whitespace_def)

lemma dropWhile_nonspace: "xs \<noteq> [] \<Longrightarrow> \<not> is_whitespace (hd xs) \<Longrightarrow> dropWhile is_whitespace xs = xs"
  by (cases xs) auto

lemma first_word_padded:
  assumes "w \<noteq> []" and "\<forall>c \<in> set w. \<not> is_whitespace c" and "\<forall>c \<in> set pad. is_whitespace c"
    and "rest = [] \<or> is_whitespace (hd rest)"
  shows "first_word (trim (pad @ w @ rest)) = Some w"
proof -
  let ?body = "w @ rest"
  have pad: "dropWhile is_whitespace (pad @ ?body) = ?body"
    using assms by (simp add: dropWhile_append2 dropWhile_nonspace)
  define tail where "tail = rev (dropWhile is_whitespace (rev rest))"
  have "rev (dropWhile is_whitespace (rev ?body)) = w @ tail"
  proof (cases "\<forall>c \<in> set rest. is_whitespace c")
    case True
    then have "dropWhile is_whitespace (rev rest @ rev w) = dropWhile is_whitespace (rev w)" "tail = []"
      by (simp_all add: dropWhile_append tail_def)
    moreover have "dropWhile is_whitespace (rev w) = rev w"
      using assms(1,2) by (intro dropWhile_nonspace) (auto simp: hd_rev)
    ultimately show ?thesis by simp
  next
    case False
    then show ?thesis by (auto simp: tail_def dropWhile_append1)
  qed
  with pad have trim: "trim (pad @ ?body) = w @ tail" by (simp add: trim_def)
  have "tail = [] \<or> is_whitespace (hd tail)"
  proof (cases rest)
    case (Cons c cs)
    have "prefix tail rest"
      by (metis tail_def prefix_def rev_append rev_rev_ident takeWhile_dropWhile_id)
    then show ?thesis using assms(4) Cons by (cases tail) (auto simp: prefix_def)
  qed (simp add: tail_def)
  then have "takeWhile (\<lambda>c. \<not> is_whitespace c) (w @ tail) = w"
    using assms(2) by (cases tail) (auto simp: takeWhile_append)
  with trim assms(1,2) show ?thesis
    by (cases w) (simp_all add: first_word_def)
qed


lemma lines_from_line: "newline \<notin> set l \<Longrightarrow> lines_from acc (l @ newline # cs) = strip_cr (acc @ l) # lines_from [] cs"
  by (induction l arbitrary: acc) auto

lemma str_lines_line [simp]: "newline \<notin> set l \<Longrightarrow> str_lines (l @ newline # cs) = strip_cr l # str_lines cs"
  using lines_from_line [of l "[]"] by (simp add: str_lines_def)

lemma strip_prefix_None: "strip_prefix p l = None \<longleftrightarrow> \<not> prefix p l"
  by (auto simp: strip_prefix_def prefix_def) (metis append_take_drop_id)

lemma strip_prefix_append [simp]: "strip_prefix p (p @ s) = Some s"
  by (simp add: strip_prefix_def)

lemma strip_prefix_cr: "strip_prefix p l = None \<Longrightarrow> strip_prefix p (strip_cr l) = None"
  using prefixeq_butlast [of l] by (auto simp: strip_prefix_None strip_cr_def dest: prefix_order.trans)

lemma rss_of_other_lines:
  "\<forall>l \<in> set pre. newline \<notin> set l \<and> strip_prefix ''VmHWM:'' l = None \<Longrightarrow>
   rss_of_lines (str_lines (concat (map (\<lambda>l. l @ [newline]) pre) @ cs)) = rss_of_lines (str_lines cs)"
  by (induction pre) (simp_all add: strip_prefix_cr)


section \<open>Properties\<close>

text \<open>The command line of the harness: a list of settings written out as options is read back, a later setting of
  the same knob replacing an earlier one and the others keeping their defaults; asking for help exits with status 0
  whatever follows; an option without its value and an unknown argument panic.\<close>

theorem args_parse_settings:
  assumes "\<forall>x \<in> set xs. setting_value x \<le> u64_max" and "line = prog # concat (map setting_args xs)"
    and "flag \<in> {''--clients'', ''--duration'', ''--event-size'', ''--batch''}" and "parse_unsigned u64_max v = None"
    and "a \<notin> {''--clients'', ''--duration'', ''--event-size'', ''--batch'', ''--help'', ''-h''}"
  shows "args_parse line =
      (let st = fold apply_setting xs arg_defaults in
       Yields \<lparr>arg_clients = v_clients st, arg_duration = from_secs (v_duration_s st),
               arg_event_size = v_event_size st, arg_batch = v_batch st\<rparr>) \<and>
    args_parse (line @ ''--help'' # rest) = Exits 0 \<and>
    args_parse (line @ [flag]) = Panics \<and> args_parse (line @ flag # v # rest) = Panics \<and>
    args_parse (line @ a # rest) = Panics"
proof -
  note run = args_loop_settings [OF assms(1), where st = arg_defaults]
  from run [of "[]"] run [of "''--help'' # rest"] run [of "a # rest"] assms(5)
  have "args_parse (line @ a # rest) = Panics" "args_parse (line @ ''--help'' # rest) = Exits 0"
    "args_loop (concat (map setting_args xs)) arg_defaults = Yields (fold apply_setting xs arg_defaults)"
    by (simp_all add: args_parse_def assms(2))
  moreover from run [of "[flag]"] run [of "flag # v # rest"] assms(3,4)
  have "args_parse (line @ [flag]) = Panics" "args_parse (line @ flag # v # rest) = Panics"
    by (auto simp: args_parse_def assms(2) next_number_def)
  ultimately show ?thesis by (simp add: args_parse_def assms(2) Let_def)
qed

theorem args_parse_settings_witness:
  "args_parse [''baseline'', ''--clients'', ''4'', ''--batch'', ''64''] =
     Yields \<lparr>arg_clients = 4, arg_duration = from_secs 10, arg_event_size = 250, arg_batch = 64\<rparr> \<and>
   args_parse [''baseline'', ''--clients'', ''4'', ''--batch'', ''64'', ''--duration'', ''soon''] = Panics"
proof -
  have line: "[''baseline'', ''--clients'', ''4'', ''--batch'', ''64''] =
      ''baseline'' # concat (map setting_args [SetClients 4, SetBatch 64])"
    by code_simp
  have "parse_unsigned u64_max ''soon'' = None" by (simp add: parse_unsigned_def)
  from args_parse_settings [OF _ line _ this, of "''--duration''" "''--verbose''" "[]"] show ?thesis
    by (simp add: arg_defaults_def)
qed

text \<open>Event size: provided \<open>serde_json\<close> writes an object of plain strings as compact JSON, in any order of its fields,
  an event made for a target size serialises to exactly that size, or to the size of the empty skeleton when the
  target is smaller; the harness stops with a panic exactly when the batch size is 0.\<close>

theorem baseline_event_size:
  assumes "\<forall>fds. \<exists>fs. mset fs = mset fds \<and> to_vec fds = Inr (ascii (compact_object fs))"
  shows "baseline_batch to_vec args =
    (if arg_batch args = 0 then None
     else Some (replicate (arg_batch args) (make_event (arg_event_size args)), max (arg_event_size args) (length skeleton)))"
proof -
  obtain fs where fs: "mset fs = mset (make_event (arg_event_size args))"
      "to_vec (make_event (arg_event_size args)) = Inr (ascii (compact_object fs))"
    using assms by blast
  have "length (compact_object fs) = max (arg_event_size args) (length skeleton)"
    using length_compact_perm [OF fs(1)] make_event_size [of "arg_event_size args"] by (simp add: make_event_def)
  with fs(2) show ?thesis
    by (simp add: baseline_batch_def Let_def index_def ascii_def map_replicate_const upt_conv_Cons nth_append)
qed

theorem baseline_event_size_witness:
  "baseline_batch (\<lambda>fds. Inr (ascii (compact_object fds))) \<lparr>arg_clients = 1, arg_duration = 0, arg_event_size = 250, arg_batch = 1\<rparr> =
     Some ([make_event 250], 250)"
proof -
  have "\<forall>fds. \<exists>fs. mset fs = mset fds \<and> (\<lambda>fds. Inr (ascii (compact_object fds))) fds = Inr (ascii (compact_object fs))" by auto
  from baseline_event_size [OF this, of "\<lparr>arg_clients = 1, arg_duration = 0, arg_event_size = 250, arg_batch = 1\<rparr>"]
  show ?thesis by (simp add: skeleton_def)
qed

text \<open>Reading the peak memory: the number of the first line that starts with \<^verbatim>\<open>VmHWM:\<close> is returned, whatever lines
  come before and after it; a file that cannot be read, or has no such line, gives 0.\<close>

theorem peak_rss_read_back:
  assumes "\<forall>l \<in> set pre. newline \<notin> set l \<and> strip_prefix ''VmHWM:'' l = None"
    and "\<forall>c \<in> set pad. is_whitespace c \<and> c \<noteq> newline" and "n \<le> u64_max"
  shows "peak_rss_kib (Inr (concat (map (\<lambda>l. l @ [newline]) pre) @ ''VmHWM:'' @ pad @ decimal n @ '' kB'' @ newline # post)) = n \<and>
    peak_rss_kib (Inr (concat (map (\<lambda>l. l @ [newline]) pre))) = 0 \<and> peak_rss_kib (Inl e) = 0"
proof -
  let ?line = "''VmHWM:'' @ pad @ decimal n @ '' kB''"
  have cr: "strip_cr ?line = ?line" by (simp add: strip_cr_def)
  have "newline \<notin> set ?line"
    using assms(2) decimal_no_space [of newline n] by (auto simp: newline_def is_whitespace_def)
  then have "str_lines (?line @ newline # post) = ?line # str_lines post" using str_lines_line [of ?line post] cr by argo
  moreover have "first_word (trim (pad @ decimal n @ '' kB'')) = Some (decimal n)"
    using assms(2) decimal_no_space [of _ n] decimal_not_sign(1) [of n]
    by (intro first_word_padded) (auto simp: is_whitespace_def)
  then have "rss_of_lines (?line # str_lines post) = n"
    using parse_unsigned_decimal [OF assms(3)] by (simp only: rss_of_lines.simps strip_prefix_append option.case)
  ultimately have "rss_of_lines (str_lines (?line @ newline # post)) = n" by (simp only:)
  with rss_of_other_lines [OF assms(1), of "?line @ newline # post"] rss_of_other_lines [OF assms(1), of "[]"]
  show ?thesis by (simp add: peak_rss_kib_def str_lines_def)
qed

theorem peak_rss_read_back_witness:
  "peak_rss_kib (Inr (concat (map (\<lambda>l. l @ [newline]) [''VmPeak: 9000 kB'']) @
     ''VmHWM:'' @ '' '' @ decimal 5044 @ '' kB'' @ newline # [])) = 5044"
  using peak_rss_read_back [of "[''VmPeak: 9000 kB'']" "'' ''" 5044 "[]"]
  by (simp add: newline_def strip_prefix_def is_whitespace_def)


text \<open>C30. The draining server: from every reachable state in which the application holds nothing, as many turns of the
  loop as there are batches queued empty the channel without waiting, and after them every connection that waits for
  an acknowledgement has it; the loop itself then waits, or ends when no connection is left.\<close>

theorem drain_answers_all:
  assumes "reachable zl cfg tls adm s" and "held s = []"
  shows "\<exists>s'. drain_turns (length (queue s)) s = Some s' \<and> queue s' = [] \<and> tasks s' = tasks s \<and>
    (\<forall>i rx seq. tasks s i = Some (Serving (AwaitAck rx seq)) \<longrightarrow> chans s' rx = Sent seq) \<and>
    (drain_turn s' = None \<longleftrightarrow> accepting s' \<or> dom (tasks s') \<noteq> {})"
proof -
  obtain s' where s': "drain_turns (length (queue s)) s = Some s'" "reachable zl cfg tls adm s'"
      "queue s' = []" "held s' = []" "tasks s' = tasks s"
    using drain_all [OF assms] by blast
  from reachable_inv [OF s'(2)] have inv: "sys_inv s'" .
  have "chans s' rx = Sent seq" if "tasks s i = Some (Serving (AwaitAck rx seq))" for i rx seq
    using sys_inv_task_ok [OF inv, of i] that s'(3,4,5) by (simp add: await_ok_def)
  moreover have "drain_turn s' = None \<longleftrightarrow> accepting s' \<or> dom (tasks s') \<noteq> {}"
    using inv s'(3) by (auto simp: drain_turn_def server_recv_def sys_inv_def gauged_def card_eq_0_iff)
  ultimately show ?thesis using s'(1,3,5) by (intro exI [of _ s'] conjI) auto
qed

theorem drain_answers_all_witness:
  "\<exists>s'. drain_turns 1 example_delivered = Some s' \<and> chans s' 0 = Sent 1"
  using drain_answers_all [OF example_reachable] by (auto simp: example_delivered_def)





text \<open>The two figures are not of the same period: a send of the warm-up counts as a batch and not as events.\<close>

theorem harness_figures_differ:
  "\<exists>evs h. harness_run 128 evs (harness_start 1) = Some h \<and> main_at h = Reporting 0 1"
  by (intro exI [of _ "[ConnectDone (Inr ()), ReadsStop 0 False, SendDone 0 (Inr 128), AddsEvents 0, AddsBatch 0, SleepDone,
      LoadEvents 1, SleepDone, LoadEvents 1, LoadBatches 1, StoreStop, ReadsStop 0 True, AllJoined]"])
    (simp add: harness_start_def spawning_def harness_step_def fetch_add_def counting_def)

text \<open>The harness ends: once \<open>main\<close> waits for its clients, every continuation in which they read the flag as stored is finite,
  with at most four more steps per client and one of \<open>main\<close>, and such a step is possible until \<open>main\<close> reports, with
  the figures read before. (A client in \<open>send\<close> can always move: \<open>send\<close> returns.)\<close>

theorem harness_ends:
  assumes "harness_run n evs (harness_start k) = Some h" and "main_at h = JoiningAll e b"
    and "harness_run n evs' h = Some h'" and "\<forall>j. ReadsStop j False \<notin> set evs'"
  shows "length evs' \<le> 4 * k + 1 \<and>
    ((\<exists>ev. harness_step n ev h' \<noteq> None \<and> (\<forall>j. ev \<noteq> ReadsStop j False)) \<or> main_at h' = Reporting e b)"
proof -
  have run: "harness_run n (evs @ evs') (harness_start k) = Some h'"
    using assms(1,3) by (simp add: harness_run_append)
  from harness_run_inv [OF assms(1)] assms(2) have "length (workers h) \<le> k" by (simp add: harness_inv_def)
  with harness_run_left [OF assms(3) _ assms(4)] harness_left_le [OF assms(2)] assms(2)
  have "length evs' \<le> 4 * k + 1" "main_at h' = JoiningAll e b \<or> main_at h' = Reporting e b" by fastforce+
  moreover from harness_run_inv [OF run] have "stop h' = stored_stop (main_at h')" "Counting False False \<notin> set (workers h')"
    by (simp_all add: harness_inv_def counters_ok_def)
  ultimately show ?thesis using harness_not_stuck [of h' e b n] by auto
qed

end
