(* ===== verification/Example_Programs.thy ===== *)
theory Example_Programs
  imports Conversation Baseline
begin

text \<open>
  The two demonstration programs, \<^verbatim>\<open>examples/server.rs\<close> and \<^verbatim>\<open>examples/client.rs\<close>, over the models of \<open>Server\<close> and
  \<open>Client\<close>. What they print is a list of \<open>out_line\<close> values, one per line. The text of an event line is what
  \<open>String::from_utf8_lossy\<close> makes of the payload; a text is the list of its code points.
\<close>

section \<open>Lossy decoding of UTF-8\<close>

text \<open>The byte at an index, 0 past the end.\<close>

definition safe_get :: "nat list \<Rightarrow> nat \<Rightarrow> nat" where
  "safe_get xs i = (if i < length xs then xs ! i else 0)"

definition continuation :: "nat \<Rightarrow> bool" where
  "continuation b \<longleftrightarrow> 128 \<le> b \<and> b \<le> 191"

definition second_of_three :: "nat \<Rightarrow> nat \<Rightarrow> bool" where
  "second_of_three b c \<longleftrightarrow>
     (if b = 224 then 160 \<le> c \<and> c \<le> 191 else if b = 237 then 128 \<le> c \<and> c \<le> 159 else continuation c)"

definition second_of_four :: "nat \<Rightarrow> nat \<Rightarrow> bool" where
  "second_of_four b c \<longleftrightarrow>
     (if b = 240 then 144 \<le> c \<and> c \<le> 191 else if b = 244 then 128 \<le> c \<and> c \<le> 143 else continuation c)"

definition REPLACEMENT :: nat where
  "REPLACEMENT = 65533"

text \<open>The first character of a text and the bytes it takes; a byte sequence that cannot go on is replaced as a whole.\<close>

definition utf8_char :: "nat \<Rightarrow> nat list \<Rightarrow> nat \<times> nat" where
  "utf8_char b bs =
     (let c1 = safe_get bs 0; c2 = safe_get bs 1; c3 = safe_get bs 2 in
      if b < 128 then (b, 1)
      else if 194 \<le> b \<and> b \<le> 223 then
        (if continuation c1 then ((b - 192) * 64 + (c1 - 128), 2) else (REPLACEMENT, 1))
      else if 224 \<le> b \<and> b \<le> 239 then
        (if \<not> second_of_three b c1 then (REPLACEMENT, 1)
         else if \<not> continuation c2 then (REPLACEMENT, 2)
         else ((b - 224) * 4096 + (c1 - 128) * 64 + (c2 - 128), 3))
      else if 240 \<le> b \<and> b \<le> 244 then
        (if \<not> second_of_four b c1 then (REPLACEMENT, 1)
         else if \<not> continuation c2 then (REPLACEMENT, 2)
         else if \<not> continuation c3 then (REPLACEMENT, 3)
         else ((b - 240) * 262144 + (c1 - 128) * 4096 + (c2 - 128) * 64 + (c3 - 128), 4))
      else (REPLACEMENT, 1))"

lemma utf8_char_takes: "0 < snd (utf8_char b bs)"
  by (simp add: utf8_char_def Let_def)

function utf8_lossy :: "nat list \<Rightarrow> nat list" where
  "utf8_lossy [] = []"
| "utf8_lossy (b # bs) = fst (utf8_char b bs) # utf8_lossy (drop (snd (utf8_char b bs) - 1) bs)"
  by pat_completeness auto
termination
  by (relation "measure length") auto

definition from_utf8_lossy :: "bytes \<Rightarrow> nat list" where
  "from_utf8_lossy bs = utf8_lossy (map unat bs)"

text \<open>The encoding it undoes.\<close>

definition utf8 :: "nat \<Rightarrow> nat list" where
  "utf8 c =
     (if c < 128 then [c]
      else if c < 2048 then [192 + c div 64, 128 + c mod 64]
      else if c < 65536 then [224 + c div 4096, 128 + c div 64 mod 64, 128 + c mod 64]
      else [240 + c div 262144, 128 + c div 4096 mod 64, 128 + c div 64 mod 64, 128 + c mod 64])"

definition scalar_value :: "nat \<Rightarrow> bool" where
  "scalar_value c \<longleftrightarrow> c < 55296 \<or> 57344 \<le> c \<and> c < 1114112"

definition utf8_bytes :: "nat list \<Rightarrow> bytes" where
  "utf8_bytes cs = map word_of_nat (concat (map utf8 cs))"

lemmas utf8_defs = utf8_char_def utf8_def safe_get_def continuation_def second_of_three_def second_of_four_def

lemma utf8_char_1: "c < 128 \<Longrightarrow> \<exists>b bs. utf8 c = b # bs \<and> utf8_char b (bs @ rest) = (c, Suc (length bs))"
  by (simp add: utf8_defs)

lemma utf8_char_2:
  assumes "128 \<le> c" and "c < 2048"
  shows "\<exists>b bs. utf8 c = b # bs \<and> utf8_char b (bs @ rest) = (c, Suc (length bs))"
proof -
  have "2 \<le> c div 64" "c div 64 < 32" using assms by linarith+
  with assms show ?thesis by (simp add: utf8_defs)
qed

lemma base_64:
  fixes c :: nat
  shows "c = c div 4096 * 4096 + c div 64 mod 64 * 64 + c mod 64"
    and "c div 4096 = c div 262144 * 64 + c div 4096 mod 64"
proof -
  have eqs: "c div 4096 = c div 64 div 64" "c div 262144 = c div 4096 div 64" by (simp_all add: div_mult2_eq [symmetric])
  have split: "n = n div 64 * 64 + n mod 64" for n :: nat by simp
  show "c div 4096 = c div 262144 * 64 + c div 4096 mod 64" using split [of "c div 4096"] by (simp only: eqs(2))
  have "c div 64 = c div 4096 * 64 + c div 64 mod 64" using split [of "c div 64"] by (simp only: eqs(1))
  with split [of c] show "c = c div 4096 * 4096 + c div 64 mod 64 * 64 + c mod 64" by linarith
qed

lemma utf8_char_3:
  assumes "2048 \<le> c" and "c < 65536" and "scalar_value c"
  shows "\<exists>b bs. utf8 c = b # bs \<and> utf8_char b (bs @ rest) = (c, Suc (length bs))"
proof -
  let ?x = "c div 4096" and ?y = "c div 64 mod 64" and ?z = "c mod 64"
  have c: "c = ?x * 4096 + ?y * 64 + ?z" by (rule base_64(1))
  have "?x < 16" "?x = 0 \<Longrightarrow> 32 \<le> ?y" "?x = 13 \<Longrightarrow> ?y < 32"
    using assms c unfolding scalar_value_def by linarith+
  then have "second_of_three (224 + ?x) (128 + ?y)"
    by (auto simp: second_of_three_def continuation_def)
  with assms(1,2) c [symmetric] \<open>?x < 16\<close> show ?thesis
    by (simp add: utf8_def utf8_char_def safe_get_def continuation_def)
qed

lemma utf8_char_4:
  assumes "65536 \<le> c" and "scalar_value c"
  shows "\<exists>b bs. utf8 c = b # bs \<and> utf8_char b (bs @ rest) = (c, Suc (length bs))"
proof -
  let ?w = "c div 262144" and ?x = "c div 4096 mod 64" and ?y = "c div 64 mod 64" and ?z = "c mod 64"
  have c: "c = ?w * 262144 + ?x * 4096 + ?y * 64 + ?z" using base_64 [of c] by linarith
  have "?w < 5" "?w = 0 \<Longrightarrow> 16 \<le> ?x" "?w = 4 \<Longrightarrow> ?x < 16"
    using assms c unfolding scalar_value_def by linarith+
  then have "second_of_four (240 + ?w) (128 + ?x)"
    by (auto simp: second_of_four_def continuation_def)
  moreover have "?y \<le> 63" "?z \<le> 63" by (simp_all add: less_Suc_eq_le [symmetric])
  ultimately show ?thesis using assms(1) c [symmetric] \<open>?w < 5\<close>
    by (simp add: utf8_def utf8_char_def safe_get_def continuation_def Let_def)
qed

lemma utf8_char_utf8:
  assumes "scalar_value c"
  obtains b bs where "utf8 c = b # bs" "utf8_char b (bs @ rest) = (c, Suc (length bs))"
  using utf8_char_1 [of c rest] utf8_char_2 [of c rest] utf8_char_3 [OF _ _ assms, of rest] utf8_char_4 [OF _ assms, of rest]
  by (meson not_less)

lemma utf8_lossy_utf8: "\<forall>c \<in> set cs. scalar_value c \<Longrightarrow> utf8_lossy (concat (map utf8 cs)) = cs"
proof (induction cs)
  case (Cons c cs)
  then obtain b bs where "utf8 c = b # bs" "utf8_char b (bs @ concat (map utf8 cs)) = (c, Suc (length bs))"
    using utf8_char_utf8 [of c "concat (map utf8 cs)"] by auto
  with Cons show ?case by simp
qed simp

lemma utf8_bytes_small: "scalar_value c \<Longrightarrow> b \<in> set (utf8 c) \<Longrightarrow> b < 256"
  by (auto simp: utf8_def scalar_value_def split: if_splits)

lemma from_utf8_lossy_utf8: "\<forall>c \<in> set cs. scalar_value c \<Longrightarrow> from_utf8_lossy (utf8_bytes cs) = cs"
proof -
  assume cs: "\<forall>c \<in> set cs. scalar_value c"
  then have "\<forall>b \<in> set (concat (map utf8 cs)). b < 256" by (auto dest: utf8_bytes_small)
  then have "map unat (map (word_of_nat :: nat \<Rightarrow> u8) (concat (map utf8 cs))) = concat (map utf8 cs)"
    unfolding map_map by (intro map_idI) (auto simp: unat_of_nat)
  with utf8_lossy_utf8 [OF cs] show ?thesis by (simp only: from_utf8_lossy_def utf8_bytes_def)
qed


section \<open>The server program\<close>

datatype out_line = ListeningOn socket_addr | GotBatch usize | EventLine "nat list" | Acked u32

text \<open>\<open>env::args().nth(1)\<close>, or the default address.\<close>

definition addr_arg :: "string list \<Rightarrow> string" where
  "addr_arg argv = (if 1 < length argv then argv ! 1 else ''127.0.0.1:5044'')"

definition demo_server_builder :: "'acceptor server_builder" where
  "demo_server_builder = channel_capacity 256 (keepalive (from_secs 15) server_builder_new)"

text \<open>\<open>main\<close> up to the first \<open>recv\<close>; \<open>None\<close> is a panic.\<close>

definition demo_server_start ::
    "('w, string, 'l) listening \<Rightarrow> string list \<Rightarrow> 'w \<Rightarrow> ((out_line list \<times> 'acceptor server \<times> sys) result \<times> 'w) option" where
  "demo_server_start net argv w =
     (case builder_bind net demo_server_builder (addr_arg argv) w of
        None \<Rightarrow> None
      | Some (Inl e, w) \<Rightarrow> Some (Inl e, w)
      | Some (Inr (server, s), w) \<Rightarrow> Some (Inr ([ListeningOn (local_addr server)], server, s), w))"

text \<open>One turn of the loop; \<open>None\<close> while \<open>recv\<close> waits. When the channel has ended \<open>main\<close> returns, which drops the server.\<close>

definition demo_server_turn :: "sys \<Rightarrow> (out_line list \<times> sys) option" where
  "demo_server_turn s =
     (case server_recv s of
        None \<Rightarrow> None
      | Some (None, s) \<Rightarrow> Some ([], server_drop s)
      | Some (Some b, s) \<Rightarrow>
          Some (GotBatch (batch_len b) # map (\<lambda>ev. EventLine (from_utf8_lossy ev)) (batch_events b),
                s\<lparr>chans := batch_ack b (chans s)\<rparr>))"

lemma demo_server_drains: "map_option snd (demo_server_turn s) = drain_turn s"
  by (auto simp: demo_server_turn_def drain_turn_def split: option.split prod.split)

section \<open>The client program\<close>

definition demo_client_builder :: "'conn client_builder" where
  "demo_client_builder = ack_timeout (from_secs 30) (compression_level 3 client_builder_new)"

definition demo_events :: "(string \<times> string) list list" where
  "demo_events =
     [[(''timestamp'', ''2026-04-09T10:00:00Z''), (''level'', ''info''), (''msg'', ''hello'')],
      [(''timestamp'', ''2026-04-09T10:00:01Z''), (''level'', ''warn''), (''msg'', ''uh oh'')],
      [(''timestamp'', ''2026-04-09T10:00:02Z''), (''level'', ''error''), (''msg'', ''boom'')]]"

text \<open>
  \<open>main\<close> when the awaits inside \<open>send\<close> resolve as \<open>es\<close> says: what it prints and what it returns. \<open>None\<close>: a panic, or \<open>es\<close>
  is not a complete run of \<open>send\<close>. The last component is what has gone into the stream.
\<close>

definition demo_client ::
    "('w, string, 'sock, 's, 'conn, 'name) network \<Rightarrow> ((string \<times> string) list \<Rightarrow> string + bytes) \<Rightarrow> 'd flate2 option \<Rightarrow>
     ('s \<Rightarrow> 'w \<Rightarrow> unit result \<times> 'w) \<Rightarrow> string list \<Rightarrow> send_event list \<Rightarrow> 'w \<Rightarrow> (out_line list \<times> unit result \<times> bytes) option" where
  "demo_client net to_vec zl framed_close argv es w =
     (case builder_connect net demo_client_builder (addr_arg argv) w of
        (Inl e, w) \<Rightarrow> Some ([], Inl e, [])
      | (Inr client, w) \<Rightarrow>
          (case send_run zl client (send_start to_vec zl demo_events, []) es of
             Some (SendReturned (Inl e), out) \<Rightarrow> Some ([], Inl e, out)
           | Some (SendReturned (Inr acked), out) \<Rightarrow>
               Some ([Acked acked], fst (client_close framed_close client w), out)
           | _ \<Rightarrow> None))"

lemma demo_events_length [simp]: "length demo_events = 3" "demo_events \<noteq> []"
  by (simp_all add: demo_events_def)

lemma builder_connect_level:
  "builder_connect net self addr w = (Inr client, w') \<Longrightarrow> cl_compression_level client = b_compression_level self"
  by (auto simp: builder_connect_def split: if_splits prod.splits sum.splits list.splits)

lemma demo_client_level: "builder_connect net demo_client_builder addr w = (Inr client, w') \<Longrightarrow> cl_compression_level client = 3"
  by (auto dest!: builder_connect_level simp: demo_client_builder_def ack_timeout_def compression_level_def
      client_builder_new_def client_builder_default_def)

text \<open>A network that always answers, and a run of the client program on it.\<close>

definition example_network :: "(unit, string, unit, unit, unit, string) network" where
  "example_network =
     \<lparr>sockets_of = \<lparr>tcp_socket_new_v4 = (\<lambda>w. (Inr (), w)), tcp_socket_new_v6 = (\<lambda>w. (Inr (), w)),
                    socket_bind = (\<lambda>s a w. (Inr s, w)), socket_connect = (\<lambda>s a w. (Inr (), w)), gen_range = (\<lambda>n w. (0, w))\<rparr>,
      lookup_host = (\<lambda>a w. (Inr [SockV4 [127, 0, 0, 1] 5044], w)), tcp_connect = (\<lambda>a w. (Inr (), w)),
      set_nodelay = (\<lambda>s w. (Inr (), w)), server_name = Some, tls_connect = (\<lambda>c n s w. (Inr s, w))\<rparr>"

definition compact_vec :: "(string \<times> string) list \<Rightarrow> string + bytes" where
  "compact_vec fds = Inr (ascii (compact_object fds))"

definition demo_awaits :: "send_event list" where
  "demo_awaits = all_written (example_client 3) 3 @ acks [0] @ acks [3]"

definition demo_written :: bytes where
  "demo_written = batch_wire (Some stored_flate2) (example_client 3) 3 (numbered 0 (map (ascii \<circ> compact_object) demo_events))"

lemma compact_vec_serialized: "serialized compact_vec evs (map (ascii \<circ> compact_object) evs)"
  by (induction evs) (simp_all add: serialized_def compact_vec_def)

lemma compact_vec_short: "\<forall>ev \<in> set demo_events. \<forall>d. compact_vec ev = Inr d \<longrightarrow> length d < 2 ^ 32"
  by (simp add: demo_events_def compact_vec_def ascii_def compact_object_def compact_field_def)

lemma demo_connects:
  "builder_connect example_network demo_client_builder addr () = (Inr (example_client 3), ())"
  by (simp add: builder_connect_def example_network_def demo_client_builder_def ack_timeout_def compression_level_def
      client_builder_new_def client_builder_default_def open_stream_def wrap_stream_def example_client_def)

lemma demo_client_run:
  "demo_client example_network compact_vec (Some stored_flate2) (\<lambda>s w. (Inr (), w)) [] demo_awaits () =
     Some ([Acked 3], Inr (), demo_written)"
proof -
  have "send_run (Some stored_flate2) (example_client 3) (send_start compact_vec (Some stored_flate2) demo_events, []) demo_awaits =
      Some (SendReturned (Inr 3), demo_written)"
    using send_run_written [of "Some stored_flate2" "example_client 3" "numbered 0 (map (ascii \<circ> compact_object) demo_events)" 3 "[]"]
    by (simp add: demo_awaits_def demo_written_def send_start_ok [OF compact_vec_serialized] acks_def word_le_nat_alt)
  then show ?thesis by (simp add: demo_client_def demo_connects client_close_def)
qed

section \<open>Properties\<close>

text \<open>The demonstration server shows what arrives: for a batch whose payloads are the UTF-8 encodings of some texts it
  prints their number and then each text, unchanged and in order, and acknowledges the batch.\<close>

theorem demo_server_shows:
  assumes "\<forall>t \<in> set texts. \<forall>c \<in> set t. scalar_value c" and "queue s = batch_new (map utf8_bytes texts) seq tx # q"
    and "chans s tx = Pending"
  shows "demo_server_turn s =
    Some (GotBatch (length texts) # map EventLine texts, s\<lparr>queue := q, chans := (chans s)(tx := Sent seq)\<rparr>)"
proof -
  have "map (\<lambda>ev. EventLine (from_utf8_lossy ev)) (map utf8_bytes texts) = map EventLine texts"
    using assms(1) by (simp add: from_utf8_lossy_utf8)
  with assms(2,3) show ?thesis
    by (simp add: demo_server_turn_def server_recv_def batch_len_def batch_events_def batch_new_def batch_ack_def
        batch_drop_def oneshot_send_def comp_def)
qed

theorem demo_server_shows_witness:
  "demo_server_turn example_delivered =
     Some ([GotBatch 1, EventLine [123, 125]], example_delivered\<lparr>queue := [], chans := (chans example_delivered)(0 := Sent 1)\<rparr>)"
  using demo_server_shows [of "[[123, 125]]" example_delivered 1 0 "[]"]
  by (simp add: example_delivered_def scalar_value_def utf8_bytes_def utf8_def)

text \<open>The demonstration client: if it prints a number, that number is 3, its batch of three has gone out compressed,
  complete and with nothing else, and the last frame it read is an acknowledgement of at least 3; a server
  that reads those frames hands a batch of the three payloads to its application. In every other case it
  prints nothing and ends with the error.\<close>

theorem demo_client_acked:
  assumes "\<forall>ev \<in> set demo_events. \<forall>d. to_vec ev = Inr d \<longrightarrow> length d < 2 ^ 32"
    and "demo_client net to_vec zl framed_close argv es w = Some (printed, r, out)"
  shows "printed = [] \<and> (\<exists>e. r = Inl e) \<or>
    printed = [Acked 3] \<and> (\<exists>ds pre seq. serialized to_vec demo_events ds \<and>
      out = concat (map (wire zl) [Window 3, Compressed (json_wire (numbered 0 ds))]) \<and>
      es = pre @ [Arrived (Some (Inr (Ack seq)))] \<and> 3 \<le> seq \<and>
      (\<forall>cfg tx. events_fit (conn_max_frame_size cfg) (numbered 0 ds) \<longrightarrow>
         fits zl (conn_max_frame_size cfg) (Compressed (json_wire (numbered 0 ds))) \<longrightarrow>
         conn_run zl cfg AwaitWindow (arriving tx [Window 3, Compressed (json_wire (numbered 0 ds))]) =
           Some (Dispatching (batch_new ds 3 tx) tx)))"
proof -
  obtain conn w1 where conn: "builder_connect net demo_client_builder (addr_arg argv) w = (conn, w1)" by fastforce
  show ?thesis
  proof (cases conn)
    case (Inr client)
    with conn assms(2) obtain res where run:
        "send_run zl client (send_start to_vec zl demo_events, []) es = Some (SendReturned res, out)"
        "printed = (case res of Inl e \<Rightarrow> [] | Inr n \<Rightarrow> [Acked n])" "\<And>e. res = Inl e \<Longrightarrow> r = Inl e"
      by (auto simp: demo_client_def split: option.splits send_state.splits sum.splits)
    show ?thesis
    proof (cases res)
      case (Inr n)
      with run(1) send_ok_batch [OF assms(1), of zl client "[]" es n out] obtain ds pre seq where
          ok: "serialized to_vec demo_events ds" "n = 3" "out = batch_wire zl client 3 (numbered 0 ds)"
          "es = pre @ [Arrived (Some (Inr (Ack seq)))]" "3 \<le> seq"
        by auto
      have level: "cl_compression_level client = 3"
        using conn \<open>conn = Inr client\<close> demo_client_level [of net "addr_arg argv" w client w1] by simp
      then have frames: "batch_frames client 3 (numbered 0 ds) = [Window 3, Compressed (json_wire (numbered 0 ds))]"
        by (simp add: batch_frames_def)
      have "conn_run zl cfg AwaitWindow (arriving tx (batch_frames client 3 (numbered 0 ds))) =
          Some (Dispatching (batch_new ds 3 tx) tx)" if "deliverable zl client (conn_max_frame_size cfg) (numbered 0 ds)" for cfg tx
        using batch_frames_dispatch [OF _ _ _ that, of 3 tx] serialized_length [OF ok(1)] by force
      with ok frames run(2) Inr show ?thesis
        by (intro disjI2 conjI exI [of _ ds] exI [of _ pre] exI [of _ seq])
          (simp_all add: batch_wire_frames deliverable_def del: wire.simps)
    qed (use run in auto)
  qed (use conn assms(2) in \<open>auto simp: demo_client_def\<close>)
qed


theorem demo_client_acked_witness:
  "\<exists>ds pre seq. serialized compact_vec demo_events ds \<and>
      demo_written = concat (map (wire (Some stored_flate2)) [Window 3, Compressed (json_wire (numbered 0 ds))]) \<and>
      demo_awaits = pre @ [Arrived (Some (Inr (Ack seq)))] \<and> 3 \<le> seq"
  using demo_client_acked [OF compact_vec_short demo_client_run] by auto

end
