(* ===== verification/Unit_Tests.thy ===== *)
theory Unit_Tests
  imports Conversation
begin

text \<open>
  The unit tests of the crate (the modules \<open>tests\<close> of \<^verbatim>\<open>src/frame.rs\<close>, \<^verbatim>\<open>src/codec.rs\<close>, \<^verbatim>\<open>src/error.rs\<close>, \<^verbatim>\<open>src/server.rs\<close> and
  \<^verbatim>\<open>src/client.rs\<close>), run against the model: a test is a \<open>bool\<close>, false when an assertion fails or an \<open>unwrap\<close> panics. That
  they pass shows that the definitions behave as the authors of the code expect on their own examples.

  A test runs in a build of the crate, so it takes the parameter \<open>zl\<close>; the tests behind the \<open>compression\<close> feature take
  the compressor itself. In the asynchronous tests the task under test and the test body take turns, and
  the test follows the one order in which its channels let them run. An event payload is compared as bytes where the
  test parses it first.
\<close>

section \<open>Frames and codec\<close>

text \<open>\<open>Frame::decode(&mut buf).unwrap().unwrap()\<close> and \<open>Frame::decode(&mut buf).unwrap().is_none()\<close>.\<close>

definition unwrap_frame :: "decoded option \<Rightarrow> (frame \<times> bytes) option" where
  "unwrap_frame d = (case d of Some (Inr (Some f), buf) \<Rightarrow> Some (f, buf) | _ \<Rightarrow> None)"

definition incomplete :: "decoded option \<Rightarrow> bytes option" where
  "incomplete d = (case d of Some (Inr None, buf) \<Rightarrow> Some buf | _ \<Rightarrow> None)"

definition window_round_trip :: "'d flate2 option \<Rightarrow> bool" where
  "window_round_trip zl =
     (case encode zl (Window 42) [] of
        None \<Rightarrow> False
      | Some buf \<Rightarrow> buf = [50, 87, 0, 0, 0, 42] \<and> unwrap_frame (decode zl buf) = Some (Window 42, []))"

definition window_partial_returns_none :: "'d flate2 option \<Rightarrow> bool" where
  "window_partial_returns_none zl =
     (case incomplete (decode zl [50, 87, 0, 0]) of None \<Rightarrow> False | Some buf \<Rightarrow> length buf = 4)"

definition invalid_version_errors :: "'d flate2 option \<Rightarrow> bool" where
  "invalid_version_errors zl =
     (map_option fst (decode zl [49, 87, 0, 0, 0, 1]) = Some (Inl (InvalidFrame ''unsupported protocol version'')))"

definition unknown_type_errors :: "'d flate2 option \<Rightarrow> bool" where
  "unknown_type_errors zl = (map_option fst (decode zl [50, 88]) = Some (Inl (InvalidFrame ''unknown frame type'')))"

definition json_round_trip :: "'d flate2 option \<Rightarrow> bool" where
  "json_round_trip zl =
     (let payload = ascii ''{\"hello\":\"world\"}'' in
      case encode zl (Json 7 payload) [] of
        None \<Rightarrow> False
      | Some buf \<Rightarrow>
          subslice buf 0 2 = Some (ascii ''2J'') \<and> length buf = 2 + 4 + 4 + length payload \<and>
          unwrap_frame (decode zl buf) = Some (Json 7 payload, []))"

definition json_partial_returns_none :: "'d flate2 option \<Rightarrow> bool" where
  "json_partial_returns_none zl =
     (case encode zl (Json 1 (ascii ''abc'')) [] of
        None \<Rightarrow> False
      | Some full \<Rightarrow>
          list_all (\<lambda>k. case incomplete (decode zl (take k full)) of None \<Rightarrow> False | Some partial \<Rightarrow> length partial = k)
            [0..<length full])"

definition json_oversize_errors :: "'d flate2 option \<Rightarrow> bool" where
  "json_oversize_errors zl =
     (let buf = extend_from_slice (ascii ''2J'') [];
          buf = extend_from_slice (to_be_bytes 0) buf;
          buf = extend_from_slice (to_be_bytes 10) buf;
          buf = extend_from_slice (replicate 10 0) buf
      in map_option fst (decode_with_limit zl buf 5) = Some (Inl (FrameTooLarge 10 5)))"

definition ack_round_trip :: "'d flate2 option \<Rightarrow> bool" where
  "ack_round_trip zl =
     (case encode zl (Ack 99) [] of
        None \<Rightarrow> False
      | Some buf \<Rightarrow> buf = [50, 65, 0, 0, 0, 99] \<and> map_option fst (unwrap_frame (decode zl buf)) = Some (Ack 99))"

definition ack_zero_round_trip :: "'d flate2 option \<Rightarrow> bool" where
  "ack_zero_round_trip zl =
     (case encode zl (Ack 0) [] of
        None \<Rightarrow> False
      | Some buf \<Rightarrow> map_option fst (unwrap_frame (decode zl buf)) = Some (Ack 0))"

definition ack_partial_returns_none :: "'d flate2 option \<Rightarrow> bool" where
  "ack_partial_returns_none zl = (incomplete (decode zl [50, 65, 0, 0]) \<noteq> None)"

definition compressed_round_trip :: "'d flate2 \<Rightarrow> bool" where
  "compressed_round_trip z =
     (case encode (Some z) (Json 1 (ascii ''{\"a\":1}'')) [] of
        None \<Rightarrow> False
      | Some inner \<Rightarrow>
          (case encode (Some z) (Json 2 (ascii ''{\"b\":2}'')) inner of
             None \<Rightarrow> False
           | Some inner \<Rightarrow>
               (case encode (Some z) (Compressed inner) [] of
                  None \<Rightarrow> False
                | Some buf \<Rightarrow> map_option fst (unwrap_frame (decode (Some z) buf)) = Some (Compressed inner))))"

definition compressed_corrupted_payload_errors :: "'d flate2 \<Rightarrow> bool" where
  "compressed_corrupted_payload_errors z =
     (let buf = extend_from_slice (ascii ''2C'') [];
          buf = extend_from_slice (to_be_bytes 4) buf;
          buf = extend_from_slice [255, 255, 255, 255] buf
      in case decode (Some z) buf of Some (Inl (Compression e), _) \<Rightarrow> True | _ \<Rightarrow> False)"

definition compressed_partial_returns_none :: "'d flate2 \<Rightarrow> bool" where
  "compressed_partial_returns_none z =
     (case encode (Some z) (Compressed (ascii ''hello world hello world hello world hello world'')) [] of
        None \<Rightarrow> False
      | Some full \<Rightarrow> list_all (\<lambda>k. incomplete (decode (Some z) (take k full)) \<noteq> None) [0..<length full])"

definition encode_then_decode_window :: "'d flate2 option \<Rightarrow> bool" where
  "encode_then_decode_window zl =
     (case codec_encode zl codec_new (Window 5) [] of
        Some (Inr _, buf) \<Rightarrow> map_option fst (unwrap_frame (codec_decode zl codec_new buf)) = Some (Window 5)
      | _ \<Rightarrow> False)"

definition decode_streams_back_to_back_frames :: "'d flate2 option \<Rightarrow> bool" where
  "decode_streams_back_to_back_frames zl =
     (let codec = codec_new in
      case do { (_, buf) \<leftarrow> codec_encode zl codec (Window 2) [];
                (_, buf) \<leftarrow> codec_encode zl codec (Json 1 (ascii ''{}'')) buf;
                (_, buf) \<leftarrow> codec_encode zl codec (Json 2 (ascii ''[]'')) buf;
                (f1, buf) \<leftarrow> unwrap_frame (codec_decode zl codec buf);
                (f2, buf) \<leftarrow> unwrap_frame (codec_decode zl codec buf);
                (f3, buf) \<leftarrow> unwrap_frame (codec_decode zl codec buf);
                Some (f1, f2, f3, buf) } of
        None \<Rightarrow> False
      | Some (f1, f2, f3, buf) \<Rightarrow>
          f1 = Window 2 \<and> f2 = Json 1 (ascii ''{}'') \<and> f3 = Json 2 (ascii ''[]'') \<and> buf = [])"

definition io_error_converts_via_from :: bool where
  "io_error_converts_via_from =
     (let io = IoError (OtherKind 0) ''boom''; err = error_from_io io in
      (case err of Io _ \<Rightarrow> True | _ \<Rightarrow> False) \<and> error_source err \<noteq> None)"

definition display_format_includes_context :: bool where
  "display_format_includes_context = (display (FrameTooLarge 100 10) = ''frame too large: 100 > 10'')"


section \<open>Server\<close>

text \<open>A one-shot channel just created, and what its receiver sees.\<close>

definition fresh_chans :: oneshots where
  "fresh_chans = (\<lambda>_. Pending)"

definition explicit_ack_sends_last_seq :: bool where
  "explicit_ack_sends_last_seq = (batch_ack (batch_new [ascii ''null''] 7 0) fresh_chans 0 = Sent 7)"

definition drop_without_ack_still_sends_last_seq :: bool where
  "drop_without_ack_still_sends_last_seq =
     (snd (batch_drop (batch_new [ascii ''null'', ascii ''null''] 12 0) fresh_chans) 0 = Sent 12)"

definition double_ack_is_a_noop :: bool where
  "double_ack_is_a_noop = (batch_ack (batch_new [] 3 0) fresh_chans 0 = Sent 3)"

text \<open>The frames a test client has put into the stream, read by the task until it needs more.\<close>

fun serve :: "'d flate2 option \<Rightarrow> connection_config \<Rightarrow> nat \<Rightarrow> conn_state \<times> bytes \<Rightarrow> (conn_state \<times> bytes) option" where
  "serve zl cfg 0 st = Some st"
| "serve zl cfg (Suc k) (st, buf) =
     do { (f, buf) \<leftarrow> unwrap_frame (codec_decode zl (with_max_frame_size (conn_max_frame_size cfg)) buf);
          st \<leftarrow> conn_step zl cfg 0 st (NextItem (Some (Inr f)));
          serve zl cfg k (st, buf) }"

definition served :: "'d flate2 option \<Rightarrow> connection_config \<Rightarrow> frame list \<Rightarrow> conn_state option" where
  "served zl cfg fs =
     do { buf \<leftarrow> encode_all zl codec_new fs [];
          (st, buf) \<leftarrow> serve zl cfg (length fs) (AwaitWindow, buf);
          if buf = [] then Some st else None }"

definition test_config :: "nat option \<Rightarrow> connection_config" where
  "test_config keep = \<lparr>conn_max_frame_size = 1024, conn_keepalive = keep\<rparr>"

text \<open>What follows the batch in both tests: \<open>batch.ack()\<close>, the client reads the acknowledgement, and then closes.\<close>

definition acked_then_closed :: "'d flate2 option \<Rightarrow> connection_config \<Rightarrow> batch \<Rightarrow> nat \<Rightarrow> u32 \<Rightarrow> bool" where
  "acked_then_closed zl cfg b rx seq =
     (case batch_ack b fresh_chans rx of
        Sent v \<Rightarrow>
          (case conn_run zl cfg (Dispatching b rx) [(0, BatchSent True), (0, AckReceived (Some v))] of
             None \<Rightarrow> False
           | Some st \<Rightarrow>
               writing st = Some (Ack seq) \<and>
               conn_run zl cfg st [(0, FrameSent (Inr ())), (0, NextItem None)] = Some (Returned (Inr ())))
      | _ \<Rightarrow> False)"

definition server_processes_uncompressed_batch :: "'d flate2 option \<Rightarrow> bool" where
  "server_processes_uncompressed_batch zl =
     (let cfg = test_config None in
      case served zl cfg [Window 2, Json 1 (ascii ''{\"a\":1}''), Json 2 (ascii ''{\"b\":2}'')] of
        Some (Dispatching b rx) \<Rightarrow>
          batch_len b = 2 \<and> batch_events b = [ascii ''{\"a\":1}'', ascii ''{\"b\":2}''] \<and> acked_then_closed zl cfg b rx 2
      | _ \<Rightarrow> False)"

definition server_forwards_payloads_without_parsing :: "'d flate2 option \<Rightarrow> bool" where
  "server_forwards_payloads_without_parsing zl =
     (let cfg = test_config None in
      case served zl cfg [Window 2, Json 1 (ascii ''not json''), Json 2 (ascii ''{\"ok\":true}'')] of
        Some (Dispatching b rx) \<Rightarrow>
          batch_len b = 2 \<and> batch_events b = [ascii ''not json'', ascii ''{\"ok\":true}''] \<and> acked_then_closed zl cfg b rx 2
      | _ \<Rightarrow> False)"

definition server_rejects_seq_out_of_order :: "'d flate2 option \<Rightarrow> bool" where
  "server_rejects_seq_out_of_order zl =
     (served zl (test_config None) [Window 2, Json 5 (ascii ''{}''), Json 3 (ascii ''{}'')] =
        Some (Returned (Inl (SeqOutOfOrder 3 5))))"

text \<open>Two keepalives are read while the batch is held; after \<open>batch.ack()\<close> the client reads on to the acknowledgement.\<close>

definition server_sends_ack0_keepalive_while_user_holds_batch :: "'d flate2 option \<Rightarrow> bool" where
  "server_sends_ack0_keepalive_while_user_holds_batch zl =
     (let cfg = test_config (Some 20000000) in
      case served zl cfg [Window 1, Json 1 (ascii ''{}'')] of
        Some (Dispatching b rx) \<Rightarrow>
          (case conn_run zl cfg (Dispatching b rx) [(0, BatchSent True), (0, KeepaliveElapsed)] of
             None \<Rightarrow> False
           | Some st \<Rightarrow>
               writing st = Some (Ack 0) \<and>
               (case conn_run zl cfg st [(0, FrameSent (Inr ())), (0, KeepaliveElapsed)] of
                  None \<Rightarrow> False
                | Some st \<Rightarrow>
                    writing st = Some (Ack 0) \<and>
                    (case conn_run zl cfg st [(0, FrameSent (Inr ())), (0, AckReceived (Some (last_seq b)))] of
                       None \<Rightarrow> False
                     | Some st \<Rightarrow>
                         batch_ack b fresh_chans rx = Sent (last_seq b) \<and> writing st = Some (Ack 1) \<and>
                         conn_run zl cfg st [(0, FrameSent (Inr ())), (0, NextItem None)] = Some (Returned (Inr ())))))
      | _ \<Rightarrow> False)"

text \<open>The tests of \<open>Server\<close> run the whole system; \<open>Server::bind\<close> gives the default capacity and keepalive, and
  the channel admits as \<^verbatim>\<open>tokio\<close> documents.\<close>

definition default_config :: connection_config where
  "default_config =
     \<lparr>conn_max_frame_size = sb_max_frame_size (server_builder_default :: unit server_builder),
      conn_keepalive = sb_keepalive (server_builder_default :: unit server_builder)\<rparr>"

definition bound :: "sys option" where
  "bound = Some (serving (room_below (sb_channel_capacity (server_builder_default :: unit server_builder))))"

definition server_bind_accepts_real_tcp_connection :: "'d flate2 option \<Rightarrow> bool" where
  "server_bind_accepts_real_tcp_connection zl =
     (case do { s \<leftarrow> bound;
                server_run zl default_config False
                  [Accept (Accepted (Inr ())), Task 0 (Conn (NextItem (Some (Inr (Window 1))))),
                   Task 0 (Conn (NextItem (Some (Inr (Json 1 (ascii ''{\"x\":42}'')))))), Task 0 (Conn (BatchSent True)), Recv] s } of
        None \<Rightarrow> False
      | Some s \<Rightarrow>
          map events (held s) = [[ascii ''{\"x\":42}'']] \<and>
          (case server_run zl default_config False [Release ByAck 0, Task 0 (Conn (AckReceived (Some 1)))] s of
             None \<Rightarrow> False
           | Some s \<Rightarrow> tasks s 0 = Some (Serving (SendingAck 1))))"

definition server_drop_stops_accept_loop :: "'d flate2 option \<Rightarrow> bool" where
  "server_drop_stops_accept_loop zl =
     (case do { s \<leftarrow> bound; server_run zl default_config False [DropServer, Accept ShutdownSeen] s } of
        None \<Rightarrow> False
      | Some s \<Rightarrow> server_step zl default_config False (Accept (Accepted (Inr ()))) s = None)"

definition active_connections_tracks_open_and_closed :: "'d flate2 option \<Rightarrow> bool" where
  "active_connections_tracks_open_and_closed zl =
     (case bound of
        None \<Rightarrow> False
      | Some s \<Rightarrow>
          active_connections s = 0 \<and>
          (case server_run zl default_config False (replicate 3 (Accept (Accepted (Inr ())))) s of
             None \<Rightarrow> False
           | Some s \<Rightarrow>
               active_connections s = 3 \<and>
               (case server_run zl default_config False (map (\<lambda>i. Task i (Conn (NextItem None))) [0, 1, 2]) s of
                  None \<Rightarrow> False
                | Some s \<Rightarrow> active_connections s = 0)))"

text \<open>\<open>wait_until\<close> polls its condition, here as what the successive polls see; \<open>None\<close> is the panic after the last of them.\<close>

fun polls :: "nat list \<Rightarrow> (nat \<Rightarrow> bool) \<Rightarrow> unit option" where
  "polls [] cond = None"
| "polls (k # ks) cond = (if cond k then Some () else polls ks cond)"

definition wait_until :: "(nat \<Rightarrow> bool) \<Rightarrow> unit option" where
  "wait_until cond = polls [0..<100] cond"

section \<open>Client\<close>

text \<open>
  A client of a test around a \<open>duplex\<close> pipe that takes everything it writes; the peer reads the written bytes. An event
  stands for the \<open>json!\<close> value it is the text of.
\<close>

definition test_client :: "u32 \<Rightarrow> duration \<Rightarrow> unit client" where
  "test_client level ack_limit =
     \<lparr>cl_stream = (), cl_codec = codec_new, cl_compression_level = level, cl_write_timeout = None,
      cl_ack_timeout = Some ack_limit\<rparr>"

definition sent_batch :: "'d flate2 option \<Rightarrow> unit client \<Rightarrow> bytes list \<Rightarrow> nat \<Rightarrow> (send_state \<times> bytes) option" where
  "sent_batch zl client evs k =
     send_run zl client (send_start Inr zl evs, []) (replicate k (Fed (Inr ())) @ [Flushed (Inr ())])"

definition peer_next :: "'d flate2 option \<Rightarrow> bytes \<Rightarrow> (frame \<times> bytes) option" where
  "peer_next zl buf = unwrap_frame (codec_decode zl codec_new buf)"

definition send_uncompressed_writes_window_then_json_then_returns_on_ack :: "'d flate2 option \<Rightarrow> bool" where
  "send_uncompressed_writes_window_then_json_then_returns_on_ack zl =
     (let client = test_client 0 (from_secs 5) in
      case do { (st, out) \<leftarrow> sent_batch zl client [ascii ''{\"a\":1}'', ascii ''{\"b\":2}''] 3;
                (f1, buf) \<leftarrow> peer_next zl out;
                (f2, buf) \<leftarrow> peer_next zl buf;
                (f3, buf) \<leftarrow> peer_next zl buf;
                (st, out) \<leftarrow> send_run zl client (st, out) (acks [2]);
                Some (f1, f2, f3, st) } of
        None \<Rightarrow> False
      | Some (f1, f2, f3, st) \<Rightarrow>
          f1 = Window 2 \<and> f2 = Json 1 (ascii ''{\"a\":1}'') \<and> (case f3 of Json seq _ \<Rightarrow> seq = 2 | _ \<Rightarrow> False) \<and>
          st = SendReturned (Inr 2))"

definition send_compressed_emits_window_then_compressed_frame :: "'d flate2 \<Rightarrow> bool" where
  "send_compressed_emits_window_then_compressed_frame z =
     (let client = test_client 3 (from_secs 5) in
      case do { (st, out) \<leftarrow> sent_batch (Some z) client [ascii ''{\"a\":1}'', ascii ''{\"b\":2}''] 2;
                (f1, buf) \<leftarrow> peer_next (Some z) out;
                (f2, buf) \<leftarrow> peer_next (Some z) buf;
                buf \<leftarrow> (case f2 of Compressed inner \<Rightarrow> Some inner | _ \<Rightarrow> None);
                (f3, buf) \<leftarrow> unwrap_frame (decode (Some z) buf);
                (f4, buf) \<leftarrow> unwrap_frame (decode (Some z) buf);
                (st, out) \<leftarrow> send_run (Some z) client (st, out) (acks [2]);
                Some (f1, f3, f4, st) } of
        None \<Rightarrow> False
      | Some (f1, f3, f4, st) \<Rightarrow>
          f1 = Window 2 \<and> (case f3 of Json seq _ \<Rightarrow> seq = 1 | _ \<Rightarrow> False) \<and> (case f4 of Json seq _ \<Rightarrow> seq = 2 | _ \<Rightarrow> False) \<and>
          st = SendReturned (Inr 2))"

definition send_returns_ack_timeout_when_peer_silent :: "'d flate2 option \<Rightarrow> bool" where
  "send_returns_ack_timeout_when_peer_silent zl =
     (let client = test_client 0 50000000 in
      map_option fst (do { s \<leftarrow> sent_batch zl client [ascii ''{\"x\":1}''] 2; send_run zl client s [Elapsed] }) =
        Some (SendReturned (Inl AckTimeout)))"

definition send_tolerates_ack0_keepalives :: "'d flate2 option \<Rightarrow> bool" where
  "send_tolerates_ack0_keepalives zl =
     (let client = test_client 0 200000000 in
      case do { (st, out) \<leftarrow> sent_batch zl client [ascii ''{\"x\":1}''] 2;
                (f1, buf) \<leftarrow> peer_next zl out;
                (f2, buf) \<leftarrow> peer_next zl buf;
                (st, out) \<leftarrow> send_run zl client (st, out) (acks [0, 0, 0] @ acks [1]);
                Some (f1, f2, st) } of
        None \<Rightarrow> False
      | Some (f1, f2, st) \<Rightarrow>
          f1 = Window 1 \<and> (case f2 of Json _ _ \<Rightarrow> True | _ \<Rightarrow> False) \<and> st = SendReturned (Inr 1))"

definition invalid_port_range_errors :: "('w, 'a, 'sock, 's, 'conn, 'name) network \<Rightarrow> 'a \<Rightarrow> 'w \<Rightarrow> bool" where
  "invalid_port_range_errors net addr w =
     (case fst (builder_connect net (local_port_range 50000 49000 client_builder_default) addr w) of
        Inl (InvalidConfig _) \<Rightarrow> True
      | _ \<Rightarrow> False)"

text \<open>
  The loopback interface of the tests of the port range: the ports of \<open>busy\<close> are taken, a listener waits at the target, and
  a stream is its local port. \<open>rand\<close> is the random number generator.
\<close>

definition loopback :: "u16 list \<Rightarrow> (u32 \<Rightarrow> u32) \<Rightarrow> (unit, socket_addr, u16, u16, unit, string) network" where
  "loopback busy rand =
     \<lparr>sockets_of =
        \<lparr>tcp_socket_new_v4 = (\<lambda>w. (Inr 0, w)), tcp_socket_new_v6 = (\<lambda>w. (Inr 0, w)),
         socket_bind = (\<lambda>sock addr w.
           let port = (case addr of SockV4 _ p \<Rightarrow> p | SockV6 _ p \<Rightarrow> p) in
           (if port \<in> set busy then Inl (IoError AddrInUse ''address in use'') else Inr port, w)),
         socket_connect = (\<lambda>sock addr w. (Inr sock, w)), gen_range = (\<lambda>n w. (rand n, w))\<rparr>,
      lookup_host = (\<lambda>addr w. (Inr [addr], w)), tcp_connect = (\<lambda>addr w. (Inr 0, w)),
      set_nodelay = (\<lambda>s w. (Inr (), w)), server_name = Some, tls_connect = (\<lambda>c n s w. (Inr s, w))\<rparr>"

text \<open>The first port of an inclusive range that can be bound; \<open>None\<close> is the panic when there is none.\<close>

fun first_free :: "u16 list \<Rightarrow> (u16 \<Rightarrow> bool) \<Rightarrow> u16 option" where
  "first_free [] bind_ok = None"
| "first_free (p # ps) bind_ok = (if bind_ok p then Some p else first_free ps bind_ok)"

definition pick_free_port_in :: "(u16 \<Rightarrow> bool) \<Rightarrow> u16 \<Rightarrow> u16 \<Rightarrow> u16 option" where
  "pick_free_port_in bind_ok range_start range_end =
     first_free (map word_of_nat [unat range_start..<Suc (unat range_end)]) bind_ok"

definition connected_from :: "u16 list \<Rightarrow> (u32 \<Rightarrow> u32) \<Rightarrow> u16 \<Rightarrow> u16 \<Rightarrow> u16 result" where
  "connected_from busy rand start endp =
     (case fst (builder_connect (loopback busy rand) (local_port_range start endp client_builder_default)
             (SockV4 [127, 0, 0, 1] 5044) ()) of
        Inl e \<Rightarrow> Inl e
      | Inr client \<Rightarrow> Inr (cl_stream client))"

definition local_port_range_uses_port_within_range :: "(u32 \<Rightarrow> u32) \<Rightarrow> u16 \<Rightarrow> bool" where
  "local_port_range_uses_port_within_range rand port = (connected_from [] rand port port = Inr port)"

definition local_port_range_skips_busy_port :: "(u32 \<Rightarrow> u32) \<Rightarrow> u16 \<Rightarrow> bool" where
  "local_port_range_skips_busy_port rand busy =
     (let other = (if busy = 45300 then 45301 else 45300) in connected_from [busy] rand 45300 45301 = Inr other)"

definition local_port_range_exhausted_errors :: "(u32 \<Rightarrow> u32) \<Rightarrow> u16 \<Rightarrow> bool" where
  "local_port_range_exhausted_errors rand port = (connected_from [port] rand port port = Inl NoLocalPortAvailable)"

section \<open>They pass\<close>

lemma wait_until_iff: "wait_until cond = Some () \<longleftrightarrow> (\<exists>k < 100. cond k)"
proof -
  have "polls ks cond = Some () \<longleftrightarrow> (\<exists>k \<in> set ks. cond k)" for ks by (induction ks) auto
  then show ?thesis by (auto simp: wait_until_def)
qed

lemma pick_free_port_in_some:
  assumes "pick_free_port_in bind_ok range_start range_end = Some p"
  shows "bind_ok p" and "range_start \<le> p" and "p \<le> range_end"
proof -
  have *: "first_free ps bind_ok = Some p \<Longrightarrow> bind_ok p \<and> p \<in> set ps" for ps by (induction ps) (auto split: if_splits)
  from * [of "map word_of_nat [unat range_start..<Suc (unat range_end)]"] assms obtain k where
    k: "bind_ok p" "p = word_of_nat k" "unat range_start \<le> k" "k \<le> unat range_end"
    by (auto simp: pick_free_port_in_def less_Suc_eq_le simp del: upt_Suc)
  moreover have "unat range_end < 2 ^ 16" by (rule order_less_le_trans [OF unsigned_less]) simp
  with k(4) have "k < 2 ^ 16" by simp
  ultimately show "bind_ok p" and "range_start \<le> p" and "p \<le> range_end"
    by (simp_all add: word_le_nat_alt unat_of_nat)
qed

lemmas frame_test_defs = window_round_trip_def window_partial_returns_none_def invalid_version_errors_def
  unknown_type_errors_def json_round_trip_def json_partial_returns_none_def json_oversize_errors_def ack_round_trip_def
  ack_zero_round_trip_def ack_partial_returns_none_def encode_then_decode_window_def
  decode_streams_back_to_back_frames_def unwrap_frame_def incomplete_def

lemmas evaluate = decode_parse decode_with_limit_parse codec_decode_parse codec_encode_def codec_new_def codec_default_def
  frame_consts buffer_defs to_be_bytes_def ascii_def DEFAULT_MAX_FRAME_SIZE_def with_max_frame_size_def

lemma window_tests: "window_round_trip zl \<and> window_partial_returns_none zl \<and> invalid_version_errors zl \<and> unknown_type_errors zl"
  by (simp add: frame_test_defs evaluate)

lemma ack_tests: "ack_round_trip zl \<and> ack_zero_round_trip zl \<and> ack_partial_returns_none zl"
  by (simp add: frame_test_defs evaluate)

lemma json_tests: "json_round_trip zl \<and> json_oversize_errors zl"
  by (simp add: frame_test_defs evaluate)

lemma json_partial_test: "json_partial_returns_none zl"
  by (simp add: frame_test_defs evaluate upt_rec)

lemma codec_tests: "encode_then_decode_window zl \<and> decode_streams_back_to_back_frames zl"
  by (simp add: frame_test_defs evaluate)

lemma batch_tests:
  "explicit_ack_sends_last_seq \<and> drop_without_ack_still_sends_last_seq \<and> double_ack_is_a_noop"
  by (simp add: explicit_ack_sends_last_seq_def drop_without_ack_still_sends_last_seq_def double_ack_is_a_noop_def
      fresh_chans_def batch_ack_def batch_drop_def batch_new_def oneshot_send_def)


lemma error_tests: "io_error_converts_via_from \<and> display_format_includes_context"
proof -
  have "decimal 100 = ''100''" "decimal 10 = ''10''" by code_simp+
  then show ?thesis by (simp add: io_error_converts_via_from_def error_from_io_def display_format_includes_context_def)
qed

lemmas serve_test_defs = served_def test_config_def acked_then_closed_def batch_len_def batch_events_def fresh_chans_def
  batch_ack_def batch_drop_def batch_new_def oneshot_send_def start_window_def window_loop_def push_json_def unwrap_frame_def

lemma serve_tests:
  "server_processes_uncompressed_batch zl \<and> server_forwards_payloads_without_parsing zl \<and> server_rejects_seq_out_of_order zl"
  by (simp add: server_processes_uncompressed_batch_def server_forwards_payloads_without_parsing_def
      server_rejects_seq_out_of_order_def serve_test_defs evaluate word_le_nat_alt)

lemma keepalive_test: "server_sends_ack0_keepalive_while_user_holds_batch zl"
  by (simp add: server_sends_ack0_keepalive_while_user_holds_batch_def serve_test_defs evaluate)

lemma system_tests:
  "server_bind_accepts_real_tcp_connection zl \<and> server_drop_stops_accept_loop zl \<and>
   active_connections_tracks_open_and_closed zl"
  by (simp add: server_bind_accepts_real_tcp_connection_def server_drop_stops_accept_loop_def
      active_connections_tracks_open_and_closed_def bound_def room_below_def server_builder_default_def
      serving_def default_config_def serve_test_defs server_recv_def server_drop_def leave_accept_loop_def
      active_connections_def guard_new_def guard_drop_def end_task_def numeral_3_eq_3)


lemmas send_test_defs = test_client_def sent_batch_def peer_next_def send_start_def json_loop_def feed_then_def acks_def
  unwrap_frame_def

lemma replicate_2_3 [simp]: "replicate 2 x = [x, x]" "replicate 3 x = [x, x, x]"
  by (simp_all add: numeral_eq_Suc)

lemma send_uncompressed_test: "send_uncompressed_writes_window_then_json_then_returns_on_ack zl"
  by (simp add: send_uncompressed_writes_window_then_json_then_returns_on_ack_def send_test_defs evaluate)

lemma send_timeout_tests:
  "send_returns_ack_timeout_when_peer_silent zl \<and> send_tolerates_ack0_keepalives zl"
  by (simp add: send_returns_ack_timeout_when_peer_silent_def send_tolerates_ack0_keepalives_def send_test_defs evaluate)

lemma invalid_range_test: "invalid_port_range_errors net addr w"
  by (simp add: invalid_port_range_errors_def builder_connect_def local_port_range_def word_less_nat_alt)

lemmas port_test_defs = local_port_range_uses_port_within_range_def local_port_range_skips_busy_port_def
  local_port_range_exhausted_errors_def connected_from_def loopback_def builder_connect_def local_port_range_def
  client_builder_default_def open_stream_def wrap_stream_def connect_with_port_range_def try_port_def candidate_port_def

lemma single_port_tests:
  "local_port_range_uses_port_within_range rand port \<and> local_port_range_exhausted_errors rand port"
  by (simp add: port_test_defs)

lemma connected_from_scan:
  assumes "start \<le> endp"
  shows "connected_from busy rand start endp =
    fst (connect_with_port_range (sockets_of (loopback busy rand)) (SockV4 [127, 0, 0, 1] 5044) start endp ())"
  using assms
  by (simp add: connected_from_def builder_connect_def local_port_range_def client_builder_default_def open_stream_def
      wrap_stream_def loopback_def not_less [symmetric] split: prod.split sum.split)

lemma busy_port_test:
  assumes "rand 2 = 0 \<or> rand 2 = 1" and "busy = 45300 \<or> busy = 45301"
  shows "local_port_range_skips_busy_port rand busy"
proof -
  have "connected_from [busy] rand 45300 45301 =
      fst (connect_with_port_range (sockets_of (loopback [busy] rand)) (SockV4 [127, 0, 0, 1] 5044) 45300 45301 ())"
    by (rule connected_from_scan) (simp add: word_le_nat_alt)
  moreover have two: "[0..<2] = [0, 1]" by (simp add: numeral_2_eq_2)
  ultimately show ?thesis using assms
    by (elim disjE; simp add: local_port_range_skips_busy_port_def connect_with_port_range_def loopback_def try_port_def
        candidate_port_def two)
qed


text \<open>The tests of compressed frames, for a compressor that keeps its laws and does not blow short texts up.\<close>

lemma length_ascii: "length (ascii s) = length s"
  by (simp add: ascii_def)

abbreviation compact :: "'d flate2 \<Rightarrow> bool" where
  "compact z \<equiv> \<forall>x. length x \<le> 100 \<longrightarrow> length (zlib_compress z x) \<le> DEFAULT_MAX_FRAME_SIZE"

lemma compressed_fits: "compact z \<Longrightarrow> length x \<le> 100 \<Longrightarrow> fits (Some z) DEFAULT_MAX_FRAME_SIZE (Compressed x)"
  by (auto simp: DEFAULT_MAX_FRAME_SIZE_def)

lemma decode_wire:
  assumes "flate2_laws z" and "fits (Some z) DEFAULT_MAX_FRAME_SIZE f"
  shows "decode (Some z) (wire (Some z) f @ rest) = Some (Inr (Some f), rest)"
  using crate_build.parse_frame_wire [OF crate_build.intro assms(2)] assms(1) by (simp add: decode_parse)

lemma compressed_round_trip_test:
  assumes "flate2_laws z" and "compact z"
  shows "compressed_round_trip z"
proof -
  let ?inner = "wire (Some z) (Json 1 (ascii ''{\"a\":1}'')) @ wire (Some z) (Json 2 (ascii ''{\"b\":2}''))"
  have "fits (Some z) DEFAULT_MAX_FRAME_SIZE (Compressed ?inner)"
    by (rule compressed_fits [OF assms(2)]) (simp add: ascii_def)
  from decode_wire [OF assms(1) this, of "[]"] show ?thesis
    by (simp add: compressed_round_trip_def encode_wire unwrap_frame_def del: wire.simps)
qed

lemma compressed_partial_test:
  assumes "flate2_laws z" and "compact z"
  shows "compressed_partial_returns_none z"
proof -
  let ?f = "Compressed (ascii ''hello world hello world hello world hello world'')"
  have fits: "fits (Some z) DEFAULT_MAX_FRAME_SIZE ?f"
    by (rule compressed_fits [OF assms(2)]) (simp add: ascii_def)
  have "parse_frame (Some z) DEFAULT_MAX_FRAME_SIZE (take k (wire (Some z) ?f)) = Incomplete"
    if "k < length (wire (Some z) ?f)" for k
    using crate_build.parse_frame_prefix [OF crate_build.intro fits, of "take k (wire (Some z) ?f)" "drop k (wire (Some z) ?f)"]
      that assms(1)
    by (simp del: wire.simps)
  then show ?thesis
    by (simp add: compressed_partial_returns_none_def encode_wire incomplete_def decode_parse list_all_iff del: wire.simps)
qed

lemma compressed_corrupted_test:
  assumes "zlib_read z (zlib_decoder z [255, 255, 255, 255]) 8192 = (Inl e, d)"
  shows "compressed_corrupted_payload_errors z"
proof -
  have "zlib_decompress z [255, 255, 255, 255] limit = Inl (Compression e)" for limit
    using assms by (simp add: zlib_decompress_def decompress_loop.simps)
  then show ?thesis by (simp add: compressed_corrupted_payload_errors_def evaluate)
qed

lemma send_compressed_test:
  assumes "flate2_laws z" and "compact z"
  shows "send_compressed_emits_window_then_compressed_frame z"
proof -
  let ?js = "[(1 :: u32, ascii ''{\"a\":1}''), (2, ascii ''{\"b\":2}'')]"
  have inner: "json_wire ?js = wire (Some z) (Json 1 (ascii ''{\"a\":1}'')) @ wire (Some z) (Json 2 (ascii ''{\"b\":2}''))"
    by (simp add: json_wire_Cons [of _ _ _ "Some z"] del: wire.simps)
  have fits: "fits (Some z) DEFAULT_MAX_FRAME_SIZE (Compressed (json_wire ?js))"
    by (rule compressed_fits [OF assms(2)]) (simp add: json_wire_def ascii_def)
  have start: "send_start Inr (Some z) [ascii ''{\"a\":1}'', ascii ''{\"b\":2}''] = FeedingWindow 2 (json_wire ?js)"
    using send_start_ok [of Inr "[ascii ''{\"a\":1}'', ascii ''{\"b\":2}'']" "[ascii ''{\"a\":1}'', ascii ''{\"b\":2}'']" "Some z"]
    by (simp add: serialized_def)
  have "decode (Some z) (wire (Some z) (Window 2) @ rest) = Some (Inr (Some (Window 2)), rest)"
    "decode (Some z) (wire (Some z) (Compressed (json_wire ?js)) @ rest) = Some (Inr (Some (Compressed (json_wire ?js))), rest)"
    "length x \<le> 100 \<Longrightarrow> decode (Some z) (wire (Some z) (Json seq x) @ rest) = Some (Inr (Some (Json seq x)), rest)" for rest seq x
    by (rule decode_wire [OF assms(1)]; use fits in \<open>simp add: DEFAULT_MAX_FRAME_SIZE_def\<close>)+
  note reads = this this(2,3) [where rest = "[]", simplified append_Nil2]
  have codec: "codec_decode (Some z) codec_new buf = decode (Some z) buf" for buf
    by (simp add: codec_decode_def codec_new_def codec_default_def decode_def)
  have "sent_batch (Some z) (test_client 3 (from_secs 5)) [ascii ''{\"a\":1}'', ascii ''{\"b\":2}''] 2 =
      Some (AwaitingAck 2, wire (Some z) (Window 2) @ wire (Some z) (Compressed (json_wire ?js)))"
    by (simp add: sent_batch_def test_client_def start codec_encode_def encode_wire feed_then_def del: wire.simps)
  then show ?thesis
    by (simp add: send_compressed_emits_window_then_compressed_frame_def peer_next_def codec reads [unfolded inner] unwrap_frame_def inner
        length_ascii acks_def del: wire.simps)
qed


section \<open>Properties\<close>

text \<open>The crate's tests of frames, codec and error text pass: with and without compression, the model encodes, decodes,
  waits and refuses as they expect. The compressor keeps its laws, does not blow short texts up, and refuses a stream
  that does not start with a zlib header.\<close>

theorem frame_tests_pass:
  assumes "flate2_laws z" and "\<forall>x. length x \<le> 100 \<longrightarrow> length (zlib_compress z x) \<le> DEFAULT_MAX_FRAME_SIZE"
    and "zlib_read z (zlib_decoder z [255, 255, 255, 255]) 8192 = (Inl e, d)"
  shows "window_round_trip zl \<and> window_partial_returns_none zl \<and> invalid_version_errors zl \<and> unknown_type_errors zl \<and>
    json_round_trip zl \<and> json_partial_returns_none zl \<and> json_oversize_errors zl \<and>
    ack_round_trip zl \<and> ack_zero_round_trip zl \<and> ack_partial_returns_none zl \<and>
    compressed_round_trip z \<and> compressed_corrupted_payload_errors z \<and> compressed_partial_returns_none z \<and>
    encode_then_decode_window zl \<and> decode_streams_back_to_back_frames zl \<and>
    io_error_converts_via_from \<and> display_format_includes_context"
  using window_tests json_tests json_partial_test ack_tests codec_tests error_tests
    compressed_round_trip_test [OF assms(1,2)] compressed_partial_test [OF assms(1,2)] compressed_corrupted_test [OF assms(3)]
  by blast

theorem frame_tests_pass_witness:
  "compressed_round_trip stored_flate2 \<and> compressed_corrupted_payload_errors stored_flate2 \<and> json_round_trip no_zlib"
proof -
  have "\<forall>x. length x \<le> 100 \<longrightarrow> length (zlib_compress stored_flate2 x) \<le> DEFAULT_MAX_FRAME_SIZE"
    by (simp add: zlib_compress_def stored_flate2_def DEFAULT_MAX_FRAME_SIZE_def)
  moreover have "zlib_read stored_flate2 (zlib_decoder stored_flate2 [255, 255, 255, 255]) 8192 = (Inl ''corrupt deflate stream'', None)"
    by (simp add: stored_flate2_def)
  ultimately show ?thesis using frame_tests_pass [OF stored.flate2_laws_axioms, where zl = no_zlib] by blast
qed

text \<open>The crate's tests of batches, connections, the server and the client pass: acknowledgements, batches taken and
  refused, keepalives, accepting and shutting down, the gauge, sends with their timeouts, and the choice of a local port
  whatever the random number generator yields within its range.\<close>

theorem task_tests_pass:
  assumes "flate2_laws z" and "\<forall>x. length x \<le> 100 \<longrightarrow> length (zlib_compress z x) \<le> DEFAULT_MAX_FRAME_SIZE"
    and "rand 2 < 2" and "busy \<in> {45300, 45301}"
  shows "explicit_ack_sends_last_seq \<and> drop_without_ack_still_sends_last_seq \<and> double_ack_is_a_noop \<and>
    server_processes_uncompressed_batch zl \<and> server_forwards_payloads_without_parsing zl \<and>
    server_rejects_seq_out_of_order zl \<and> server_sends_ack0_keepalive_while_user_holds_batch zl \<and>
    server_bind_accepts_real_tcp_connection zl \<and> server_drop_stops_accept_loop zl \<and>
    active_connections_tracks_open_and_closed zl \<and>
    send_uncompressed_writes_window_then_json_then_returns_on_ack zl \<and> send_compressed_emits_window_then_compressed_frame z \<and>
    send_returns_ack_timeout_when_peer_silent zl \<and> send_tolerates_ack0_keepalives zl \<and>
    invalid_port_range_errors net addr w \<and> local_port_range_uses_port_within_range rand port \<and>
    local_port_range_skips_busy_port rand busy \<and> local_port_range_exhausted_errors rand port"
proof -
  have "unat (rand 2) < 2" using assms(3) by (simp add: word_less_nat_alt)
  then have "unat (rand 2) = unat (0 :: u32) \<or> unat (rand 2) = unat (1 :: u32)" by auto
  then have "rand 2 = 0 \<or> rand 2 = 1" by (simp only: word_unat_eq_iff)
  with busy_port_test [of rand busy] assms(4) have "local_port_range_skips_busy_port rand busy" by blast
  then show ?thesis
    by (simp add: batch_tests serve_tests keepalive_test system_tests send_uncompressed_test send_timeout_tests
        send_compressed_test [OF assms(1,2)] invalid_range_test single_port_tests)
qed

theorem task_tests_pass_witness:
  "server_processes_uncompressed_batch no_zlib \<and> send_compressed_emits_window_then_compressed_frame stored_flate2 \<and>
   local_port_range_skips_busy_port (\<lambda>n. n - 1) 45301"
proof -
  have "\<forall>x. length x \<le> 100 \<longrightarrow> length (zlib_compress stored_flate2 x) \<le> DEFAULT_MAX_FRAME_SIZE"
    by (simp add: zlib_compress_def stored_flate2_def DEFAULT_MAX_FRAME_SIZE_def)
  moreover have "(2 :: u32) - 1 < 2" "(45301 :: u16) \<in> {45300, 45301}" by (simp_all add: word_less_nat_alt)
  ultimately show ?thesis
    using task_tests_pass [of stored_flate2 "\<lambda>n. n - 1" 45301 no_zlib "loopback [] (\<lambda>n. 0)" "SockV4 [127, 0, 0, 1] 1" "()" 45300] stored.flate2_laws_axioms
    by simp
qed

end
