(* ===== verification/Spec2Isabelle.thy ===== *)
theory Spec2Isabelle
  imports Fleet Progress Keepalive_Timing Tls Example_Programs Unit_Tests
begin

text \<open>
  A verification library for the crate \<^verbatim>\<open>lumberjack\<close>, an asynchronous client and server for the Lumberjack v2 protocol
  (sources under \<^verbatim>\<open>src/src\<close>, example programs under \<^verbatim>\<open>src/examples\<close>).

  \<^bold>\<open>The program.\<close> A client sends batches of events to a server. A batch is a window frame with the number of events,
  then the events, as frames of their own or as one zlib-compressed frame that holds them; the server collects the window,
  hands the batch to the application through a bounded channel, and acknowledges it with its last sequence number
  once the application has given it up; until then it may send keepalives, acknowledgements of 0. The parts are the error
  type (\<^verbatim>\<open>error.rs\<close>), the frame format (\<^verbatim>\<open>frame.rs\<close>), the codec between frames and byte streams (\<^verbatim>\<open>codec.rs\<close>), the server with its
  batches, connection tasks and accept loop (\<^verbatim>\<open>server.rs\<close>), the client with its source-port selection (\<^verbatim>\<open>client.rs\<close>) and
  the TLS constructors (\<^verbatim>\<open>tls.rs\<close>). Three programs use them: a throughput harness (\<^verbatim>\<open>examples/baseline.rs\<close>) and a
  demonstration server and client.

  \<^bold>\<open>The theories\<close>, each importing what its part of the program calls:
  \<^item> \<open>Lumberjack_Prelude\<close>: bytes, machine integers and the operations of \<open>BytesMut\<close> that the code uses, on byte lists,
    with \<^term>\<open>None\<close> for their panics; big-endian fields; the collections \<open>buffer_defs\<close> and \<open>wire_lemmas\<close>.
  \<^item> \<open>Lumberjack_Error\<close>: \<open>Error\<close>, \<open>Result\<close> and the display texts; the numbers in a message can be read back.
  \<^item> \<open>Zlib_Payload\<close>: \<open>zlib_compress\<close> and \<open>zlib_decompress\<close> over the parameter \<open>flate2\<close>. The locale \<open>flate2_laws\<close> is what the
    code relies on; \<open>payload_codec\<close>, which follows from it, is what the frame layer uses. Decompression ends, keeps within its
    limit whatever the decoder delivers, and inverts compression.
  \<^item> \<open>Frame\<close>: \<open>Frame\<close>, \<open>encode\<close>, \<open>decode\<close>, \<open>decode_with_limit\<close> arm by arm, against a reference grammar \<open>parse_frame\<close>: the decoder
    is the grammar and never panics; round trip; prefixes; progress; final decisions; the length field at its width.
    The locale \<open>crate_build\<close> is the crate built with or without the feature \<^verbatim>\<open>compression\<close>.
  \<^item> \<open>Codec\<close>: \<open>LumberjackCodec\<close>, and \<open>framed_read\<close>, the reading half of \<^verbatim>\<open>tokio_util\<close>'s \<open>Framed\<close>. The locales \<open>decoder\<close> and
    \<open>framing\<close> are the contract between the two: under it what is read does not depend on how the stream is cut, and is what
    was written. Both are interpreted on the codec.
  \<^item> \<open>Batch\<close>: \<open>Batch\<close> and its one-shot channel; the locale \<open>batch_release\<close> is the contract of the three ways to give a
    batch up, interpreted on \<open>ack\<close>, \<open>into_events\<close> and \<open>Drop\<close>.
  \<^item> \<open>Connection\<close>: \<open>run_connection\<close>, a state machine with a state per \<open>await\<close>; a dispatched batch is exactly its window, plain
    or compressed; errors; absence of panics, the allocation for the announced window included. The code checks sequence
    numbers in two places, for plain frames and inside compressed payloads, and so does the model (\<open>push_json\<close>,
    \<open>push_inner_json\<close>).
  \<^item> \<open>Server\<close>: \<open>ServerBuilder\<close>, \<open>bind\<close>, the accept loop, the connection tasks with \<open>ActiveGuard\<close>, \<open>Server\<close> with \<open>recv\<close> and
    \<open>Drop\<close>, as a system whose steps interleave freely; \<open>sys_inv\<close> is its invariant (the counters count, every
    unanswered channel has its batch), proved over all reachable states, and the theorems on acknowledgements,
    the gauge, shutdown and the accept loop rest on it; \<open>sys_ok\<close> is the well-formedness of its tasks and batches.
  \<^item> \<open>Port_Range\<close>: \<open>connect_with_port_range\<close> over a parameter for sockets and random numbers, in 16- and 32-bit words; the scan is
    a permutation of the range; the locale \<open>port_sockets\<close> says that the random offset is within the range.
  \<^item> \<open>Client\<close>: \<open>ClientBuilder\<close>, \<open>connect\<close>, and \<open>send\<close> with its two helpers as a state machine with a state per \<open>await\<close>; \<open>send_inv\<close>
    relates its state to the bytes written; what \<open>Ok\<close> means, that it is reached, that a send
    ends within a number of awaits given by its batch, and the failures.
  \<^item> \<open>Tls\<close>: the two constructors of \<^verbatim>\<open>tls.rs\<close> over a parameter for \<^verbatim>\<open>rustls\<close> and the file system.
  \<^item> \<open>Conversation\<close>: the frames of a batch of the client, seen from the connection task, and acknowledgements read back.
  \<^item> \<open>Session\<close>: a client that sends batch after batch, the network and a connection task composed into one system, with
    reads of any size, timers and failures at any time. The client may send again after an error, as in the code; the
    history variable \<open>resumed\<close> records that it has. \<open>session_inv\<close> relates the bytes under way to the batches of the
    client as long as it has not; \<open>exactly_once_in_order\<close> and \<open>session_completes\<close> rest on it, and
    \<open>resumed_send_confirms_lost_batch\<close> shows that the guarantee is lost with the restriction.
  \<^item> \<open>Delivery_Spec\<close>: what a connection promises, as a specification of its own, a letter box with two atomic steps; sessions
    implement it, by an interpretation of the locale \<open>simulation\<close> of the prelude.
  \<^item> \<open>Fleet\<close>: any number of clients and the whole server of \<open>Server\<close>. A second interpretation of \<open>simulation\<close> shows that each
    connection of the fleet is a session, hence a letter box: what holds of one connection holds for every client of a shared
    server. \<open>fleet_inv\<close> ties the channel and the batches in hand to their connections.
  \<^item> \<open>Progress\<close>: a session without failures finishes under every schedule; \<open>remaining\<close> is the measure that every smooth step
    decreases.
  \<^item> \<open>Keepalive_Timing\<close>: the connection task and the client of one batch with a clock: when keepalives keep the client from
    timing out, and when they cannot.
  \<^item> \<open>Baseline\<close>: the throughput harness, with its command line, its events, its draining server loop (\<open>drain_turn\<close>, on the system of
    \<open>Server\<close>) and its workers and \<open>main\<close> sharing relaxed atomics (\<open>harness_step\<close>, any interleaving, loads that lag); \<open>harness_inv\<close> ties
    what \<open>main\<close> reads to the run so far.
  \<^item> \<open>Example_Programs\<close>: the two demonstration programs, with lossy decoding of UTF-8.
  \<^item> \<open>Unit_Tests\<close>: the \<open>tests\<close> modules of the sources, as checks of the definitions above, and that they pass.
  \<^item> This theory: the properties that need both ends.

  \<^bold>\<open>Parameters and contracts.\<close> Code outside the repository is an argument of the definitions that use it: \<^verbatim>\<open>flate2\<close> (record
  \<open>flate2\<close>, laws \<open>flate2_laws\<close>), sockets, name resolution and random numbers (\<open>sockets\<close>, \<open>network\<close>, \<open>listening\<close>), \<^verbatim>\<open>serde_json\<close>
  (\<open>to_vec\<close>), \<^verbatim>\<open>rustls\<close> (\<open>tls_library\<close>). The laws have instances (\<open>stored_flate2\<close>, \<open>busy_host\<close>), on which the witnesses
  evaluate. \<open>mpsc::channel\<close> is a parameter too, with the rule by which the channel admits a batch; \<open>room_below\<close> is the rule that
  \<^verbatim>\<open>tokio\<close> documents, used where a theorem is about a full channel and in the witnesses. The rest of \<^verbatim>\<open>tokio\<close>'s channels and its
  timers appear as guards of the steps, in \<open>Server\<close> and \<open>Client\<close>.

  \<^bold>\<open>Conventions.\<close> An outer \<^typ>\<open>'a option\<close> is a possible panic or an event that cannot happen in a state, as the text at the
  definition says; \<open>result\<close> is the crate's \<open>Result\<close>. \<open>u8\<close>, \<open>u16\<close>, \<open>u32\<close> and the gauge are words; \<open>usize\<close> is a natural number,
  because the lengths it holds are those of buffers in memory. Integer arithmetic is that of a release build (it wraps); the
  only sums of the source that could wrap in practice are the length fields (\<open>json_length_wraps\<close>) and the sequence number of
  the event with index \<open>2 ^ 32 - 1\<close>. Outside \<open>Keepalive_Timing\<close> durations only matter as present or absent: a timer may fire at
  any time after its \<open>await\<close> began. No definition uses fuel: the loops over buffers end because each round consumes input, the decompression
  loop because each round fills its limit, and the reading loop of a stream is an inductive relation.

  \<^bold>\<open>What is shown.\<close> Across both ends, for a client that does not send again on a connection after a send that failed:
  \<open>exactly_once_in_order\<close>, the application receives a beginning of the client's
  batches, each once and complete, and every confirmed one is among them; \<open>session_implements_letter_box\<close>, that is all there is to see of a
  connection; \<open>fleet_refines_session\<close>, \<open>fleet_exactly_once\<close> and
  \<open>confirmed_means_released\<close>, the same for any number of clients of one server, and no batch is confirmed while the server
  or the application has it; \<open>session_always_completes\<close>, without failures every schedule comes to the end, in a bounded number of
  steps; \<open>keepalive_prevents_timeout\<close>, how the interval, the delays and the timeout must relate; \<open>batch_exchange\<close>, a batch goes through with exactly its events and comes back
  acknowledged, under every chunking of either direction, with and without compression. The failures found on the
  way are theorems too: a failed send leaves the connection inside its window (\<open>failed_send_poisons_connection\<close>), a late
  acknowledgement is taken for the next batch, which may then be lost (\<open>resumed_send_confirms_lost_batch\<close>), a client without compression support panics, the shutdown acknowledges unseen
  batches, a failed \<open>accept\<close> is final, surplus events are dropped, an empty window is acknowledged by a keepalive, a full
  channel silences the keepalives (\<open>backpressure_silences_keepalive\<close>).

  \<^bold>\<open>Not modelled.\<close> Logging, \<open>set_nodelay\<close> on accepted sockets, memory limits (an allocation that fails aborts the process: the
  theorems on reachable states hold of every state before that, those on progress are about a process that goes on), the
  clock and the floating-point figures of the harness, the benchmarks, the integration tests under \<^verbatim>\<open>src/tests\<close>
  (they run the same code over real sockets and against another implementation), and the re-exports of \<^verbatim>\<open>lib.rs\<close>. A task that is cancelled from outside is not modelled
  either: the crate never cancels one.
\<close>

section \<open>Properties of the whole\<close>

text \<open>C4. A whole exchange. A client whose events serialise and fit writes its batch on a fresh connection; however the
  network cuts those bytes, the connection task of the server dispatches one batch with exactly the serialised events
  in order and the number of events as its last sequence number; once the batch is released the task writes the
  acknowledgement of that number; and however that acknowledgement, with any number of keepalives before it, reaches
  the client, the send returns the number of events.\<close>

theorem batch_exchange:
  assumes "crate_build zl" and "serialized to_vec evs ds" and "evs \<noteq> []" and "length evs < 2 ^ 32"
    and "n = word_of_nat (length evs)" and "sendable zl self (numbered 0 ds)"
    and "deliverable zl self (conn_max_frame_size cfg) (numbered 0 ds)"
  shows "\<exists>out. send_run zl self (send_start to_vec zl evs, []) (all_written self (length evs)) = Some (AwaitingAck n, out) \<and>
    (\<forall>cs items. concat cs = out \<longrightarrow>
       framed_read (codec_decode zl (with_max_frame_size (conn_max_frame_size cfg))) trunc [] cs items \<longrightarrow>
       conn_run zl cfg AwaitWindow (items_arriving tx items) = Some (Dispatching (batch_new ds n tx) tx)) \<and>
    conn_run zl cfg (Dispatching (batch_new ds n tx) tx) [(tx', BatchSent True), (tx', AckReceived (Some n))] =
      Some (SendingAck n) \<and>
    writing (SendingAck n) = Some (Ack n) \<and>
    (\<forall>cs items k. concat cs = concat (map (wire zl) (map Ack (replicate k 0 @ [n]))) \<longrightarrow>
       framed_read (codec_decode zl (cl_codec self)) trunc [] cs items \<longrightarrow>
       send_run zl self (AwaitingAck n, out) (map (\<lambda>item. Arrived (Some item)) items) = Some (SendReturned (Inr n), out))"
proof -
  let ?js = "numbered 0 ds" and ?out = "batch_wire zl self n (numbered 0 ds)"
  have len: "length ds = length evs" using assms(2) by (rule serialized_length)
  with assms(3) have ne: "ds \<noteq> []" by auto
  have "send_run zl self (send_start to_vec zl evs, []) (all_written self (length evs)) = Some (AwaitingAck n, ?out)"
    using send_run_written [OF assms(6), of n "[]"] send_start_ok [OF assms(2,3), of zl] assms(5) len by simp
  moreover have "conn_run zl cfg AwaitWindow (items_arriving tx items) = Some (Dispatching (batch_new ds n tx) tx)"
    if "concat cs = ?out"
      "framed_read (codec_decode zl (with_max_frame_size (conn_max_frame_size cfg))) trunc [] cs items" for cs items
  proof -
    have "items = map Inr (batch_frames self n ?js)"
      using framing.framed_read_encoded_all [OF crate_build.codec_contract [OF assms(1)] that(2), of "batch_frames self n ?js"]
        batch_frames_fit [OF assms(7), of n] that(1)
      by (simp add: batch_wire_frames codec_decode_parse with_max_frame_size_def)
    then show ?thesis
      using batch_frames_dispatch [OF _ ne _ assms(7), of n tx] assms(4,5) len by simp
  qed
  moreover have "send_run zl self (AwaitingAck n, ?out) (map (\<lambda>item. Arrived (Some item)) items) =
      Some (SendReturned (Inr n), ?out)"
    if "concat cs = concat (map (wire zl) (map Ack (replicate k 0 @ [n])))"
      "framed_read (codec_decode zl (cl_codec self)) trunc [] cs items" for cs items k
  proof -
    have "0 < n" using assms(3,4,5) length_fits_word [of "length evs"] by (auto simp: word_gt_0)
    then have "send_run zl self (AwaitingAck n, ?out) (acks (replicate k 0)) = Some (AwaitingAck n, ?out)"
      by (intro send_run_small_acks) auto
    with acks_read [OF assms(1) that(2,1)] show ?thesis by (simp add: acks_def comp_def)
  qed
  ultimately show ?thesis by (intro exI [of _ ?out]) (simp add: batch_new_def)
qed

theorem batch_exchange_witness:
  "\<exists>out. send_run (Some stored_flate2) (example_client 3) (send_start Inr (Some stored_flate2) example_batch, [])
      (all_written (example_client 3) (length example_batch)) = Some (AwaitingAck 2, out) \<and>
    (\<forall>cs items. concat cs = out \<longrightarrow>
       framed_read (codec_decode (Some stored_flate2) (with_max_frame_size (conn_max_frame_size example_cfg)))
         AckTimeout [] cs items \<longrightarrow>
       conn_run (Some stored_flate2) example_cfg AwaitWindow (items_arriving 0 items) =
         Some (Dispatching (batch_new example_batch 2 0) 0)) \<and>
    conn_run (Some stored_flate2) example_cfg (Dispatching (batch_new example_batch 2 0) 0)
      [(1, BatchSent True), (1, AckReceived (Some 2))] = Some (SendingAck 2) \<and>
    writing (SendingAck 2) = Some (Ack 2) \<and>
    (\<forall>cs items k. concat cs = concat (map (wire (Some stored_flate2)) (map Ack (replicate k 0 @ [2]))) \<longrightarrow>
       framed_read (codec_decode (Some stored_flate2) (cl_codec (example_client 3))) AckTimeout [] cs items \<longrightarrow>
       send_run (Some stored_flate2) (example_client 3) (AwaitingAck 2, out) (map (\<lambda>item. Arrived (Some item)) items) =
         Some (SendReturned (Inr 2), out))"
proof (rule batch_exchange [OF stored_build.crate_build_axioms])
  show "deliverable (Some stored_flate2) (example_client 3) (conn_max_frame_size example_cfg) (numbered 0 example_batch)"
    by (simp add: deliverable_def example_cfg_def example_batch_def zlib_compress_def stored_flate2_def json_wire_def)
qed simp_all

text \<open>C33. A window inside a window ends the connection. A client that has given up a send after some frames of the batch,
  because of an event above the frame limit, and then sends another batch on the same connection is cut off: the
  server's task returns an error as soon as it reads the second window, in whatever pieces the bytes arrive.\<close>

theorem failed_send_poisons_connection:
  assumes "crate_build zl" and "serialized to_vec evs (ds @ d # ds')" and "length evs < 2 ^ 32"
    and "cl_compression_level self = 0"
    and "\<forall>d' \<in> set ds. length d' \<le> DEFAULT_MAX_FRAME_SIZE" and "DEFAULT_MAX_FRAME_SIZE < length d" and "length d < 2 ^ 32"
    and "serialized to_vec evs'' ds''" and "evs'' \<noteq> []" and "sendable zl self (numbered 0 ds'')"
    and "conn_max_frame_size cfg = DEFAULT_MAX_FRAME_SIZE"
  shows "\<exists>e out1 out2.
    send_run zl self (send_start to_vec zl evs, []) (replicate (Suc (length ds)) (Fed (Inr ()))) =
      Some (SendReturned (Inl e), out1) \<and>
    send_run zl self (send_start to_vec zl evs'', out1) (all_written self (length evs'')) =
      Some (AwaitingAck (word_of_nat (length evs'')), out2) \<and>
    (\<forall>cs items. concat cs = out2 \<longrightarrow>
       framed_read (codec_decode zl (with_max_frame_size (conn_max_frame_size cfg))) trunc [] cs items \<longrightarrow>
       conn_run zl cfg AwaitWindow (items_arriving tx (take (length ds + 2) items)) =
         Some (Returned (Inl (UnexpectedFrame ''expected J or C inside window''))))"
proof -
  let ?n = "word_of_nat (length evs) :: u32" and ?m = "word_of_nat (length evs'') :: u32"
  let ?js = "numbered 0 ds" and ?fs = "Window ?n # json_frames (numbered 0 ds) @ [Window ?m]"
  let ?out1 = "wire zl (Window ?n) @ json_wire ?js"
  let ?out2 = "?out1 @ batch_wire zl self ?m (numbered 0 ds'')"
  have fit: "events_fit DEFAULT_MAX_FRAME_SIZE ?js"
    using assms(5) by (intro numbered_fit) (auto simp: DEFAULT_MAX_FRAME_SIZE_def)
  have len: "length ds < length evs" using serialized_length [OF assms(2)] by simp
  have first: "send_run zl self (send_start to_vec zl evs, []) (replicate (Suc (length ds)) (Fed (Inr ()))) =
      Some (SendReturned (Inl (FrameTooLarge (length d) DEFAULT_MAX_FRAME_SIZE)), ?out1)"
    using oversized_run [OF assms(2,4-7), of zl "[]"] by simp
  have second: "send_run zl self (send_start to_vec zl evs'', ?out1) (all_written self (length evs'')) =
      Some (AwaitingAck ?m, ?out2)"
    using send_run_written [OF assms(10), of ?m ?out1] send_start_ok [OF assms(8,9), of zl] serialized_length [OF assms(8)]
    by simp
  have server: "conn_run zl cfg AwaitWindow (arriving tx ?fs) =
      Some (Returned (Inl (UnexpectedFrame ''expected J or C inside window'')))"
    using window_in_window [OF numbered_window(1), of ds ?n zl cfg tx ?m] len assms(3) by (simp add: length_fits_word)
  have "conn_run zl cfg AwaitWindow (items_arriving tx (take (length ds + 2) items)) =
      Some (Returned (Inl (UnexpectedFrame ''expected J or C inside window'')))"
    if "concat cs = ?out2"
      "framed_read (codec_decode zl (with_max_frame_size (conn_max_frame_size cfg))) trunc [] cs items" for cs items
  proof -
    have "\<exists>items'. items = map Inr ?fs @ items'"
      using framing.framed_read_encoded [OF crate_build.codec_contract [OF assms(1)] that(2), of ?fs]
        json_frames_fit [OF fit, of zl] that(1) assms(11)
      by (auto simp: batch_wire_def wire_json_frames with_max_frame_size_def simp del: wire.simps)
    then have "take (length ds + 2) items = map Inr ?fs" by (auto simp: json_frames_def)
    with server show ?thesis by (simp only: items_arriving_frames)
  qed
  with first second show ?thesis by blast
qed


theorem failed_send_poisons_connection_witness:
  "\<exists>e out1 out2.
    send_run no_zlib (example_client 0) (send_start Inr no_zlib [[123, 125], replicate 16777217 0], [])
      (replicate (Suc (length [[123, 125] :: bytes])) (Fed (Inr ()))) = Some (SendReturned (Inl e), out1) \<and>
    send_run no_zlib (example_client 0) (send_start Inr no_zlib example_batch, out1)
      (all_written (example_client 0) (length example_batch)) =
      Some (AwaitingAck (word_of_nat (length example_batch)), out2) \<and>
    (\<forall>cs items. concat cs = out2 \<longrightarrow>
       framed_read (codec_decode no_zlib (with_max_frame_size
         (conn_max_frame_size \<lparr>conn_max_frame_size = DEFAULT_MAX_FRAME_SIZE, conn_keepalive = None\<rparr>)))
         AckTimeout [] cs items \<longrightarrow>
       conn_run no_zlib \<lparr>conn_max_frame_size = DEFAULT_MAX_FRAME_SIZE, conn_keepalive = None\<rparr> AwaitWindow
         (items_arriving 0 (take (length [[123, 125] :: bytes] + 2) items)) =
         Some (Returned (Inl (UnexpectedFrame ''expected J or C inside window''))))"
  by (rule failed_send_poisons_connection [OF plain_build.crate_build_axioms, where d = "replicate 16777217 0" and ds' = "[]"
        and ds'' = example_batch])
    (simp_all add: serialized_def list_all2_same DEFAULT_MAX_FRAME_SIZE_def sendable_def example_batch_def)

text \<open>An empty window makes an empty batch whose acknowledgement, on the wire, is a keepalive: after it the peer cannot
  tell whether the batch was released.\<close>

theorem empty_window_ack_is_keepalive:
  "conn_run zl cfg AwaitWindow (arriving tx [Window 0]) = Some (Dispatching (batch_new [] 0 tx) tx) \<and>
   conn_run zl cfg (Dispatching (batch_new [] 0 tx) tx) [(tx', BatchSent True), (tx', AckReceived (Some 0))] =
     Some (SendingAck 0) \<and>
   writing (SendingAck 0) = writing (SendingKeepalive tx 0)"
  by (simp add: window_loop_def batch_new_def)

end
